(* ===== verification/Prelude.thy ===== *)
theory Prelude
  imports Main "HOL-Library.Word"
begin

text \<open>
  Shared vocabulary of the development: the machine types of \<^verbatim>\<open>kernel/types.h\<close>, the
  result of a kernel call, little-endian words over bytes, byte-addressed memory, and the
  generic lemmas on lists and words that the components use.

  A kernel call either returns (\<open>Ret\<close>), stops the machine (\<open>Panic\<close>, carrying the
  message of \<^verbatim>\<open>panic()\<close>, or the name of the invalid access where the C code would
  dereference a null pointer), or goes to sleep on a channel before it can return
  (\<open>Blocked\<close>): the caller's thread is descheduled and what it does next depends on
  other threads.  State is passed explicitly.
\<close>

unbundle bit_operations_syntax

section \<open>Machine types\<close>

type_synonym byte = "8 word"
type_synonym u16 = "16 word"
type_synonym u32 = "32 word"
type_synonym u64 = "64 word"
type_synonym addr = "64 word"

text \<open>Physical memory, and more generally any byte-addressed object.\<close>

type_synonym memory = "addr \<Rightarrow> byte"

section \<open>Lemma collections\<close>

named_theorems kernel_simps \<open>equations that unfold the kernel's small helpers\<close>
named_theorems mem_simps \<open>reads over writes of byte memory\<close>
named_theorems res_elims \<open>elimination of results of kernel calls\<close>

section \<open>Results of kernel calls\<close>

datatype 'a res = Ret 'a | Panic string | Blocked string

primrec rbind :: "'a res \<Rightarrow> ('a \<Rightarrow> 'b res) \<Rightarrow> 'b res" where
  "rbind (Ret x) f = f x"
| "rbind (Panic m) f = Panic m"
| "rbind (Blocked c) f = Blocked c"

primrec returns :: "'a res \<Rightarrow> bool" where
  "returns (Ret x) = True"
| "returns (Panic m) = False"
| "returns (Blocked c) = False"

text \<open>A loop over the elements of a list, stopping at the first call that does not return.\<close>

primrec rfold :: "('b \<Rightarrow> 's \<Rightarrow> 's res) \<Rightarrow> 'b list \<Rightarrow> 's \<Rightarrow> 's res" where
  "rfold f [] s = Ret s"
| "rfold f (x # xs) s = rbind (f x s) (rfold f xs)"

lemma rbind_cong [fundef_cong]:
  "m = m' \<Longrightarrow> (\<And>x. m' = Ret x \<Longrightarrow> f x = g x) \<Longrightarrow> rbind m f = rbind m' g"
  by (cases m) auto

lemma rbind_Ret_iff [simp]: "rbind m f = Ret y \<longleftrightarrow> (\<exists>x. m = Ret x \<and> f x = Ret y)"
  by (cases m) auto

lemma rbind_assoc: "rbind (rbind m f) g = rbind m (\<lambda>x. rbind (f x) g)"
  by (cases m) auto

lemma rbind_split:
  "P (rbind m f) \<longleftrightarrow>
     (\<forall>x. m = Ret x \<longrightarrow> P (f x)) \<and> (\<forall>e. m = Panic e \<longrightarrow> P (Panic e)) \<and>
     (\<forall>c. m = Blocked c \<longrightarrow> P (Blocked c))"
  by (cases m) auto

lemma rfold_append: "rfold f (xs @ ys) s = rbind (rfold f xs s) (rfold f ys)"
  by (induction xs arbitrary: s) (auto simp: rbind_assoc intro: rbind_cong)

text \<open>The loop rule: an invariant that every iteration keeps holds at the end.\<close>

lemma rfold_invariant:
  assumes "rfold f xs s = Ret s'" "I s"
    and "\<And>x t t'. x \<in> set xs \<Longrightarrow> I t \<Longrightarrow> f x t = Ret t' \<Longrightarrow> I t'"
  shows "I s'"
  using assms by (induction xs arbitrary: s) auto

lemma rfold_returns:
  assumes "I s" "\<And>x t. x \<in> set xs \<Longrightarrow> I t \<Longrightarrow> \<exists>t'. f x t = Ret t' \<and> I t'"
  shows "\<exists>s'. rfold f xs s = Ret s' \<and> I s'"
  using assms
proof (induction xs arbitrary: s)
  case Nil
  then show ?case by simp
next
  case (Cons x xs)
  then obtain t where "f x s = Ret t" "I t" by (metis list.set_intros(1))
  then show ?case using Cons.IH [of t] Cons.prems(2) by auto
qed

lemma returns_iff: "returns m \<longleftrightarrow> (\<exists>x. m = Ret x)"
  by (cases m) auto

section \<open>Lists\<close>

lemma nth_map_upt_0 [simp]: "i < n \<Longrightarrow> map f [0..<n] ! i = f i"
  by simp

lemma find_Some_nth:
  "find P xs = Some x \<Longrightarrow> x \<in> set xs \<and> P x"
  by (induction xs) (auto split: if_splits)

section \<open>Little-endian words\<close>

primrec le_word :: "byte list \<Rightarrow> 'a::len word" where
  "le_word [] = 0"
| "le_word (b # bs) = ucast b OR push_bit 8 (le_word bs)"

primrec le_bytes :: "nat \<Rightarrow> 'a::len word \<Rightarrow> byte list" where
  "le_bytes 0 w = []"
| "le_bytes (Suc n) w = ucast w # le_bytes n (drop_bit 8 w)"

lemma length_le_bytes [simp]: "length (le_bytes n w) = n"
  by (induction n arbitrary: w) auto

lemma bit_le_word_le_bytes:
  "bit (le_word (le_bytes n w) :: 'a::len word) k \<longleftrightarrow> k < 8 * n \<and> bit (w :: 'a word) k"
proof (induction n arbitrary: w k)
  case 0
  then show ?case by simp
next
  case (Suc n)
  show ?case
  proof (cases "k < 8")
    case True
    then show ?thesis
      by (auto simp: bit_simps Suc dest: bit_imp_le_length)
  next
    case False
    then have "k = 8 + (k - 8)" by simp
    then show ?thesis
      using False by (auto simp: bit_simps Suc dest: bit_imp_le_length)
  qed
qed

lemma le_word_le_bytes:
  assumes "LENGTH('a) \<le> 8 * n"
  shows "le_word (le_bytes n w) = (w :: 'a::len word)"
  using assms by (intro bit_word_eqI) (simp add: bit_le_word_le_bytes)

lemma le_bytes_le_word:
  assumes "8 * length bs \<le> LENGTH('a)"
  shows "le_bytes (length bs) (le_word bs :: 'a::len word) = bs"
  using assms
proof (induction bs)
  case Nil
  then show ?case by simp
next
  case (Cons b bs)
  let ?w = "le_word bs :: 'a word"
  have "ucast (ucast b OR push_bit 8 ?w) = b"
    using Cons.prems by (intro bit_word_eqI) (auto simp: bit_simps)
  moreover have "le_bytes (length bs) (drop_bit 8 (ucast b OR push_bit 8 ?w)) = bs"
  proof -
    have hi: "\<not> bit ?w k" if "8 * length bs \<le> k" for k
      using that
    proof (induction bs arbitrary: k)
      case Nil
      then show ?case by simp
    next
      case (Cons c cs)
      then have "\<not> bit (le_word cs :: 'a word) (k - 8)" by simp
      moreover have "\<not> bit c k" using Cons.prems by (auto dest: bit_imp_le_length)
      ultimately show ?case by (auto simp: bit_simps)
    qed
    have "drop_bit 8 (ucast b OR push_bit 8 ?w) = ?w"
    proof (rule bit_word_eqI)
      fix k assume "k < LENGTH('a)"
      show "bit (drop_bit 8 (ucast b OR push_bit 8 ?w)) k = bit ?w k"
      proof (cases "8 + k < LENGTH('a)")
        case True
        then show ?thesis by (auto simp: bit_simps dest: bit_imp_le_length)
      next
        case False
        then have "8 * length bs \<le> k" using Cons.prems by simp
        then show ?thesis
          using False hi by (auto simp: bit_simps dest: bit_imp_le_length)
      qed
    qed
    then show ?thesis using Cons by simp
  qed
  ultimately show ?case by simp
qed

section \<open>Byte memory\<close>

definition read_bytes :: "memory \<Rightarrow> addr \<Rightarrow> nat \<Rightarrow> byte list" where
  "read_bytes m a n = map (\<lambda>i. m (a + of_nat i)) [0..<n]"

definition write_bytes :: "memory \<Rightarrow> addr \<Rightarrow> byte list \<Rightarrow> memory" where
  "write_bytes m a bs =
     (\<lambda>x. if unat (x - a) < length bs then bs ! unat (x - a) else m x)"

definition load64 :: "memory \<Rightarrow> addr \<Rightarrow> u64" where
  "load64 m a = le_word (read_bytes m a 8)"

definition store64 :: "memory \<Rightarrow> addr \<Rightarrow> u64 \<Rightarrow> memory" where
  "store64 m a v = write_bytes m a (le_bytes 8 v)"

lemma read_bytes_0 [simp]: "read_bytes m a 0 = []"
  by (simp add: read_bytes_def)

lemma write_bytes_Nil [simp]: "write_bytes m a [] = m"
  by (simp add: write_bytes_def)

lemma length_read_bytes [simp]: "length (read_bytes m a n) = n"
  by (simp add: read_bytes_def)

lemma nth_read_bytes [simp]: "i < n \<Longrightarrow> read_bytes m a n ! i = m (a + of_nat i)"
  by (simp add: read_bytes_def)

lemma read_bytes_Suc: "read_bytes m a (Suc n) = m a # read_bytes m (a + 1) n"
  by (rule nth_equalityI) (auto simp: nth_Cons add.assoc split: nat.splits)

lemma read_bytes_snoc: "read_bytes m a (Suc n) = read_bytes m a n @ [m (a + of_nat n)]"
  by (simp add: read_bytes_def)

lemma unat_add_diff [simp]:
  assumes "i < 2 ^ 64"
  shows "unat (a + of_nat i - a :: addr) = i"
  using assms by (simp add: unat_of_nat)

lemma addr_offset_iff:
  assumes "n < 2 ^ 64"
  shows "x = d + of_nat n \<longleftrightarrow> unat (x - d :: addr) = n"
proof
  assume "unat (x - d) = n"
  moreover have "x = d + of_nat (unat (x - d))" by simp
  ultimately show "x = d + of_nat n" by simp
qed (use assms in \<open>simp add: unat_of_nat\<close>)

lemma read_write_same [mem_simps]:
  assumes "length bs \<le> 2 ^ 64"
  shows "read_bytes (write_bytes m a bs) a (length bs) = bs"
proof (rule nth_equalityI)
  show "length (read_bytes (write_bytes m a bs) a (length bs)) = length bs" by simp
next
  fix i assume "i < length (read_bytes (write_bytes m a bs) a (length bs))"
  then have "i < length bs" and "i < 2 ^ 64" using assms by auto
  then show "read_bytes (write_bytes m a bs) a (length bs) ! i = bs ! i"
    by (simp add: write_bytes_def unat_of_nat)
qed

lemma read_write_other [mem_simps]:
  assumes "\<And>i. i < n \<Longrightarrow> length bs \<le> unat (b + of_nat i - a)"
  shows "read_bytes (write_bytes m a bs) b n = read_bytes m b n"
  using assms by (intro nth_equalityI) (auto simp: write_bytes_def not_less [symmetric])

lemma load_store64_same [simp, mem_simps]: "load64 (store64 m a v) a = v"
proof -
  have "read_bytes (store64 m a v) a 8 = le_bytes 8 v"
    using read_write_same [of "le_bytes 8 v" m a] by (simp add: store64_def)
  then show ?thesis by (simp add: load64_def le_word_le_bytes)
qed

lemma load_store64_other [mem_simps]:
  assumes "\<And>i. i < 8 \<Longrightarrow> 8 \<le> unat (b + of_nat i - a)"
  shows "load64 (store64 m a v) b = load64 m b"
  using assms by (simp add: load64_def store64_def read_write_other)

lemma read_bytes_cong:
  "(\<And>i. i < n \<Longrightarrow> m (a + of_nat i) = m' (a + of_nat i)) \<Longrightarrow>
     read_bytes m a n = read_bytes m' a n"
  by (simp add: read_bytes_def)

lemma load64_cong:
  "(\<And>i. i < 8 \<Longrightarrow> m (a + of_nat i) = m' (a + of_nat i)) \<Longrightarrow> load64 m a = load64 m' a"
  unfolding load64_def by (metis read_bytes_cong)

end
