(* ===== verification/Riscv.thy ===== *)
theory Riscv
  imports Prelude
begin

text \<open>
  The address arithmetic of \<^verbatim>\<open>kernel/riscv.h\<close> and the constants of
  \<^verbatim>\<open>kernel/memlayout.h\<close>, \<^verbatim>\<open>kernel/param.h\<close> and \<^verbatim>\<open>kernel/proc.h\<close>, over 64-bit
  words, with the page-number view of addresses that the memory components share:
  \<open>pn x\<close> is the number of the page that holds address \<open>x\<close>.
\<close>

section \<open>Definitions\<close>

definition PGSIZE :: u64 where "PGSIZE = 4096"

definition PGROUNDUP :: "u64 \<Rightarrow> u64" where
  "PGROUNDUP sz = (sz + PGSIZE - 1) AND NOT (PGSIZE - 1)"

definition PGROUNDDOWN :: "u64 \<Rightarrow> u64" where
  "PGROUNDDOWN a = a AND NOT (PGSIZE - 1)"

definition PTE_V :: u64 where "PTE_V = push_bit 0 1"
definition PTE_R :: u64 where "PTE_R = push_bit 1 1"
definition PTE_W :: u64 where "PTE_W = push_bit 2 1"
definition PTE_X :: u64 where "PTE_X = push_bit 3 1"
definition PTE_U :: u64 where "PTE_U = push_bit 4 1"

definition PA2PTE :: "addr \<Rightarrow> u64" where
  "PA2PTE pa = push_bit 10 (drop_bit 12 pa)"

definition PTE2PA :: "u64 \<Rightarrow> addr" where
  "PTE2PA pte = push_bit 12 (drop_bit 10 pte)"

definition PTE_FLAGS :: "u64 \<Rightarrow> u64" where
  "PTE_FLAGS pte = pte AND 0x3FF"

definition PX :: "nat \<Rightarrow> u64 \<Rightarrow> u64" where
  "PX level va = drop_bit (12 + 9 * level) va AND 0x1FF"

definition MAXVA :: u64 where
  "MAXVA = push_bit (9 + 9 + 9 + 12 - 1) 1"

definition MAKE_SATP :: "addr \<Rightarrow> u64" where
  "MAKE_SATP pagetable = push_bit 60 8 OR drop_bit 12 pagetable"

definition UART0 :: u64 where "UART0 = 0x10000000"
definition VIRTIO0 :: u64 where "VIRTIO0 = 0x10001000"
definition PLIC :: u64 where "PLIC = 0x0c000000"
definition KERNBASE :: u64 where "KERNBASE = 0x80000000"
definition PHYSTOP :: u64 where "PHYSTOP = KERNBASE + 128 * 1024 * 1024"
definition TRAMPOLINE :: u64 where "TRAMPOLINE = MAXVA - PGSIZE"
definition TRAPFRAME :: u64 where "TRAPFRAME = TRAMPOLINE - PGSIZE"

definition KSTACK :: "nat \<Rightarrow> u64" where
  "KSTACK p = TRAMPOLINE - (of_nat p + 1) * 2 * PGSIZE"

lemmas riscv_consts = PGSIZE_def PTE_V_def PTE_R_def PTE_W_def PTE_X_def PTE_U_def
  MAXVA_def UART0_def VIRTIO0_def PLIC_def KERNBASE_def PHYSTOP_def TRAMPOLINE_def TRAPFRAME_def

text \<open>The number of the page that holds an address.\<close>

definition pn :: "addr \<Rightarrow> u64" where
  "pn a = drop_bit 12 a"

definition page_aligned :: "addr \<Rightarrow> bool" where
  "page_aligned a \<longleftrightarrow> a mod PGSIZE = 0"

section \<open>Pages\<close>

lemma unat_pn: "unat (pn a) = unat a div 4096"
  by (simp add: pn_def drop_bit_eq_div unat_div)

lemma page_aligned_unat: "page_aligned a \<longleftrightarrow> unat a mod 4096 = 0"
  by (simp add: page_aligned_def PGSIZE_def unat_eq_zero [symmetric] unat_mod del: unat_eq_zero)

lemma pn_eq_iff: "pn a = pn b \<longleftrightarrow> unat a div 4096 = unat b div 4096"
  by (metis unat_pn word_unat_eq_iff)

lemma page_alignedE:
  assumes "page_aligned p"
  obtains q where "unat p = 4096 * q" "q < 4503599627370496"
proof
  show "unat p = 4096 * (unat p div 4096)"
    using assms by (simp add: page_aligned_unat mod_eq_0_iff_dvd)
  have "unat p < 2 ^ 64" using unsigned_less [where ?'b = 64 and w = p] by simp
  then show "unat p div 4096 < 4503599627370496" by simp
qed

lemma page_aligned_no_overflow:
  assumes "page_aligned p" "k < 4096"
  shows "unat (p + of_nat k) = unat p + k"
proof -
  obtain q where q: "unat p = 4096 * q" "q < 4503599627370496"
    using assms(1) by (rule page_alignedE)
  then have "unat p + k < 18446744073709551616" using assms(2) by linarith
  then show ?thesis
    using assms(2) by (simp add: unat_word_ariths unat_of_nat)
qed

lemma pn_add [simp]:
  assumes "page_aligned p" "k < 4096"
  shows "pn (p + of_nat k) = pn p"
proof -
  obtain q where "unat p = 4096 * q"
    using assms(1) by (rule page_alignedE)
  then show ?thesis
    using assms page_aligned_no_overflow [OF assms] by (simp add: pn_eq_iff)
qed

lemma in_page_iff:
  assumes "page_aligned p"
  shows "unat (x - p) < 4096 \<longleftrightarrow> pn x = pn p"
proof
  assume "unat (x - p) < 4096"
  then have "pn (p + of_nat (unat (x - p))) = pn p" using assms pn_add by blast
  then show "pn x = pn p" by simp
next
  assume eq: "pn x = pn p"
  obtain q where q: "unat p = 4096 * q" using assms by (rule page_alignedE)
  then have le: "unat p \<le> unat x" and lt: "unat x - unat p < 4096"
    using eq by (auto simp: pn_eq_iff)
  have "unat (x - p) = unat x - unat p"
    using le by (simp add: unat_sub word_le_nat_alt)
  then show "unat (x - p) < 4096" using lt by simp
qed

lemma page_aligned_pn_inj:
  assumes "page_aligned p" "page_aligned q" "pn p = pn q"
  shows "p = q"
proof -
  obtain i where i: "unat p = 4096 * i" using assms(1) by (rule page_alignedE)
  obtain j where j: "unat q = 4096 * j" using assms(2) by (rule page_alignedE)
  have "unat p = unat q" using assms(3) i j by (simp add: pn_eq_iff)
  then show ?thesis by (simp add: word_unat_eq_iff)
qed

lemma page_aligned_0 [simp]: "page_aligned 0"
  by (simp add: page_aligned_def)

lemma unat_PGSIZE [simp]: "unat PGSIZE = 4096"
  by (simp add: PGSIZE_def)

lemma not_bit_ge:
  fixes w :: "'a::len word"
  assumes "unat w < 2 ^ n" "n \<le> k"
  shows "\<not> bit w k"
proof -
  have "unat w = take_bit n (unat w)"
    using assms(1) by (simp add: take_bit_nat_eq_self)
  then have "\<not> bit (unat w) k" using assms(2) by (metis bit_take_bit_iff not_le)
  then show ?thesis by (simp add: bit_unsigned_iff)
qed

lemma page_aligned_not_bit:
  assumes "page_aligned p" "k < 12"
  shows "\<not> bit p k"
proof -
  have "take_bit 12 p = 0"
    using assms(1) by (simp add: page_aligned_def PGSIZE_def take_bit_eq_mod)
  then show ?thesis
    using assms(2) by (metis bit_take_bit_iff bit_0_eq bot_apply bot_bool_def)
qed

lemma PGSIZE_mask: "PGSIZE - 1 = mask 12"
  by (simp add: PGSIZE_def mask_eq_exp_minus_1)

lemma pn_PGROUNDDOWN [simp]: "pn (PGROUNDDOWN a) = pn a"
  by (rule bit_word_eqI)
    (auto simp: pn_def PGROUNDDOWN_def bit_simps PGSIZE_mask dest: bit_imp_le_length)

lemma page_aligned_iff_bits: "page_aligned p \<longleftrightarrow> take_bit 12 p = 0"
  by (simp add: page_aligned_def PGSIZE_def take_bit_eq_mod)

lemma page_aligned_and_mask: "page_aligned (a AND NOT (PGSIZE - 1))"
  unfolding page_aligned_iff_bits PGSIZE_mask
  by (rule bit_word_eqI) (auto simp: bit_simps)

lemma page_aligned_PGROUNDDOWN [simp]: "page_aligned (PGROUNDDOWN a)"
  unfolding PGROUNDDOWN_def by (rule page_aligned_and_mask)

lemma page_aligned_PGROUNDUP [simp]: "page_aligned (PGROUNDUP a)"
  unfolding PGROUNDUP_def by (rule page_aligned_and_mask)

lemma PGROUNDDOWN_aligned [simp]: "page_aligned a \<Longrightarrow> PGROUNDDOWN a = a"
  by (rule page_aligned_pn_inj) auto

lemma unat_PGROUNDDOWN: "unat (PGROUNDDOWN a) = 4096 * (unat a div 4096)"
proof -
  obtain q where q: "unat (PGROUNDDOWN a) = 4096 * q"
    using page_aligned_PGROUNDDOWN by (rule page_alignedE)
  moreover have "unat (PGROUNDDOWN a) div 4096 = unat a div 4096"
    using pn_PGROUNDDOWN [of a] by (simp only: pn_eq_iff)
  ultimately show ?thesis by simp
qed

lemma PGROUNDDOWN_le: "PGROUNDDOWN a \<le> a"
  by (simp add: word_le_nat_alt unat_PGROUNDDOWN)

lemma PGROUNDDOWN_mono: "a \<le> b \<Longrightarrow> PGROUNDDOWN a \<le> PGROUNDDOWN b"
  by (simp add: word_le_nat_alt unat_PGROUNDDOWN div_le_mono)

lemma PGROUNDUP_eq_DOWN: "PGROUNDUP a = PGROUNDDOWN (a + 4095)"
  by (simp add: PGROUNDUP_def PGROUNDDOWN_def PGSIZE_def add.commute)

lemma unat_PGROUNDUP:
  assumes "unat a + 4095 < 2 ^ 64"
  shows "unat (PGROUNDUP a) = 4096 * ((unat a + 4095) div 4096)"
proof -
  have "unat (a + 4095) = unat a + 4095"
    using assms by (simp add: unat_word_ariths)
  then show ?thesis by (simp add: PGROUNDUP_eq_DOWN unat_PGROUNDDOWN)
qed

section \<open>Page-table entries\<close>

lemma page_aligned_PTE2PA [simp]: "page_aligned (PTE2PA e)"
  unfolding page_aligned_iff_bits
  by (rule bit_word_eqI) (auto simp: PTE2PA_def bit_simps)

lemma PTE2PA_PA2PTE:
  assumes "page_aligned pa" "unat f < 1024"
  shows "PTE2PA (PA2PTE pa OR f) = pa"
proof (rule bit_word_eqI)
  fix k assume k: "k < LENGTH(64)"
  show "bit (PTE2PA (PA2PTE pa OR f)) k = bit pa k"
  proof (cases "k < 12")
    case True
    then show ?thesis
      using page_aligned_not_bit [OF assms(1)] by (simp add: PTE2PA_def bit_simps)
  next
    case False
    then have "\<not> bit f (k - 2)" using not_bit_ge [of f 10 "k - 2"] assms(2) by simp
    then show ?thesis
      using False k by (auto simp: PTE2PA_def PA2PTE_def bit_simps)
  qed
qed

lemma PTE_FLAGS_PA2PTE:
  assumes "unat f < 1024"
  shows "PTE_FLAGS (PA2PTE pa OR f) = f"
proof (rule bit_word_eqI)
  fix k assume k: "k < LENGTH(64)"
  have m: "(0x3FF :: u64) = mask 10" by (simp add: mask_eq_exp_minus_1)
  show "bit (PTE_FLAGS (PA2PTE pa OR f)) k = bit f k"
  proof (cases "k < 10")
    case True
    then show ?thesis using k by (auto simp: PTE_FLAGS_def m PA2PTE_def bit_simps)
  next
    case False
    then have "\<not> bit f k" using not_bit_ge [of f 10 k] assms by simp
    then show ?thesis using False by (simp add: PTE_FLAGS_def m bit_simps)
  qed
qed

lemma bit_PTE_V [simp]: "e AND PTE_V = 0 \<longleftrightarrow> \<not> bit e 0"
  by (simp add: PTE_V_def and_one_eq odd_iff_mod_2_eq_one bit_0)

lemma unat_PX: "unat (PX l va) = unat va div 2 ^ (12 + 9 * l) mod 512"
proof -
  have m: "(0x1FF :: u64) = mask 9" by (simp add: mask_eq_exp_minus_1)
  have t: "take_bit n (unat va) = unat va" if "64 \<le> n" for n
  proof (rule take_bit_nat_eq_self)
    have "unat va < 2 ^ 64" using unsigned_less [where ?'b = 64 and w = va] by simp
    also have "(2::nat) ^ 64 \<le> 2 ^ n" using that by (intro power_increasing) auto
    finally show "unat va < 2 ^ n" .
  qed
  have "unat (PX l va) = take_bit 9 (drop_bit (12 + 9 * l) (unat va))"
    by (simp only: PX_def m take_bit_eq_mask [symmetric] unsigned_take_bit_eq
        unsigned_drop_bit_eq) (simp add: take_bit_drop_bit min_def t)
  then show ?thesis by (simp add: take_bit_eq_mod drop_bit_eq_div)
qed

lemma PX_less [simp]: "unat (PX l va) < 512"
  by (simp add: unat_PX)

lemma PX_inj:
  assumes "va < MAXVA" "va' < MAXVA"
    and "PX 0 va = PX 0 va'" "PX 1 va = PX 1 va'" "PX 2 va = PX 2 va'"
  shows "pn va = pn va'"
proof -
  have M: "unat MAXVA = 274877906944" by (simp add: MAXVA_def)
  have b: "unat va < 274877906944" "unat va' < 274877906944"
    using assms(1,2) M by (simp_all add: word_less_nat_alt)
  have "unat (PX i va) = unat (PX i va')" if "i < 3" for i
    using that assms(3-5) by (auto simp: numeral_eq_Suc less_Suc_eq)
  from this [of 0] this [of 1] this [of 2]
  have e0: "unat va div 4096 mod 512 = unat va' div 4096 mod 512"
    and e1: "unat va div 4096 div 512 mod 512 = unat va' div 4096 div 512 mod 512"
    and e2: "unat va div 4096 div 512 div 512 mod 512 = unat va' div 4096 div 512 div 512 mod 512"
    by (simp_all add: unat_PX div_mult2_eq [symmetric])
  have "y = y mod 512 + 512 * (y div 512 mod 512 + 512 * (y div 512 div 512 mod 512))"
    if "y < 67108864" for y :: nat
  proof -
    have "y div 512 div 512 < 512" using that by (simp add: div_mult2_eq [symmetric])
    then show ?thesis by simp
  qed
  from this [of "unat va div 4096"] this [of "unat va' div 4096"]
  have "unat va div 4096 = unat va' div 4096" using b by (simp add: e0 e1 e2 less_mult_imp_div_less)
  then show ?thesis by (simp add: pn_eq_iff)
qed

lemma PX_cong: "pn va = pn va' \<Longrightarrow> PX l va = PX l va'"
proof -
  assume "pn va = pn va'"
  then have "drop_bit (9 * l) (drop_bit 12 va) = drop_bit (9 * l) (drop_bit 12 va')"
    by (simp add: pn_def)
  then show ?thesis by (simp add: PX_def add.commute)
qed

end
