(* ===== verification/Cstring.thy ===== *)
theory Cstring
  imports Riscv
begin

text \<open>
  The kernel's memory and string routines (\<^verbatim>\<open>kernel/string.c\<close>), loop by loop.
  \<open>memset\<close>, \<open>memcmp\<close> and \<open>memmove\<close> work on byte memory; the string routines read
  their source through a view \<open>nat \<Rightarrow> byte\<close> (the bytes from the pointer on) and update a
  destination array given as a list.  The lemmas give each routine its loop-free meaning;
  \<open>memmove\<close> is correct for overlapping regions too.
\<close>

section \<open>Definitions\<close>

function memset_loop :: "memory \<Rightarrow> addr \<Rightarrow> byte \<Rightarrow> nat \<Rightarrow> nat \<Rightarrow> memory" where
  "memset_loop cdst dst c i n =
     (if i < n then memset_loop (cdst(dst + of_nat i := c)) dst c (Suc i) n else cdst)"
  by pat_completeness auto
termination
  by (relation "measure (\<lambda>(m, d, c, i, n). n - i)") auto

definition memset :: "memory \<Rightarrow> addr \<Rightarrow> u32 \<Rightarrow> u32 \<Rightarrow> memory" where
  "memset m dst c n = memset_loop m dst (ucast c) 0 (unat n)"

primrec memcmp_loop :: "memory \<Rightarrow> addr \<Rightarrow> addr \<Rightarrow> nat \<Rightarrow> int" where
  "memcmp_loop m s1 s2 0 = 0"
| "memcmp_loop m s1 s2 (Suc n) =
     (if m s1 \<noteq> m s2 then uint (m s1) - uint (m s2)
      else memcmp_loop m (s1 + 1) (s2 + 1) n)"

definition memcmp :: "memory \<Rightarrow> addr \<Rightarrow> addr \<Rightarrow> u32 \<Rightarrow> int" where
  "memcmp m v1 v2 n = memcmp_loop m v1 v2 (unat n)"

primrec memmove_up :: "nat \<Rightarrow> memory \<Rightarrow> addr \<Rightarrow> addr \<Rightarrow> memory" where
  "memmove_up 0 m d s = m"
| "memmove_up (Suc n) m d s = memmove_up n (m(d := m s)) (d + 1) (s + 1)"

primrec memmove_down :: "nat \<Rightarrow> memory \<Rightarrow> addr \<Rightarrow> addr \<Rightarrow> memory" where
  "memmove_down 0 m d s = m"
| "memmove_down (Suc n) m d s = memmove_down n (m(d - 1 := m (s - 1))) (d - 1) (s - 1)"

definition memmove :: "memory \<Rightarrow> addr \<Rightarrow> addr \<Rightarrow> u32 \<Rightarrow> memory" where
  "memmove m dst src n =
     (if n = 0 then m
      else if src < dst \<and> dst < src + ucast n
      then memmove_down (unat n) m (dst + ucast n) (src + ucast n)
      else memmove_up (unat n) m dst src)"

definition memcpy :: "memory \<Rightarrow> addr \<Rightarrow> addr \<Rightarrow> u32 \<Rightarrow> memory" where
  "memcpy m dst src n = memmove m dst src n"

primrec strncmp_loop :: "(nat \<Rightarrow> byte) \<Rightarrow> (nat \<Rightarrow> byte) \<Rightarrow> nat \<Rightarrow> nat \<Rightarrow> int" where
  "strncmp_loop p q i 0 = 0"
| "strncmp_loop p q i (Suc n) =
     (if p i \<noteq> 0 \<and> p i = q i then strncmp_loop p q (Suc i) n
      else uint (p i) - uint (q i))"

definition strncmp :: "(nat \<Rightarrow> byte) \<Rightarrow> (nat \<Rightarrow> byte) \<Rightarrow> nat \<Rightarrow> int" where
  "strncmp p q n = strncmp_loop p q 0 n"

primrec zero_fill :: "byte list \<Rightarrow> nat \<Rightarrow> nat \<Rightarrow> byte list" where
  "zero_fill s i 0 = s"
| "zero_fill s i (Suc n) = zero_fill (s[i := 0]) (Suc i) n"

primrec strncpy_loop :: "byte list \<Rightarrow> (nat \<Rightarrow> byte) \<Rightarrow> nat \<Rightarrow> nat \<Rightarrow> byte list" where
  "strncpy_loop s t i 0 = s"
| "strncpy_loop s t i (Suc n) =
     (if t i \<noteq> 0 then strncpy_loop (s[i := t i]) t (Suc i) n
      else zero_fill (s[i := t i]) (Suc i) n)"

definition strncpy :: "byte list \<Rightarrow> (nat \<Rightarrow> byte) \<Rightarrow> int \<Rightarrow> byte list" where
  "strncpy s t n = strncpy_loop s t 0 (nat n)"

text \<open>The last argument counts the decremented \<open>n\<close> of \<^verbatim>\<open>while(--n > 0 && ...)\<close>.\<close>

primrec safestrcpy_loop :: "byte list \<Rightarrow> (nat \<Rightarrow> byte) \<Rightarrow> nat \<Rightarrow> nat \<Rightarrow> byte list" where
  "safestrcpy_loop s t i 0 = s[i := 0]"
| "safestrcpy_loop s t i (Suc n) =
     (if t i \<noteq> 0 then safestrcpy_loop (s[i := t i]) t (Suc i) n
      else (s[i := t i])[Suc i := 0])"

definition safestrcpy :: "byte list \<Rightarrow> (nat \<Rightarrow> byte) \<Rightarrow> int \<Rightarrow> byte list" where
  "safestrcpy s t n = (if n \<le> 0 then s else safestrcpy_loop s t 0 (nat n - 1))"

text \<open>\<open>strlen\<close> of an array; the scan stops at the first NUL (or at the end of the array,
  past which the C code would read out of bounds).\<close>

function strlen_loop :: "byte list \<Rightarrow> nat \<Rightarrow> nat" where
  "strlen_loop s n = (if n < length s \<and> s ! n \<noteq> 0 then strlen_loop s (Suc n) else n)"
  by pat_completeness auto
termination
  by (relation "measure (\<lambda>(s, n). length s - n)") auto

definition strlen :: "byte list \<Rightarrow> nat" where
  "strlen s = strlen_loop s 0"

text \<open>The view of an array as a C pointer, and the string an array holds.\<close>

definition cptr :: "byte list \<Rightarrow> nat \<Rightarrow> byte" where
  "cptr s i = (if i < length s then s ! i else 0)"

definition cstr :: "byte list \<Rightarrow> byte list" where
  "cstr s = takeWhile (\<lambda>b. b \<noteq> 0) s"

declare memset_loop.simps [simp del] strlen_loop.simps [simp del]

section \<open>memset\<close>

lemma memset_loop_spec:
  assumes "n \<le> 2 ^ 64"
  shows "memset_loop m d c i n =
     (\<lambda>x. if i \<le> unat (x - d) \<and> unat (x - d) < n then c else m x)"
  using assms
proof (induction m d c i n rule: memset_loop.induct)
  case (1 m d c i n)
  show ?case
  proof (cases "i < n")
    case True
    then have eq: "x = d + of_nat i \<longleftrightarrow> unat (x - d) = i" for x
      using "1.prems" by (intro addr_offset_iff) simp
    have "memset_loop m d c i n = memset_loop (m(d + of_nat i := c)) d c (Suc i) n"
      using True by (simp add: memset_loop.simps [of m d c i n])
    also note "1.IH" [OF True "1.prems"]
    finally show ?thesis using True by (auto simp: fun_eq_iff Suc_le_eq eq)
  next
    case False
    then have "memset_loop m d c i n = m" by (simp add: memset_loop.simps [of m d c i n])
    then show ?thesis using False by (auto simp: fun_eq_iff)
  qed
qed

lemma memset_spec [kernel_simps]:
  "memset m d c n = (\<lambda>x. if unat (x - d) < unat n then ucast c else m x)"
proof -
  have "unat n < 2 ^ 32" using unsigned_less [where ?'b = 32 and w = n] by simp
  then show ?thesis unfolding memset_def by (subst memset_loop_spec) auto
qed

lemma memset_page:
  assumes "page_aligned p"
  shows "memset m p c 4096 = (\<lambda>x. if pn x = pn p then ucast c else m x)"
  using assms by (simp add: memset_spec in_page_iff)

section \<open>memcmp\<close>

lemma memcmp_loop_zero:
  "memcmp_loop m a b n = 0 \<longleftrightarrow> read_bytes m a n = read_bytes m b n"
proof (induction n arbitrary: a b)
  case 0
  then show ?case by (simp add: read_bytes_def)
next
  case (Suc n)
  show ?case using Suc by (simp add: read_bytes_Suc word_uint_eq_iff)
qed

section \<open>memmove\<close>

lemma write_bytes_Cons:
  assumes "length bs < 2 ^ 64"
  shows "write_bytes (m(d := b)) (d + 1) bs = write_bytes m d (b # bs)"
proof
  fix x
  show "write_bytes (m(d := b)) (d + 1) bs x = write_bytes m d (b # bs) x"
  proof (cases "x = d")
    case True
    then show ?thesis using assms by (simp add: write_bytes_def unsigned_minus_1_eq_mask mask_eq_exp_minus_1)
  next
    case False
    then have nz: "x - d \<noteq> 0" by simp
    then have "unat (x - d - 1) = unat (x - d) - 1" by (rule unat_minus_one)
    moreover have "0 < unat (x - d)" using nz by (simp add: unat_gt_0)
    moreover have "x - d - 1 = x - (d + 1)" by simp
    ultimately have "unat (x - d) = Suc (unat (x - (d + 1)))" by simp
    then show ?thesis using False by (simp add: write_bytes_def)
  qed
qed

lemma write_bytes_snoc:
  assumes "length bs < 2 ^ 64"
  shows "write_bytes (m(d + of_nat (length bs) := b)) d bs = write_bytes m d (bs @ [b])"
proof
  fix x
  have "x = d + of_nat (length bs) \<longleftrightarrow> unat (x - d) = length bs"
    using assms by (rule addr_offset_iff)
  then show "write_bytes (m(d + of_nat (length bs) := b)) d bs x = write_bytes m d (bs @ [b]) x"
    by (auto simp: write_bytes_def nth_append)
qed

lemma memmove_up_spec:
  assumes "n < 2 ^ 64" "d = s \<or> n \<le> unat (d - s)"
  shows "memmove_up n m d s = write_bytes m d (read_bytes m s n)"
  using assms
proof (induction n arbitrary: m d s)
  case 0
  then show ?case by (simp add: write_bytes_def fun_eq_iff)
next
  case (Suc n)
  let ?m = "m(d := m s)"
  have "d + 1 = s + 1 \<or> n \<le> unat ((d + 1) - (s + 1))"
    using Suc.prems(2) by auto
  then have ih: "memmove_up n ?m (d + 1) (s + 1) =
      write_bytes ?m (d + 1) (read_bytes ?m (s + 1) n)"
    using Suc.prems(1) by (intro Suc.IH) auto
  have same: "read_bytes ?m (s + 1) n = read_bytes m (s + 1) n"
  proof (rule read_bytes_cong)
    fix i assume i: "i < n"
    have "s + of_nat (Suc i) = d \<longleftrightarrow> unat (d - s) = Suc i"
      using addr_offset_iff [of "Suc i" d s] i Suc.prems(1) by auto
    moreover have "s + 1 + of_nat i = s + of_nat (Suc i)" by (simp add: algebra_simps)
    ultimately show "?m (s + 1 + of_nat i) = m (s + 1 + of_nat i)"
      using Suc.prems(2) i by auto
  qed
  show ?case
    using Suc.prems(1) by (simp add: ih same write_bytes_Cons read_bytes_Suc del: fun_upd_apply)
qed

lemma memmove_down_spec:
  assumes "n < 2 ^ 64" "d = s \<or> n \<le> unat (s - d)"
  shows "memmove_down n m (d + of_nat n) (s + of_nat n) = write_bytes m d (read_bytes m s n)"
  using assms
proof (induction n arbitrary: m)
  case 0
  then show ?case by (simp add: write_bytes_def fun_eq_iff)
next
  case (Suc n)
  let ?m = "m(d + of_nat n := m (s + of_nat n))"
  have "memmove_down (Suc n) m (d + of_nat (Suc n)) (s + of_nat (Suc n)) =
      memmove_down n ?m (d + of_nat n) (s + of_nat n)"
    by (simp add: algebra_simps)
  also have ih: "\<dots> = write_bytes ?m d (read_bytes ?m s n)"
    using Suc.prems by (intro Suc.IH) auto
  have same: "read_bytes ?m s n = read_bytes m s n"
  proof (rule read_bytes_cong)
    fix i assume i: "i < n"
    have "s + of_nat i = d + of_nat n \<longleftrightarrow> s = d + of_nat (n - i)"
      using i by (auto simp: of_nat_diff algebra_simps)
    also have "\<dots> \<longleftrightarrow> unat (s - d) = n - i"
      using Suc.prems(1) by (intro addr_offset_iff) simp
    finally show "?m (s + of_nat i) = m (s + of_nat i)"
      using Suc.prems(2) i by auto
  qed
  note ih [unfolded same]
  also have "write_bytes ?m d (read_bytes m s n) = write_bytes m d (read_bytes m s (Suc n))"
    using write_bytes_snoc [of "read_bytes m s n" m d "m (s + of_nat n)"] Suc.prems(1)
    by (simp add: read_bytes_snoc)
  finally show ?case .
qed

text \<open>Neither region may wrap around the end of the address space.\<close>

lemma memmove_spec:
  assumes "unat src + unat n \<le> 2 ^ 64" "unat dst + unat n \<le> 2 ^ 64"
  shows "memmove m dst src n = write_bytes m dst (read_bytes m src (unat n))"
proof -
  have n32: "unat n < 4294967296" using unsigned_less [where ?'b = 32 and w = n] by simp
  have ofn: "of_nat (unat n) = (ucast n :: addr)" by simp
  have un: "unat (ucast n :: addr) = unat n"
    using n32 by (simp add: unsigned_ucast_eq take_bit_nat_eq_self)
  have lts: "unat src < 18446744073709551616" "unat dst < 18446744073709551616"
    using unsigned_less [where ?'b = 64 and w = src] unsigned_less [where ?'b = 64 and w = dst]
    by simp_all
  have sum: "unat (src + ucast n) = (unat src + unat n) mod 18446744073709551616"
    by (simp add: unat_word_ariths un)
  show ?thesis
  proof (cases "src < dst \<and> dst < src + ucast n")
    case True
    then have lt: "unat src < unat dst" and lt2: "unat dst < unat (src + ucast n)"
      by (simp_all add: word_less_nat_alt)
    have "unat (src - dst) = unat src + 18446744073709551616 - unat dst"
      using lt by (simp add: unat_sub_if')
    moreover have "unat dst < unat src + unat n"
      using lt2 unfolding sum by (meson le_less_trans less_le_trans mod_less_eq_dividend not_less)
    ultimately have "unat n \<le> unat (src - dst)" using n32 lts by linarith
    moreover have "n \<noteq> 0" using True by auto
    ultimately show ?thesis
      using memmove_down_spec [of "unat n" dst src m] True n32
      by (simp only: memmove_def ofn if_False if_True simp_thms) simp
  next
    case False
    then have nl: "\<not> (unat src < unat dst \<and> unat dst < unat (src + ucast n))"
      by (simp add: word_less_nat_alt)
    consider "unat dst = unat src" | "unat dst < unat src" | "unat src < unat dst" by linarith
    then have "dst = src \<or> unat n \<le> unat (dst - src)"
    proof cases
      case 1
      then show ?thesis by (simp add: word_unat_eq_iff)
    next
      case 2
      then have "unat (dst - src) = unat dst + 18446744073709551616 - unat src"
        by (simp add: unat_sub_if')
      then show ?thesis using assms(1) by (simp add: le_diff_conv2 [symmetric]) linarith
    next
      case 3
      then have "unat (src + ucast n) \<le> unat dst" using nl by simp
      moreover have "unat src + unat n < 18446744073709551616"
        using 3 assms(2) lts by simp
      ultimately have "unat src + unat n \<le> unat dst" by (simp add: sum)
      moreover have "unat (dst - src) = unat dst - unat src"
        using 3 by (simp add: unat_sub_if')
      ultimately show ?thesis by linarith
    qed
    then have "memmove_up (unat n) m dst src = write_bytes m dst (read_bytes m src (unat n))"
      using n32 by (intro memmove_up_spec) simp_all
    moreover have "memmove m dst src n = (if n = 0 then m else memmove_up (unat n) m dst src)"
      unfolding memmove_def using False by (simp only: if_False)
    ultimately show ?thesis by (cases "n = 0") simp_all
  qed
qed

section \<open>Strings\<close>

lemma strlen_loop_ge: "n \<le> strlen_loop s n"
proof (induction s n rule: strlen_loop.induct)
  case (1 s n)
  then show ?case by (subst strlen_loop.simps) (auto dest: Suc_leD)
qed

lemma strlen_loop_spec: "n \<le> length s \<Longrightarrow> strlen_loop s n = n + length (cstr (drop n s))"
proof (induction s n rule: strlen_loop.induct)
  case (1 s n)
  show ?case
  proof (cases "n < length s \<and> s ! n \<noteq> 0")
    case True
    then have "drop n s = s ! n # drop (Suc n) s" by (simp add: Cons_nth_drop_Suc)
    then show ?thesis using True "1.IH"
      by (simp add: strlen_loop.simps [of s n] cstr_def)
  next
    case False
    then have "cstr (drop n s) = []"
      using "1.prems" by (cases "drop n s") (auto simp: cstr_def drop_eq_Nil nth_via_drop)
    moreover have "strlen_loop s n = n" using False by (subst strlen_loop.simps) auto
    ultimately show ?thesis by simp
  qed
qed

lemma strlen_spec [kernel_simps]: "strlen s = length (cstr s)"
  using strlen_loop_spec [of 0 s] by (simp add: strlen_def)

text \<open>Two names are equal to \<open>strncmp\<close> when they agree up to a NUL or up to \<open>n\<close>.\<close>

lemma strncmp_loop_zero:
  "strncmp_loop p q i n = 0 \<longleftrightarrow>
     (\<forall>j<n. (\<forall>k<j. p (i + k) \<noteq> 0) \<longrightarrow> p (i + j) = q (i + j))"
proof (induction n arbitrary: i)
  case 0
  then show ?case by simp
next
  case (Suc n)
  have *: "(\<forall>j<Suc n. P j) \<longleftrightarrow> P 0 \<and> (\<forall>j<n. P (Suc j))" for P :: "nat \<Rightarrow> bool"
    by (auto simp: less_Suc_eq_0_disj)
  have **: "(\<forall>k<Suc j. Q k) \<longleftrightarrow> Q 0 \<and> (\<forall>k<j. Q (Suc k))" for Q :: "nat \<Rightarrow> bool" and j
    by (auto simp: less_Suc_eq_0_disj)
  show ?case
    by (auto simp: Suc * ** word_uint_eq_iff)
qed

lemma length_zero_fill [simp]: "length (zero_fill s i n) = length s"
  by (induction n arbitrary: s i) auto

lemma length_strncpy [simp]: "length (strncpy s t n) = length s"
proof -
  have "length (strncpy_loop s t i k) = length s" for i k
    by (induction k arbitrary: s i) auto
  then show ?thesis by (simp add: strncpy_def)
qed

lemma length_safestrcpy [simp]: "length (safestrcpy s t n) = length s"
proof -
  have "length (safestrcpy_loop s t i k) = length s" for i k
    by (induction k arbitrary: s i) auto
  then show ?thesis by (simp add: safestrcpy_def)
qed

lemma nth_zero_fill:
  "j < length s \<Longrightarrow> zero_fill s i n ! j = (if i \<le> j \<and> j < i + n then 0 else s ! j)"
  by (induction n arbitrary: s i) (auto simp: nth_list_update)

lemma nth_strncpy_loop:
  assumes "i + n \<le> length s" "j < length s"
  shows "strncpy_loop s t i n ! j =
     (if i \<le> j \<and> j < i + n then (if \<forall>k. i \<le> k \<and> k < j \<longrightarrow> t k \<noteq> 0 then t j else 0) else s ! j)"
  using assms
proof (induction n arbitrary: s i)
  case 0
  then show ?case by auto
next
  case (Suc n)
  show ?case
  proof (cases "t i = 0")
    case True
    then show ?thesis
      using Suc.prems by (auto simp: nth_zero_fill nth_list_update Suc_le_eq)
  next
    case False
    have "strncpy_loop s t i (Suc n) ! j = strncpy_loop (s[i := t i]) t (Suc i) n ! j"
      using False by simp
    also have "\<dots> = (if Suc i \<le> j \<and> j < Suc i + n
        then (if \<forall>k. Suc i \<le> k \<and> k < j \<longrightarrow> t k \<noteq> 0 then t j else 0) else s[i := t i] ! j)"
      using Suc.prems by (intro Suc.IH) auto
    finally show ?thesis
      using False Suc.prems by (auto simp: nth_list_update Suc_le_eq) (metis le_neq_implies_less)+
  qed
qed

text \<open>A copy made by \<open>strncpy\<close> is equal to its source for \<open>strncmp\<close>.\<close>

lemma strncmp_strncpy:
  assumes "n = length s"
  shows "strncmp t (cptr (strncpy s t (int n))) n = 0"
  using assms
  by (auto simp: strncmp_def strncpy_def strncmp_loop_zero cptr_def nth_strncpy_loop
      simp del: length_strncpy)
    (use length_strncpy [of s t "int n"] in \<open>simp_all add: strncpy_def\<close>)

section \<open>Properties\<close>

text \<open>C15: \<^verbatim>\<open>memmove\<close> copies the bytes that the source held before the call, for regions
  that overlap in either direction as well, and writes nothing outside the destination.  The
  regions do not run past the end of the address space.\<close>

theorem memmove_overlap:
  assumes "unat src + unat n \<le> 2 ^ 64" "unat dst + unat n \<le> 2 ^ 64"
  shows "(\<forall>i<unat n. memmove m dst src n (dst + of_nat i) = m (src + of_nat i)) \<and>
    (\<forall>x. unat n \<le> unat (x - dst) \<longrightarrow> memmove m dst src n x = m x)"
proof -
  have n: "unat n < 4294967296" using unsigned_less [where ?'b = 32 and w = n] by simp
  show ?thesis
    using n by (simp add: memmove_spec [OF assms] write_bytes_def read_bytes_def unat_of_nat)
qed

theorem memmove_overlap_witness:
  "memmove (\<lambda>a. ucast a) 0x1004 0x1000 8 (0x1004 + of_nat 5) = (5 :: byte)"
proof -
  have "\<forall>i<unat (8 :: u32). memmove (\<lambda>a. ucast a) 0x1004 0x1000 8 (0x1004 + of_nat i) =
      (ucast (0x1000 + of_nat i :: addr) :: byte)"
    using memmove_overlap [of "0x1000" 8 "0x1004" "\<lambda>a. ucast a"] by simp
  from this [rule_format, of 5] show ?thesis by simp
qed

text \<open>C16: the name that \<^verbatim>\<open>strncpy\<close> leaves in a fixed-size field compares equal to its source
  under \<^verbatim>\<open>strncmp\<close> of that size, whether or not the source fits: this is what directory
  lookup after \<^verbatim>\<open>dirlink\<close> relies on.\<close>

theorem strncpy_strncmp_equal:
  "strncmp t (cptr (strncpy s t (int (length s)))) (length s) = 0"
  by (rule strncmp_strncpy) simp

end
