(* ===== verification/Kalloc.thy ===== *)
theory Kalloc
  imports Cstring
begin

text \<open>
  The physical page allocator (\<^verbatim>\<open>kernel/kalloc.c\<close>).  The free list is threaded
  through the free pages themselves: the first eight bytes of a free page hold the address
  of the next one.  The model keeps that list in byte memory; \<open>flist\<close> relates it to the
  list of free pages, and the interface \<open>page_allocator\<close> states what the rest of the
  kernel relies on.

  \<^verbatim>\<open>kmem.lock\<close> brackets every access to the list, so each operation is one atomic step.
  The linker symbol \<^verbatim>\<open>end\<close> is the field \<open>kend\<close>, which no operation writes.
\<close>

section \<open>Definitions\<close>

record kmem =
  mem :: memory
  freelist :: addr
  kend :: addr

definition kfree :: "addr \<Rightarrow> 'a kmem_scheme \<Rightarrow> 'a kmem_scheme res" where
  "kfree pa s =
     (if pa mod PGSIZE \<noteq> 0 \<or> pa < kend s \<or> PHYSTOP \<le> pa then Panic ''kfree''
      else
        let s = s\<lparr>mem := memset (mem s) pa 1 4096\<rparr>;
            s = s\<lparr>mem := store64 (mem s) pa (freelist s)\<rparr>
        in Ret (s\<lparr>freelist := pa\<rparr>))"

definition kalloc :: "'a kmem_scheme \<Rightarrow> addr \<times> 'a kmem_scheme" where
  "kalloc s =
     (let r = freelist s;
          s = (if r \<noteq> 0 then s\<lparr>freelist := load64 (mem s) r\<rparr> else s);
          s = (if r \<noteq> 0 then s\<lparr>mem := memset (mem s) r 5 4096\<rparr> else s)
      in (r, s))"

text \<open>The loop of \<^verbatim>\<open>freerange\<close>; a pointer past the end of the address space does not
  arise, so the bound is read without wrap-around.\<close>

function freerange_loop :: "addr \<Rightarrow> addr \<Rightarrow> 'a kmem_scheme \<Rightarrow> 'a kmem_scheme res" where
  "freerange_loop p pa_end s =
     (if unat p + 4096 \<le> unat pa_end
      then rbind (kfree p s) (\<lambda>s. freerange_loop (p + PGSIZE) pa_end s)
      else Ret s)"
  by pat_completeness auto
termination
proof (relation "measure (\<lambda>(p, e, s). unat e - unat p)", goal_cases)
  case 1
  then show ?case by simp
next
  case (2 p e s s')
  have "unat e < 18446744073709551616" using unsigned_less [where ?'b = 64 and w = e] by simp
  then have "unat (p + PGSIZE) = unat p + 4096"
    using 2 by (simp add: unat_word_ariths)
  then show ?case using 2 by simp
qed

declare freerange_loop.simps [simp del]

definition freerange :: "addr \<Rightarrow> addr \<Rightarrow> 'a kmem_scheme \<Rightarrow> 'a kmem_scheme res" where
  "freerange pa_start pa_end s = freerange_loop (PGROUNDUP pa_start) pa_end s"

definition kinit :: "'a kmem_scheme \<Rightarrow> 'a kmem_scheme res" where
  "kinit s = freerange (kend s) PHYSTOP s"

section \<open>The free list in memory\<close>

primrec flist :: "memory \<Rightarrow> addr \<Rightarrow> addr list \<Rightarrow> bool" where
  "flist m p [] \<longleftrightarrow> p = 0"
| "flist m p (a # as) \<longleftrightarrow> p = a \<and> a \<noteq> 0 \<and> flist m (load64 m a) as"

text \<open>A page the allocator manages.\<close>

definition kpage :: "'a kmem_scheme \<Rightarrow> addr \<Rightarrow> bool" where
  "kpage s a \<longleftrightarrow> page_aligned a \<and> kend s \<le> a \<and> a < PHYSTOP"

definition kinv :: "'a kmem_scheme \<Rightarrow> addr list \<Rightarrow> bool" where
  "kinv s xs \<longleftrightarrow> flist (mem s) (freelist s) xs \<and> distinct xs \<and> (\<forall>a \<in> set xs. kpage s a) \<and>
     0 < kend s"

section \<open>Memory at page granularity\<close>

text \<open>Two memories agree off the pages of a set.\<close>

definition same_off :: "u64 set \<Rightarrow> memory \<Rightarrow> memory \<Rightarrow> bool" where
  "same_off P m m' \<longleftrightarrow> (\<forall>x. pn x \<notin> P \<longrightarrow> m' x = m x)"

lemma same_off_refl [simp]: "same_off P m m"
  by (simp add: same_off_def)

lemma same_off_mono: "same_off P m m' \<Longrightarrow> P \<subseteq> Q \<Longrightarrow> same_off Q m m'"
  by (auto simp: same_off_def)

lemma same_off_trans: "same_off P m m' \<Longrightarrow> same_off P m' m'' \<Longrightarrow> same_off P m m''"
  by (simp add: same_off_def)

lemma same_off_read:
  assumes "same_off P m m'" "page_aligned p" "pn p \<notin> P" "k + n \<le> 4096"
  shows "read_bytes m' (p + of_nat k) n = read_bytes m (p + of_nat k) n"
proof (rule read_bytes_cong)
  fix i assume "i < n"
  then have "pn (p + of_nat (k + i)) = pn p" using assms by (intro pn_add) auto
  then have "m' (p + of_nat (k + i)) = m (p + of_nat (k + i))"
    using assms(1,3) by (simp add: same_off_def)
  then show "m' (p + of_nat k + of_nat i) = m (p + of_nat k + of_nat i)"
    by (simp add: add.assoc)
qed

lemma same_off_load64:
  assumes "same_off P m m'" "page_aligned p" "pn p \<notin> P" "i < 512"
  shows "load64 m' (p + of_nat (8 * i)) = load64 m (p + of_nat (8 * i))"
  using same_off_read [of P m m' p "8 * i" 8] assms by (simp add: load64_def)

lemma same_off_load64_0:
  assumes "same_off P m m'" "page_aligned p" "pn p \<notin> P"
  shows "load64 m' p = load64 m p"
  using same_off_load64 [OF assms, of 0] by simp

lemma same_off_memset:
  assumes "page_aligned p"
  shows "same_off {pn p} m (memset m p c 4096)"
  using assms by (simp add: same_off_def memset_page)

lemma same_off_write_bytes:
  assumes "page_aligned p" "k + length bs \<le> 4096"
  shows "same_off {pn p} m (write_bytes m (p + of_nat k) bs)"
  unfolding same_off_def
proof (intro allI impI)
  fix x assume x: "pn x \<notin> {pn p}"
  have "\<not> unat (x - (p + of_nat k)) < length bs"
  proof
    assume lt: "unat (x - (p + of_nat k)) < length bs"
    define j where "j = unat (x - (p + of_nat k))"
    have "x = p + of_nat (k + j)" by (simp add: j_def)
    moreover have "pn (p + of_nat (k + j)) = pn p"
      using lt assms by (intro pn_add) (auto simp: j_def)
    ultimately show False using x by simp
  qed
  then show "write_bytes m (p + of_nat k) bs x = m x" by (simp add: write_bytes_def)
qed

lemma same_off_store64:
  assumes "page_aligned p" "i < 512"
  shows "same_off {pn p} m (store64 m (p + of_nat (8 * i)) v)"
  unfolding store64_def using assms by (intro same_off_write_bytes) auto

lemma same_off_store64_0: "page_aligned p \<Longrightarrow> same_off {pn p} m (store64 m p v)"
  using same_off_store64 [of p 0 m v] by simp

lemma flist_cong:
  assumes "flist m p xs" "same_off P m m'" "\<forall>a \<in> set xs. page_aligned a \<and> pn a \<notin> P"
  shows "flist m' p xs"
  using assms
proof (induction xs arbitrary: p)
  case Nil
  then show ?case by simp
next
  case (Cons a as)
  then show ?case using same_off_load64_0 [of P m m' a] by auto
qed

section \<open>Allocation and release\<close>

lemma kpage_update [simp]:
  "kpage (s\<lparr>mem := m\<rparr>) a = kpage s a" "kpage (s\<lparr>freelist := f\<rparr>) a = kpage s a"
  by (simp_all add: kpage_def)

lemma kinv_cong:
  assumes "kinv s xs" "same_off P (mem s) m'" "\<forall>a \<in> set xs. pn a \<notin> P"
  shows "kinv (s\<lparr>mem := m'\<rparr>) xs"
  using assms flist_cong [of "mem s" "freelist s" xs P m'] by (auto simp: kinv_def kpage_def)

lemma kalloc_Nil: "kinv s [] \<Longrightarrow> kalloc s = (0, s)"
  by (simp add: kinv_def kalloc_def)

lemma kalloc_Cons:
  assumes "kinv s (a # xs)"
  shows "kalloc s =
      (a, s\<lparr>freelist := load64 (mem s) a, mem := memset (mem s) a 5 4096\<rparr>)"
    and "kinv (snd (kalloc s)) xs"
    and "kpage s a" "a \<noteq> 0"
    and "same_off {pn a} (mem s) (mem (snd (kalloc s)))"
proof -
  have a: "freelist s = a" "a \<noteq> 0" "kpage s a" "flist (mem s) (load64 (mem s) a) xs"
    "distinct (a # xs)" "\<forall>b \<in> set xs. kpage s b" "0 < kend s"
    using assms by (auto simp: kinv_def)
  show eq: "kalloc s = (a, s\<lparr>freelist := load64 (mem s) a, mem := memset (mem s) a 5 4096\<rparr>)"
    using a(1,2) by (simp add: kalloc_def)
  have al: "page_aligned a" using a(3) by (simp add: kpage_def)
  show so: "same_off {pn a} (mem s) (mem (snd (kalloc s)))"
    using same_off_memset [OF al] by (simp add: eq)
  have "kinv (s\<lparr>freelist := load64 (mem s) a\<rparr>) xs"
    using a by (auto simp: kinv_def)
  moreover have "\<forall>b \<in> set xs. pn b \<notin> {pn a}"
    using a(5,6) al page_aligned_pn_inj by (auto simp: kpage_def)
  ultimately show "kinv (snd (kalloc s)) xs"
    using kinv_cong [of "s\<lparr>freelist := load64 (mem s) a\<rparr>" xs "{pn a}"] same_off_memset [OF al]
    by (simp add: eq)
  show "kpage s a" "a \<noteq> 0" using a by auto
qed

lemma kfree_ok:
  assumes "kinv s xs" "kpage s pa" "pa \<notin> set xs"
  shows "\<exists>m. kfree pa s = Ret (s\<lparr>mem := m, freelist := pa\<rparr>) \<and>
    same_off {pn pa} (mem s) m \<and> kinv (s\<lparr>mem := m, freelist := pa\<rparr>) (pa # xs)"
proof -
  let ?m = "store64 (memset (mem s) pa 1 4096) pa (freelist s)"
  have al: "page_aligned pa" using assms(2) by (simp add: kpage_def)
  have nz: "pa \<noteq> 0" using assms(1,2) by (auto simp: kinv_def kpage_def not_le not_less)
  have eq: "kfree pa s = Ret (s\<lparr>mem := ?m, freelist := pa\<rparr>)"
    using assms(2) by (auto simp: kfree_def kpage_def page_aligned_def Let_def not_le not_less)
  have so: "same_off {pn pa} (mem s) ?m"
    using same_off_memset [OF al] same_off_store64_0 [OF al] by (rule same_off_trans)
  have "\<forall>b \<in> set xs. page_aligned b \<and> pn b \<notin> {pn pa}"
    using assms al page_aligned_pn_inj by (auto simp: kinv_def kpage_def)
  then have "flist ?m (freelist s) xs"
    using assms(1) so by (auto simp: kinv_def intro: flist_cong)
  then have "kinv (s\<lparr>mem := ?m, freelist := pa\<rparr>) (pa # xs)"
    using assms nz by (auto simp: kinv_def)
  then show ?thesis using eq so by blast
qed

lemma kfree_panics:
  "(\<exists>e. kfree pa s = Panic e) \<longleftrightarrow> \<not> kpage s pa"
  by (auto simp: kfree_def kpage_def page_aligned_def Let_def not_le not_less)

lemma kfree_frame:
  assumes "kfree pa s = Ret s'"
  obtains m where "s' = s\<lparr>mem := m, freelist := pa\<rparr>" "kpage s pa" "same_off {pn pa} (mem s) m"
proof -
  have kp: "kpage s pa" using assms kfree_panics [of pa s] by auto
  then have al: "page_aligned pa" by (simp add: kpage_def)
  have "s' = s\<lparr>mem := store64 (memset (mem s) pa 1 4096) pa (freelist s), freelist := pa\<rparr>"
    using assms by (auto simp: kfree_def Let_def split: if_splits)
  moreover have "same_off {pn pa} (mem s) (store64 (memset (mem s) pa 1 4096) pa (freelist s))"
    using same_off_memset [OF al] same_off_store64_0 [OF al] by (rule same_off_trans)
  ultimately show thesis using that kp by blast
qed

section \<open>The allocator's interface\<close>

text \<open>Repeated allocation, for any allocator.\<close>

primrec alloc_n :: "('s \<Rightarrow> addr \<times> 's) \<Rightarrow> nat \<Rightarrow> 's \<Rightarrow> addr list \<times> 's" where
  "alloc_n alloc 0 s = ([], s)"
| "alloc_n alloc (Suc n) s =
     (let (p, s) = alloc s; (ps, s) = alloc_n alloc n s in (p # ps, s))"

locale page_allocator =
  fixes alloc :: "'s \<Rightarrow> addr \<times> 's"
    and release :: "addr \<Rightarrow> 's \<Rightarrow> 's res"
    and free_pages :: "'s \<Rightarrow> addr set"
    and managed :: "'s \<Rightarrow> addr \<Rightarrow> bool"
    and invar :: "'s \<Rightarrow> bool"
  assumes alloc_empty: "invar s \<Longrightarrow> free_pages s = {} \<Longrightarrow> alloc s = (0, s)"
    and alloc_page: "invar s \<Longrightarrow> free_pages s \<noteq> {} \<Longrightarrow> alloc s = (p, s') \<Longrightarrow>
      p \<in> free_pages s \<and> free_pages s' = free_pages s - {p} \<and> invar s' \<and> managed s' = managed s"
    and release_page: "invar s \<Longrightarrow> managed s p \<Longrightarrow> p \<notin> free_pages s \<Longrightarrow>
      \<exists>s'. release p s = Ret s' \<and> free_pages s' = insert p (free_pages s) \<and> invar s' \<and>
        managed s' = managed s"
    and free_managed: "invar s \<Longrightarrow> p \<in> free_pages s \<Longrightarrow> managed s p \<and> p \<noteq> 0"
    and finite_free: "invar s \<Longrightarrow> finite (free_pages s)"
begin

lemma alloc_null_iff:
  assumes "invar s"
  shows "fst (alloc s) = 0 \<longleftrightarrow> free_pages s = {}"
  using assms alloc_empty alloc_page free_managed by (metis fst_conv prod.collapse)

lemma alloc_release:
  assumes "invar s" "free_pages s \<noteq> {}" "alloc s = (p, s')"
  shows "\<exists>s''. release p s' = Ret s'' \<and> free_pages s'' = free_pages s \<and> invar s''"
proof -
  have p: "p \<in> free_pages s" "free_pages s' = free_pages s - {p}" "invar s'" "managed s' = managed s"
    using alloc_page [OF assms] by auto
  have "managed s' p" using p free_managed [OF assms(1)] by simp
  then obtain s'' where "release p s' = Ret s''" "free_pages s'' = insert p (free_pages s')"
    "invar s''"
    using release_page [of s' p] p by auto
  then show ?thesis using p by auto
qed

lemma alloc_n_distinct:
  assumes "invar s" "n \<le> card (free_pages s)" "alloc_n alloc n s = (ps, s')"
  shows "distinct ps \<and> length ps = n \<and> set ps \<subseteq> free_pages s \<and>
    free_pages s' = free_pages s - set ps \<and> invar s'"
  using assms
proof (induction n arbitrary: s ps s')
  case 0
  then show ?case by simp
next
  case (Suc n)
  obtain p s1 where a: "alloc s = (p, s1)" by fastforce
  obtain qs s2 where b: "alloc_n alloc n s1 = (qs, s2)" by fastforce
  have ps: "ps = p # qs" "s' = s2" using Suc.prems(3) a b by auto
  have ne: "free_pages s \<noteq> {}" using Suc.prems(2) by auto
  have p: "p \<in> free_pages s" "free_pages s1 = free_pages s - {p}" "invar s1"
    using alloc_page [OF Suc.prems(1) ne a] by auto
  have "n \<le> card (free_pages s1)"
    using p Suc.prems(2) finite_free [OF Suc.prems(1)] by simp
  then show ?case using Suc.IH [OF p(3) _ b] p ps by auto
qed

end

text \<open>The kernel's allocator provides the interface.\<close>

definition free_pages :: "'a kmem_scheme \<Rightarrow> addr set" where
  "free_pages s = {a. \<exists>xs. flist (mem s) (freelist s) xs \<and> a \<in> set xs}"

definition kmem_invar :: "'a kmem_scheme \<Rightarrow> bool" where
  "kmem_invar s \<longleftrightarrow> (\<exists>xs. kinv s xs)"

lemma flist_unique: "flist m p xs \<Longrightarrow> flist m p ys \<Longrightarrow> xs = ys"
proof (induction xs arbitrary: p ys)
  case Nil
  then show ?case by (cases ys) auto
next
  case (Cons a as)
  then show ?case by (cases ys) auto
qed

lemma free_pages_kinv: "kinv s xs \<Longrightarrow> free_pages s = set xs"
  by (auto simp: free_pages_def kinv_def dest: flist_unique)

lemma kpage_kalloc: "kpage (snd (kalloc s)) = kpage s"
  by (auto simp: kalloc_def Let_def fun_eq_iff)

interpretation kernel_pages: page_allocator kalloc kfree free_pages kpage kmem_invar
proof (unfold_locales, goal_cases)
  case (1 s)
  then obtain xs where "kinv s xs" by (auto simp: kmem_invar_def)
  with 1 show ?case using kalloc_Nil [of s] free_pages_kinv [of s] by auto
next
  case (2 s p s')
  then obtain xs where xs: "kinv s xs" by (auto simp: kmem_invar_def)
  then obtain a as where eq: "xs = a # as" using 2 free_pages_kinv [OF xs] by (cases xs) auto
  have c: "kinv s (a # as)" using xs eq by simp
  have "p = a" using kalloc_Cons(1) [OF c] 2(3) by simp
  moreover have "kinv s' as" using kalloc_Cons(2) [OF c] 2(3) by simp
  moreover have "a \<notin> set as" using c by (simp add: kinv_def)
  moreover have "free_pages s = insert a (set as)" "free_pages s' = set as"
    using free_pages_kinv [OF xs] free_pages_kinv [OF \<open>kinv s' as\<close>] eq by simp_all
  moreover have "kpage s' = kpage s" using kpage_kalloc [of s] 2(3) by simp
  ultimately show ?case unfolding kmem_invar_def by blast
next
  case (3 s p)
  then obtain xs where xs: "kinv s xs" by (auto simp: kmem_invar_def)
  then have "p \<notin> set xs" using 3 free_pages_kinv by auto
  then obtain m where m: "kfree p s = Ret (s\<lparr>mem := m, freelist := p\<rparr>)"
    "kinv (s\<lparr>mem := m, freelist := p\<rparr>) (p # xs)"
    using kfree_ok [OF xs 3(2)] by blast
  then show ?case
    using xs free_pages_kinv [OF m(2)] free_pages_kinv [OF xs]
    by (auto simp: kmem_invar_def fun_eq_iff)
next
  case (4 s p)
  then obtain xs where xs: "kinv s xs" by (auto simp: kmem_invar_def)
  then show ?case
    using 4 free_pages_kinv [OF xs] by (auto simp: kinv_def kpage_def)
next
  case (5 s)
  then show ?case using free_pages_kinv by (auto simp: kmem_invar_def)
qed

section \<open>Initialisation\<close>

lemma page_aligned_add_PGSIZE:
  assumes "page_aligned p" "unat p + 4096 \<le> unat (e :: addr)"
  shows "page_aligned (p + PGSIZE) \<and> unat (p + PGSIZE) = unat p + 4096"
proof -
  have "unat e < 18446744073709551616" using unsigned_less [where ?'b = 64 and w = e] by simp
  then have u: "unat (p + PGSIZE) = unat p + 4096"
    using assms(2) by (simp add: unat_word_ariths)
  then show ?thesis using assms(1) by (simp add: page_aligned_unat)
qed

lemma freerange_loop_ok:
  assumes "kinv s xs" "page_aligned p" "kend s \<le> p" "pa_end \<le> PHYSTOP"
    and "\<forall>a \<in> set xs. unat a < unat p"
  shows "\<exists>s' ys. freerange_loop p pa_end s = Ret s' \<and> kinv s' ys \<and> kend s' = kend s \<and>
    set ys = set xs \<union> {a. page_aligned a \<and> unat p \<le> unat a \<and> unat a + 4096 \<le> unat pa_end}"
  using assms
proof (induction p pa_end s arbitrary: xs rule: freerange_loop.induct)
  case (1 p e s)
  show ?case
  proof (cases "unat p + 4096 \<le> unat e")
    case True
    have next_p: "page_aligned (p + PGSIZE)" "unat (p + PGSIZE) = unat p + 4096"
      using page_aligned_add_PGSIZE [OF "1.prems"(2) True] by auto
    have "kpage s p"
      using True "1.prems"(2-4) by (auto simp: kpage_def word_less_nat_alt word_le_nat_alt)
    moreover have "p \<notin> set xs" using "1.prems"(5) by auto
    ultimately obtain m where m: "kfree p s = Ret (s\<lparr>mem := m, freelist := p\<rparr>)"
      "kinv (s\<lparr>mem := m, freelist := p\<rparr>) (p # xs)"
      using kfree_ok [OF "1.prems"(1)] by blast
    let ?s = "s\<lparr>mem := m, freelist := p\<rparr>"
    have "kend ?s \<le> p + PGSIZE"
      using "1.prems"(3) next_p by (simp add: word_le_nat_alt)
    moreover have "\<forall>a \<in> set (p # xs). unat a < unat (p + PGSIZE)"
      using "1.prems"(5) next_p by (auto intro: less_trans)
    ultimately obtain s' ys where s': "freerange_loop (p + PGSIZE) e ?s = Ret s'" "kinv s' ys"
      "kend s' = kend ?s" and ys: "set ys = set (p # xs) \<union>
        {a. page_aligned a \<and> unat (p + PGSIZE) \<le> unat a \<and> unat a + 4096 \<le> unat e}"
      using "1.IH" [OF True m(1) m(2) next_p(1) _ "1.prems"(4)] by blast
    have gap: "a = p \<or> unat p + 4096 \<le> unat a" if al: "page_aligned a" and le: "unat p \<le> unat a" for a
    proof -
      obtain i where i: "unat p = 4096 * i" using "1.prems"(2) by (rule page_alignedE)
      obtain j where j: "unat a = 4096 * j" using al by (rule page_alignedE)
      have "i = j \<or> Suc i \<le> j" using le i j by linarith
      then show ?thesis using i j by (auto simp: word_unat_eq_iff)
    qed
    have "{a. page_aligned a \<and> unat p \<le> unat a \<and> unat a + 4096 \<le> unat e} =
        insert p {a. page_aligned a \<and> unat (p + PGSIZE) \<le> unat a \<and> unat a + 4096 \<le> unat e}"
      using gap True "1.prems"(2) next_p(2) by fastforce
    then have "set ys = set xs \<union>
        {a. page_aligned a \<and> unat p \<le> unat a \<and> unat a + 4096 \<le> unat e}"
      using ys by auto
    moreover have "freerange_loop p e s = Ret s'"
      using True m(1) s'(1) by (simp add: freerange_loop.simps [of p e s])
    ultimately show ?thesis using s' by auto
  next
    case False
    then have "freerange_loop p e s = Ret s" by (simp add: freerange_loop.simps [of p e s])
    then show ?thesis using "1.prems"(1) False by fastforce
  qed
qed

text \<open>C8: \<^verbatim>\<open>kinit\<close> returns, and afterwards the free list holds exactly the page-aligned
  addresses between the end of the kernel and \<^verbatim>\<open>PHYSTOP\<close>, each once.\<close>

theorem kinit_frees_all:
  assumes "freelist s = 0" "0 < kend s" "kend s \<le> PHYSTOP"
  shows "\<exists>s'. kinit s = Ret s' \<and> kmem_invar s' \<and> free_pages s' = {a. kpage s a}"
proof -
  have bound: "unat (kend s) \<le> 2281701376"
    using assms(3) by (simp add: word_le_nat_alt PHYSTOP_def KERNBASE_def)
  let ?p = "PGROUNDUP (kend s)"
  have up: "unat ?p = 4096 * ((unat (kend s) + 4095) div 4096)"
    using bound by (intro unat_PGROUNDUP) simp
  have ge: "unat (kend s) \<le> unat ?p" unfolding up by linarith
  have "kinv s []" using assms(1,2) by (simp add: kinv_def)
  moreover have "kend s \<le> ?p" using ge by (simp add: word_le_nat_alt)
  ultimately obtain s' ys where s': "freerange_loop ?p PHYSTOP s = Ret s'" "kinv s' ys"
    and ys: "set ys = {a. page_aligned a \<and> unat ?p \<le> unat a \<and> unat a + 4096 \<le> unat PHYSTOP}"
    using freerange_loop_ok [of s "[]" ?p PHYSTOP] by auto
  have "unat ?p \<le> unat a \<and> unat a + 4096 \<le> unat PHYSTOP \<longleftrightarrow> kend s \<le> a \<and> a < PHYSTOP"
    if al: "page_aligned a" for a
  proof -
    obtain j where j: "unat a = 4096 * j" using al by (rule page_alignedE)
    have "unat (kend s) \<le> 4096 * j \<Longrightarrow> (unat (kend s) + 4095) div 4096 \<le> j"
      by (drule add_right_mono [where c = 4095], drule div_le_mono [where k = 4096]) simp
    then have "unat ?p \<le> unat a \<longleftrightarrow> unat (kend s) \<le> unat a" using up ge j by auto
    moreover have "unat a + 4096 \<le> unat PHYSTOP \<longleftrightarrow> unat a < unat PHYSTOP"
      using j by (simp add: PHYSTOP_def KERNBASE_def) linarith
    ultimately show ?thesis by (simp add: word_le_nat_alt word_less_nat_alt)
  qed
  then have "set ys = {a. kpage s a}" using ys by (auto simp: kpage_def)
  then show ?thesis
    using s' free_pages_kinv by (auto simp: kinit_def freerange_def kmem_invar_def)
qed

section \<open>Properties\<close>

text \<open>A machine with two free pages.\<close>

definition two_pages :: kmem where
  "two_pages = \<lparr>mem = store64 (\<lambda>_. 0) 0x87FFE000 0x87FFF000, freelist = 0x87FFE000,
     kend = 0x80021000\<rparr>"

lemma load64_zero [simp]: "load64 (\<lambda>_. 0) a = 0"
  by (simp add: load64_def read_bytes_def numeral_eq_Suc)

lemma two_pages_kinv: "kinv two_pages [0x87FFE000, 0x87FFF000]"
proof -
  have "load64 (mem two_pages) 0x87FFF000 = 0"
    using same_off_load64_0 [OF same_off_store64_0, of "0x87FFE000" "0x87FFF000" "\<lambda>_. 0" "0x87FFF000"]
    by (simp add: two_pages_def page_aligned_def PGSIZE_def pn_def)
  moreover have "load64 (mem two_pages) 0x87FFE000 = 0x87FFF000"
    by (simp add: two_pages_def)
  ultimately show ?thesis
    by (simp add: kinv_def two_pages_def kpage_def page_aligned_def riscv_consts)
qed

theorem kinit_frees_all_witness:
  "\<exists>s'. kinit \<lparr>mem = \<lambda>_. 0, freelist = 0, kend = 0x80021000\<rparr> = Ret s' \<and>
     free_pages s' = {a. kpage \<lparr>mem = \<lambda>_. 0, freelist = 0, kend = 0x80021000\<rparr> a}"
  using kinit_frees_all [of "\<lparr>mem = \<lambda>_. 0, freelist = 0, kend = 0x80021000\<rparr>"]
  by (auto simp: riscv_consts)

text \<open>C9: \<^verbatim>\<open>n\<close> calls of \<^verbatim>\<open>kalloc\<close> hand out \<^verbatim>\<open>n\<close> different pages of the free list, and
  afterwards the free list holds exactly the others: no page is handed out twice while it is in
  use.\<close>

theorem kalloc_distinct:
  assumes "kmem_invar s" "n \<le> card (free_pages s)" "alloc_n kalloc n s = (ps, s')"
  shows "distinct ps \<and> length ps = n \<and> set ps \<subseteq> free_pages s \<and>
    free_pages s' = free_pages s - set ps \<and> kmem_invar s'"
  by (rule kernel_pages.alloc_n_distinct [OF assms])

theorem kalloc_distinct_witness:
  "\<exists>ps s'. alloc_n kalloc 2 two_pages = (ps, s') \<and> set ps = {0x87FFE000, 0x87FFF000} \<and>
     free_pages s' = {}"
proof -
  obtain ps s' where a: "alloc_n kalloc 2 two_pages = (ps, s')" by fastforce
  have f: "free_pages two_pages = {0x87FFE000, 0x87FFF000}"
    using free_pages_kinv [OF two_pages_kinv] by simp
  have "kmem_invar two_pages" using two_pages_kinv by (auto simp: kmem_invar_def)
  then have r: "distinct ps" "length ps = 2" "set ps \<subseteq> free_pages two_pages"
    "free_pages s' = free_pages two_pages - set ps"
    using kalloc_distinct [OF _ _ a] f by auto
  then have "set ps = free_pages two_pages"
    using f by (intro card_subset_eq) (auto simp: distinct_card)
  then show ?thesis using a r f by auto
qed

text \<open>C10: \<^verbatim>\<open>kfree\<close> panics exactly on addresses that are not managed pages; otherwise it returns,
  and freeing a page that is not free puts that page, and nothing else, back on the free list.\<close>

theorem kfree_correct:
  "(\<exists>e. kfree pa s = Panic e) = (\<not> kpage s pa) \<and>
   (kmem_invar s \<longrightarrow> kpage s pa \<longrightarrow> pa \<notin> free_pages s \<longrightarrow>
     (\<exists>s'. kfree pa s = Ret s' \<and> free_pages s' = insert pa (free_pages s) \<and> kmem_invar s'))"
  using kfree_panics [of pa s] kernel_pages.release_page [of s pa] by blast

theorem kfree_correct_witness:
  "\<exists>s'. kfree 0x87FFD000 two_pages = Ret s' \<and>
     free_pages s' = {0x87FFD000, 0x87FFE000, 0x87FFF000}"
  using kfree_correct [of "0x87FFD000" two_pages] free_pages_kinv [OF two_pages_kinv] two_pages_kinv
  by (auto simp: kmem_invar_def two_pages_def kpage_def page_aligned_def riscv_consts)

end
