(* ===== verification/Vm.thy ===== *)
theory Vm
  imports Kalloc
begin

text \<open>
  Sv39 page tables (\<^verbatim>\<open>kernel/vm.c\<close>, the part that does not depend on processes or
  files): \<open>walk\<close>, \<open>mappages\<close>, \<open>uvmunmap\<close>, \<open>uvmalloc\<close>, \<open>uvmdealloc\<close>, \<open>uvmcopy\<close>,
  \<open>freewalk\<close> and the kernel's own page table.  Page-table pages live in byte memory and
  are allocated by \<open>kalloc\<close>.

  The abstraction is \<open>pte_val m pt\<close>: the page-table entry that address \<open>va\<close> has in the
  table rooted at \<open>pt\<close> (0 where a table page is missing).  \<open>walk\<close> with allocation keeps
  it for every address, and \<open>mappages\<close> and \<open>uvmunmap\<close> update it exactly on the pages they
  are given.
\<close>

section \<open>Definitions\<close>

text \<open>The address of the entry for \<open>va\<close> in a table page at one level.\<close>

definition pte_addr :: "addr \<Rightarrow> nat \<Rightarrow> u64 \<Rightarrow> addr" where
  "pte_addr pagetable level va = pagetable + 8 * PX level va"

primrec walk_loop :: "nat \<Rightarrow> addr \<Rightarrow> u64 \<Rightarrow> bool \<Rightarrow> 'a kmem_scheme \<Rightarrow> addr \<times> 'a kmem_scheme" where
  "walk_loop 0 pagetable va alloc s = (pte_addr pagetable 0 va, s)"
| "walk_loop (Suc l) pagetable va alloc s =
     (let pte = pte_addr pagetable (Suc l) va; e = load64 (mem s) pte in
      if e AND PTE_V \<noteq> 0 then walk_loop l (PTE2PA e) va alloc s
      else if \<not> alloc then (0, s)
      else
        let (pagetable, s) = kalloc s in
        if pagetable = 0 then (0, s)
        else
          let s = s\<lparr>mem := memset (mem s) pagetable 0 4096\<rparr>;
              s = s\<lparr>mem := store64 (mem s) pte (PA2PTE pagetable OR PTE_V)\<rparr>
          in walk_loop l pagetable va alloc s)"

definition walk :: "addr \<Rightarrow> u64 \<Rightarrow> bool \<Rightarrow> 'a kmem_scheme \<Rightarrow> (addr \<times> 'a kmem_scheme) res" where
  "walk pagetable va alloc s =
     (if MAXVA \<le> va then Panic ''walk'' else Ret (walk_loop 2 pagetable va alloc s))"

definition walkaddr :: "addr \<Rightarrow> u64 \<Rightarrow> 'a kmem_scheme \<Rightarrow> addr res" where
  "walkaddr pagetable va s =
     (if MAXVA \<le> va then Ret 0
      else
        rbind (walk pagetable va False s) (\<lambda>(pte, s).
          if pte = 0 then Ret 0
          else if load64 (mem s) pte AND PTE_V = 0 then Ret 0
          else if load64 (mem s) pte AND PTE_U = 0 then Ret 0
          else Ret (PTE2PA (load64 (mem s) pte))))"

definition ismapped :: "addr \<Rightarrow> u64 \<Rightarrow> 'a kmem_scheme \<Rightarrow> bool res" where
  "ismapped pagetable va s =
     rbind (walk pagetable va False s) (\<lambda>(pte, s).
       if pte = 0 then Ret False
       else if load64 (mem s) pte AND PTE_V \<noteq> 0 then Ret True
       else Ret False)"

text \<open>The loop of \<^verbatim>\<open>mappages\<close> ends because \<open>walk\<close> panics at \<open>MAXVA\<close>.\<close>

lemma walk_Ret_less: "walk pt va al s = Ret r \<Longrightarrow> va < MAXVA"
  by (auto simp: walk_def not_le split: if_splits)

lemma unat_MAXVA: "unat MAXVA = 274877906944"
  by (simp add: MAXVA_def)

lemma unat_add_PGSIZE:
  assumes "va < MAXVA"
  shows "unat (va + PGSIZE) = unat va + 4096"
proof -
  have "unat va < 274877906944" using assms by (simp add: word_less_nat_alt unat_MAXVA)
  then show ?thesis by (simp add: unat_word_ariths)
qed

lemma MAXVA_measure:
  assumes "va < MAXVA"
  shows "unat MAXVA - unat (va + PGSIZE) < unat MAXVA - unat va"
  using assms by (simp add: unat_add_PGSIZE word_less_nat_alt)

function mappages_loop ::
  "addr \<Rightarrow> u64 \<Rightarrow> u64 \<Rightarrow> addr \<Rightarrow> u64 \<Rightarrow> 'a kmem_scheme \<Rightarrow> (int \<times> 'a kmem_scheme) res" where
  "mappages_loop pagetable a last_va pa perm s =
     rbind (walk pagetable a True s) (\<lambda>(pte, s).
       if pte = 0 then Ret (- 1, s)
       else if load64 (mem s) pte AND PTE_V \<noteq> 0 then Panic ''mappages: remap''
       else
         let s = s\<lparr>mem := store64 (mem s) pte (PA2PTE pa OR perm OR PTE_V)\<rparr> in
         if a = last_va then Ret (0, s)
         else mappages_loop pagetable (a + PGSIZE) last_va (pa + PGSIZE) perm s)"
  by pat_completeness auto
termination
  by (relation "measure (\<lambda>(pt, a, l, pa, perm, s). unat MAXVA - unat a)")
    (auto dest!: walk_Ret_less intro!: MAXVA_measure)

declare mappages_loop.simps [simp del]

definition mappages ::
  "addr \<Rightarrow> u64 \<Rightarrow> u64 \<Rightarrow> addr \<Rightarrow> u64 \<Rightarrow> 'a kmem_scheme \<Rightarrow> (int \<times> 'a kmem_scheme) res" where
  "mappages pagetable va sz pa perm s =
     (if va mod PGSIZE \<noteq> 0 then Panic ''mappages: va not aligned''
      else if sz mod PGSIZE \<noteq> 0 then Panic ''mappages: size not aligned''
      else if sz = 0 then Panic ''mappages: size''
      else mappages_loop pagetable va (va + sz - PGSIZE) pa perm s)"

definition uvmcreate :: "'a kmem_scheme \<Rightarrow> addr \<times> 'a kmem_scheme" where
  "uvmcreate s =
     (let (pagetable, s) = kalloc s in
      if pagetable = 0 then (0, s)
      else (pagetable, s\<lparr>mem := memset (mem s) pagetable 0 4096\<rparr>))"

function uvmunmap_loop ::
  "addr \<Rightarrow> u64 \<Rightarrow> u64 \<Rightarrow> bool \<Rightarrow> 'a kmem_scheme \<Rightarrow> 'a kmem_scheme res" where
  "uvmunmap_loop pagetable a end_va do_free s =
     (if a < end_va
      then
        rbind (walk pagetable a False s) (\<lambda>(pte, s).
          if pte = 0 then uvmunmap_loop pagetable (a + PGSIZE) end_va do_free s
          else if load64 (mem s) pte AND PTE_V = 0
          then uvmunmap_loop pagetable (a + PGSIZE) end_va do_free s
          else
            rbind (if do_free then kfree (PTE2PA (load64 (mem s) pte)) s else Ret s) (\<lambda>s.
              let s = s\<lparr>mem := store64 (mem s) pte 0\<rparr> in
              uvmunmap_loop pagetable (a + PGSIZE) end_va do_free s))
      else Ret s)"
  by pat_completeness auto
termination
  by (relation "measure (\<lambda>(pt, a, e, f, s). unat MAXVA - unat a)")
    (auto dest!: walk_Ret_less intro!: MAXVA_measure)

declare uvmunmap_loop.simps [simp del]

definition uvmunmap :: "addr \<Rightarrow> u64 \<Rightarrow> u64 \<Rightarrow> bool \<Rightarrow> 'a kmem_scheme \<Rightarrow> 'a kmem_scheme res" where
  "uvmunmap pagetable va npages do_free s =
     (if va mod PGSIZE \<noteq> 0 then Panic ''uvmunmap: not aligned''
      else uvmunmap_loop pagetable va (va + npages * PGSIZE) do_free s)"

text \<open>The page count passes through an \<open>int\<close>, which keeps its low 32 bits.\<close>

definition uvmdealloc ::
  "addr \<Rightarrow> u64 \<Rightarrow> u64 \<Rightarrow> 'a kmem_scheme \<Rightarrow> (u64 \<times> 'a kmem_scheme) res" where
  "uvmdealloc pagetable oldsz newsz s =
     (if oldsz \<le> newsz then Ret (oldsz, s)
      else
        rbind
          (if PGROUNDUP newsz < PGROUNDUP oldsz
           then
             let npages = (ucast ((PGROUNDUP oldsz - PGROUNDUP newsz) div PGSIZE) :: u32)
             in uvmunmap pagetable (PGROUNDUP newsz) (scast npages) True s
           else Ret s)
          (\<lambda>s. Ret (newsz, s)))"

lemma mappages_Ret_less: "mappages pt va sz pa perm s = Ret r \<Longrightarrow> va < MAXVA"
  by (auto simp: mappages_def mappages_loop.simps [of pt va] split: if_splits
      dest!: walk_Ret_less)

function uvmalloc_loop ::
  "addr \<Rightarrow> u64 \<Rightarrow> u64 \<Rightarrow> u64 \<Rightarrow> u64 \<Rightarrow> 'a kmem_scheme \<Rightarrow> (u64 \<times> 'a kmem_scheme) res" where
  "uvmalloc_loop pagetable a oldsz newsz xperm s =
     (if a < newsz
      then
        let (pa, s) = kalloc s in
        if pa = 0
        then rbind (uvmdealloc pagetable a oldsz s) (\<lambda>(_, s). Ret (0, s))
        else
          let s = s\<lparr>mem := memset (mem s) pa 0 4096\<rparr> in
          rbind (mappages pagetable a PGSIZE pa (PTE_R OR PTE_U OR xperm) s) (\<lambda>(r, s).
            if r \<noteq> 0
            then
              rbind (kfree pa s) (\<lambda>s.
              rbind (uvmdealloc pagetable a oldsz s) (\<lambda>(_, s). Ret (0, s)))
            else uvmalloc_loop pagetable (a + PGSIZE) oldsz newsz xperm s)
      else Ret (newsz, s))"
  by pat_completeness auto
termination
  by (relation "measure (\<lambda>(pt, a, oldsz, newsz, x, s). unat MAXVA - unat a)")
    (auto dest!: mappages_Ret_less intro!: MAXVA_measure)

declare uvmalloc_loop.simps [simp del]

definition uvmalloc ::
  "addr \<Rightarrow> u64 \<Rightarrow> u64 \<Rightarrow> u64 \<Rightarrow> 'a kmem_scheme \<Rightarrow> (u64 \<times> 'a kmem_scheme) res" where
  "uvmalloc pagetable oldsz newsz xperm s =
     (if newsz < oldsz then Ret (oldsz, s)
      else
        let oldsz = PGROUNDUP oldsz
        in uvmalloc_loop pagetable oldsz oldsz newsz xperm s)"

text \<open>\<open>freewalk\<close> recurses once per level of the tree.  The first argument bounds the depth
  of the recursion by the levels of an Sv39 table; a deeper recursion would run off the
  kernel stack.\<close>

primrec freewalk :: "nat \<Rightarrow> addr \<Rightarrow> 'a kmem_scheme \<Rightarrow> 'a kmem_scheme res" where
  "freewalk 0 pagetable s = Panic ''freewalk: kernel stack overflow''"
| "freewalk (Suc d) pagetable s =
     rbind
       (rfold (\<lambda>i s.
          let pte = load64 (mem s) (pagetable + of_nat (8 * i)) in
          if pte AND PTE_V \<noteq> 0 \<and> pte AND (PTE_R OR PTE_W OR PTE_X) = 0
          then freewalk d (PTE2PA pte) s
          else if pte AND PTE_V \<noteq> 0
          then kfree (PTE2PA pte) s
          else Ret s) [0..<512] s)
       (\<lambda>s. kfree pagetable s)"

definition uvmfree :: "addr \<Rightarrow> u64 \<Rightarrow> 'a kmem_scheme \<Rightarrow> 'a kmem_scheme res" where
  "uvmfree pagetable sz s = (if pagetable \<noteq> 0 then freewalk 3 pagetable s else Ret s)"

function uvmcopy_loop ::
  "addr \<Rightarrow> addr \<Rightarrow> u64 \<Rightarrow> u64 \<Rightarrow> 'a kmem_scheme \<Rightarrow> (int \<times> 'a kmem_scheme) res" where
  "uvmcopy_loop old new i sz s =
     (if i < sz
      then
        rbind (walk old i False s) (\<lambda>(pte, s).
          if pte = 0 then uvmcopy_loop old new (i + PGSIZE) sz s
          else if load64 (mem s) pte AND PTE_V = 0
          then uvmcopy_loop old new (i + PGSIZE) sz s
          else
            let pa = PTE2PA (load64 (mem s) pte);
                flags = PTE_FLAGS (load64 (mem s) pte);
                (page, s) = kalloc s
            in
            if page = 0
            then rbind (uvmunmap new 0 (i div PGSIZE) True s) (\<lambda>s. Ret (- 1, s))
            else
              let s = s\<lparr>mem := memmove (mem s) page pa 4096\<rparr> in
              rbind (mappages new i PGSIZE page flags s) (\<lambda>(r, s).
                if r \<noteq> 0
                then
                  rbind (kfree page s) (\<lambda>s.
                  rbind (uvmunmap new 0 (i div PGSIZE) True s) (\<lambda>s. Ret (- 1, s)))
                else uvmcopy_loop old new (i + PGSIZE) sz s))
      else Ret (0, s))"
  by pat_completeness auto
termination
  by (relation "measure (\<lambda>(old, new, i, sz, s). unat MAXVA - unat i)")
    (auto dest!: walk_Ret_less intro!: MAXVA_measure)

declare uvmcopy_loop.simps [simp del]

definition uvmcopy :: "addr \<Rightarrow> addr \<Rightarrow> u64 \<Rightarrow> 'a kmem_scheme \<Rightarrow> (int \<times> 'a kmem_scheme) res" where
  "uvmcopy old new sz s = uvmcopy_loop old new 0 sz s"

definition uvmclear :: "addr \<Rightarrow> u64 \<Rightarrow> 'a kmem_scheme \<Rightarrow> 'a kmem_scheme res" where
  "uvmclear pagetable va s =
     rbind (walk pagetable va False s) (\<lambda>(pte, s).
       if pte = 0 then Panic ''uvmclear''
       else Ret (s\<lparr>mem := store64 (mem s) pte (load64 (mem s) pte AND NOT PTE_U)\<rparr>))"

section \<open>Page-table trees\<close>

text \<open>Entry \<open>i\<close> of a table page, and the valid entries of a page above the leaves.\<close>

definition ent :: "memory \<Rightarrow> addr \<Rightarrow> nat \<Rightarrow> u64" where
  "ent m pt i = load64 m (pt + of_nat (8 * i))"

definition kids :: "memory \<Rightarrow> addr \<Rightarrow> nat set" where
  "kids m pt = {i. i < 512 \<and> bit (ent m pt i) 0}"

abbreviation kid :: "memory \<Rightarrow> addr \<Rightarrow> nat \<Rightarrow> addr" where
  "kid m pt i \<equiv> PTE2PA (ent m pt i)"

text \<open>The table pages of a tree with \<open>l\<close> levels below the root.\<close>

primrec tabs :: "memory \<Rightarrow> nat \<Rightarrow> addr \<Rightarrow> addr set" where
  "tabs m 0 pt = {pt}"
| "tabs m (Suc l) pt = insert pt (\<Union>i\<in>kids m pt. tabs m l (kid m pt i))"

text \<open>A tree: no table page is shared, and every one is a page that \<open>K\<close> allows.\<close>

primrec ptwf :: "(addr \<Rightarrow> bool) \<Rightarrow> memory \<Rightarrow> nat \<Rightarrow> addr \<Rightarrow> bool" where
  "ptwf K m 0 pt \<longleftrightarrow> K pt"
| "ptwf K m (Suc l) pt \<longleftrightarrow> K pt \<and>
     (\<forall>i\<in>kids m pt. ptwf K m l (kid m pt i) \<and> pt \<notin> tabs m l (kid m pt i)) \<and>
     (\<forall>i\<in>kids m pt. \<forall>j\<in>kids m pt. i \<noteq> j \<longrightarrow>
        tabs m l (kid m pt i) \<inter> tabs m l (kid m pt j) = {})"

text \<open>The address of the leaf entry (0 when a table is missing), and its value.\<close>

primrec wl :: "memory \<Rightarrow> nat \<Rightarrow> addr \<Rightarrow> u64 \<Rightarrow> addr" where
  "wl m 0 pt va = pte_addr pt 0 va"
| "wl m (Suc l) pt va =
     (let i = unat (PX (Suc l) va) in if i \<in> kids m pt then wl m l (kid m pt i) va else 0)"

primrec pte_val :: "memory \<Rightarrow> nat \<Rightarrow> addr \<Rightarrow> u64 \<Rightarrow> u64" where
  "pte_val m 0 pt va = ent m pt (unat (PX 0 va))"
| "pte_val m (Suc l) pt va =
     (let i = unat (PX (Suc l) va) in if i \<in> kids m pt then pte_val m l (kid m pt i) va else 0)"

lemma pte_addr_ent: "pte_addr pt l va = pt + of_nat (8 * unat (PX l va))"
  by (simp add: pte_addr_def)

lemma load_pte_addr [simp]: "load64 m (pte_addr pt l va) = ent m pt (unat (PX l va))"
  by (simp add: pte_addr_ent ent_def)

lemma kids_less: "i \<in> kids m pt \<Longrightarrow> i < 512"
  by (simp add: kids_def)

lemma PX_kids: "unat (PX l va) \<in> kids m pt \<longleftrightarrow> bit (ent m pt (unat (PX l va))) 0"
  by (simp add: kids_def)

lemma tabs_root [simp]: "pt \<in> tabs m l pt"
  by (cases l) auto

lemma walk_loop_noalloc [simp]: "walk_loop l pt va False s = (wl (mem s) l pt va, s)"
  by (induction l arbitrary: pt) (auto simp: Let_def PX_kids simp del: word_not_simps)

lemma ent_same_off:
  assumes "same_off P m m'" "page_aligned pt" "pn pt \<notin> P" "i < 512"
  shows "ent m' pt i = ent m pt i"
  using same_off_load64 [OF assms] by (simp add: ent_def)

lemma kids_same_off:
  assumes "same_off P m m'" "page_aligned pt" "pn pt \<notin> P"
  shows "kids m' pt = kids m pt"
  using ent_same_off [OF assms] by (auto simp: kids_def)

lemma pt_frame:
  assumes K: "\<And>p. K p \<Longrightarrow> page_aligned p"
    and "ptwf K m l pt" "same_off P m m'" "\<forall>t\<in>tabs m l pt. pn t \<notin> P"
  shows "tabs m' l pt = tabs m l pt" "ptwf K m' l pt"
    "wl m' l pt va = wl m l pt va" "pte_val m' l pt va = pte_val m l pt va"
proof -
  have "tabs m' l pt = tabs m l pt \<and> ptwf K m' l pt \<and> wl m' l pt va = wl m l pt va \<and>
      pte_val m' l pt va = pte_val m l pt va"
    using assms(2-)
  proof (induction l arbitrary: pt)
    case 0
    then show ?case using K ent_same_off [of P m m' pt] by simp
  next
    case (Suc l)
    have al: "page_aligned pt" and nP: "pn pt \<notin> P" using Suc.prems K by auto
    have e: "ent m' pt i = ent m pt i" if "i < 512" for i
      using ent_same_off [OF Suc.prems(2) al nP that] .
    have k: "kids m' pt = kids m pt"
      using kids_same_off [OF Suc.prems(2) al nP] .
    have ih: "tabs m' l (kid m pt i) = tabs m l (kid m pt i) \<and> ptwf K m' l (kid m pt i) \<and>
        wl m' l (kid m pt i) va = wl m l (kid m pt i) va \<and>
        pte_val m' l (kid m pt i) va = pte_val m l (kid m pt i) va" if "i \<in> kids m pt" for i
      using that Suc.prems by (intro Suc.IH) auto
    have e': "ent m' pt i = ent m pt i" if "i \<in> kids m pt" for i
      using that e kids_less by blast
    show ?case
      using Suc.prems(1) ih by (simp add: k e e' Let_def cong: ball_cong)
  qed
  then show "tabs m' l pt = tabs m l pt" "ptwf K m' l pt"
    "wl m' l pt va = wl m l pt va" "pte_val m' l pt va = pte_val m l pt va" by auto
qed

lemma ptwf_tabs_K: "ptwf K m l pt \<Longrightarrow> t \<in> tabs m l pt \<Longrightarrow> K t"
  by (induction l arbitrary: pt) auto

lemma wl_in_tabs:
  assumes "wl m l pt va \<noteq> 0"
  shows "\<exists>t \<in> tabs m l pt. wl m l pt va = t + of_nat (8 * unat (PX 0 va))"
  using assms
proof (induction l arbitrary: pt)
  case 0
  then show ?case by (simp add: pte_addr_ent)
next
  case (Suc l)
  let ?i = "unat (PX (Suc l) va)"
  have i: "?i \<in> kids m pt" and nz: "wl m l (kid m pt ?i) va \<noteq> 0"
    using Suc.prems by (auto simp: Let_def split: if_splits)
  obtain t where "t \<in> tabs m l (kid m pt ?i)"
      "wl m l (kid m pt ?i) va = t + of_nat (8 * unat (PX 0 va))"
    using Suc.IH [OF nz] by blast
  then show ?case using i by (auto simp: Let_def)
qed

lemma pte_val_wl:
  assumes "wl m l pt va \<noteq> 0"
  shows "load64 m (wl m l pt va) = pte_val m l pt va"
  using assms by (induction l arbitrary: pt) (auto simp: Let_def split: if_splits)

lemma pte_val_no_table:
  assumes "wl m l pt va = 0" "ptwf K m l pt" "\<And>p. K p \<Longrightarrow> page_aligned p \<and> p \<noteq> 0"
  shows "pte_val m l pt va = 0"
  using assms
proof (induction l arbitrary: pt)
  case 0
  have al: "page_aligned pt" and nz: "pt \<noteq> 0" using 0 by auto
  have "unat (pt + of_nat (8 * unat (PX 0 va))) = unat pt + 8 * unat (PX 0 va)"
    using PX_less [of 0 va] by (intro page_aligned_no_overflow [OF al]) simp
  then have "unat pt = 0" using 0(1) by (simp add: pte_addr_ent)
  then show ?case using nz by (simp add: unat_eq_zero)
next
  case (Suc l)
  then show ?case by (auto simp: Let_def split: if_splits)
qed

lemma ent_store:
  assumes "page_aligned pt" "i < 512" "j < 512"
  shows "ent (store64 m (pt + of_nat (8 * i)) v) pt j = (if j = i then v else ent m pt j)"
proof (cases "j = i")
  case False
  have "load64 (store64 m (pt + of_nat (8 * i)) v) (pt + of_nat (8 * j)) =
      load64 m (pt + of_nat (8 * j))"
  proof (rule load_store64_other)
    fix k :: nat assume k: "k < 8"
    have e: "pt + of_nat (8 * j) + of_nat k - (pt + of_nat (8 * i)) =
        (of_nat (8 * j + k) :: u64) - of_nat (8 * i)" by simp
    have u: "unat (of_nat (8 * j + k) :: u64) = 8 * j + k" "unat (of_nat (8 * i) :: u64) = 8 * i"
      using assms k by (simp_all add: unat_of_nat del: of_nat_add of_nat_mult)
    have "8 * i \<le> 8 * j + k \<longrightarrow> 8 \<le> 8 * j + k - 8 * i" using False k by linarith
    then show "8 \<le> unat (pt + of_nat (8 * j) + of_nat k - (pt + of_nat (8 * i)))"
      unfolding e using assms by (auto simp: unat_sub_if' u simp del: of_nat_add of_nat_mult)
  qed
  then show ?thesis using False by (simp add: ent_def)
qed (simp add: ent_def)

lemma leaf_store:
  assumes K: "\<And>p. K p \<Longrightarrow> page_aligned p"
    and "ptwf K m l pt" "wl m l pt va \<noteq> 0"
    and m'_def: "m' = store64 m (wl m l pt va) v"
  shows "tabs m' l pt = tabs m l pt" "ptwf K m' l pt" "wl m' l pt x = wl m l pt x"
    "pte_val m' l pt x = (if \<forall>k\<le>l. PX k x = PX k va then v else pte_val m l pt x)"
proof -
  have "tabs m' l pt = tabs m l pt \<and> ptwf K m' l pt \<and> wl m' l pt x = wl m l pt x \<and>
      pte_val m' l pt x = (if \<forall>k\<le>l. PX k x = PX k va then v else pte_val m l pt x)"
    using assms(2,3) unfolding m'_def
  proof (induction l arbitrary: pt)
    case 0
    have "ent (store64 m (pte_addr pt 0 va) v) pt (unat (PX 0 x)) =
        (if unat (PX 0 x) = unat (PX 0 va) then v else ent m pt (unat (PX 0 x)))"
      unfolding pte_addr_ent using 0 K by (intro ent_store) simp_all
    then show ?case using 0 by (simp add: word_unat_eq_iff)
  next
    case (Suc l)
    let ?i = "unat (PX (Suc l) va)" and ?a = "wl m (Suc l) pt va"
    define n where "n = store64 m ?a v"
    have i: "?i \<in> kids m pt" and a: "?a = wl m l (kid m pt ?i) va"
      using Suc.prems(2) by (auto simp: Let_def split: if_splits)
    have wf: "ptwf K m l (kid m pt j)" "pt \<notin> tabs m l (kid m pt j)" if "j \<in> kids m pt" for j
      using Suc.prems(1) that by auto
    have nz: "wl m l (kid m pt ?i) va \<noteq> 0" using Suc.prems(2) a by simp
    then obtain t where t: "t \<in> tabs m l (kid m pt ?i)" "?a = t + of_nat (8 * unat (PX 0 va))"
      using wl_in_tabs [of m l "kid m pt ?i" va] a by auto
    have alt: "page_aligned t" using ptwf_tabs_K [OF wf(1) [OF i] t(1)] by (rule K)
    have so: "same_off {pn t} m n"
      unfolding n_def t(2) by (rule same_off_store64 [OF alt]) simp
    have al: "page_aligned pt" using Suc.prems(1) by (simp add: K)
    have "pn pt \<noteq> pn t" using page_aligned_pn_inj [OF al alt] wf(2) [OF i] t(1) by auto
    then have e: "j < 512 \<Longrightarrow> ent n pt j = ent m pt j" and k: "kids n pt = kids m pt" for j
      using ent_same_off [OF so al] kids_same_off [OF so al] by auto
    have e': "j \<in> kids m pt \<Longrightarrow> ent n pt j = ent m pt j" for j using e kids_less by blast
    note ih = Suc.IH [OF wf(1) [OF i] nz, folded a, folded n_def]
    have oth: "tabs n l (kid m pt j) = tabs m l (kid m pt j)" "ptwf K n l (kid m pt j)"
      "wl n l (kid m pt j) x = wl m l (kid m pt j) x"
      "pte_val n l (kid m pt j) x = pte_val m l (kid m pt j) x"
      if j: "j \<in> kids m pt" "j \<noteq> ?i" for j
    proof -
      have "t \<notin> tabs m l (kid m pt j)" using Suc.prems(1) i j t(1) by auto
      then have fr: "\<forall>u\<in>tabs m l (kid m pt j). pn u \<notin> {pn t}"
        using ptwf_tabs_K [OF wf(1) [OF j(1)]] K alt page_aligned_pn_inj by auto
      show "tabs n l (kid m pt j) = tabs m l (kid m pt j)" "ptwf K n l (kid m pt j)"
        "wl n l (kid m pt j) x = wl m l (kid m pt j) x"
        "pte_val n l (kid m pt j) x = pte_val m l (kid m pt j) x"
        using pt_frame [OF K wf(1) [OF j(1)] so fr] by auto
    qed
    have sub: "tabs n l (kid m pt j) = tabs m l (kid m pt j) \<and> ptwf K n l (kid m pt j) \<and>
        wl n l (kid m pt j) x = wl m l (kid m pt j) x" if "j \<in> kids m pt" for j
      using ih oth that by (cases "j = ?i") auto
    have "tabs n (Suc l) pt = tabs m (Suc l) pt" using sub by (simp add: k e')
    moreover have "ptwf K n (Suc l) pt" using sub Suc.prems(1) by (simp add: k e')
    moreover have "wl n (Suc l) pt x = wl m (Suc l) pt x"
      using sub by (simp add: k e' Let_def)
    moreover have "pte_val n (Suc l) pt x =
        (if \<forall>k\<le>Suc l. PX k x = PX k va then v else pte_val m (Suc l) pt x)"
    proof (cases "PX (Suc l) x = PX (Suc l) va")
      case True
      then show ?thesis using ih i by (auto simp: k e' Let_def le_Suc_eq all_conj_distrib)
    next
      case False
      then have "unat (PX (Suc l) x) \<noteq> ?i" by (simp add: word_unat_eq_iff)
      then show ?thesis using oth False by (auto simp: k e' Let_def)
    qed
    ultimately show ?case unfolding n_def by blast
  qed
  then show "tabs m' l pt = tabs m l pt" "ptwf K m' l pt" "wl m' l pt x = wl m l pt x"
    "pte_val m' l pt x = (if \<forall>k\<le>l. PX k x = PX k va then v else pte_val m l pt x)" by auto
qed

text \<open>Replacing the subtree under one entry of a table.\<close>

lemma kid_update:
  assumes K: "\<And>p. K p \<Longrightarrow> page_aligned p"
    and wf: "ptwf K m (Suc l) pt" and i: "i < 512"
    and e: "\<And>j. j < 512 \<Longrightarrow> j \<noteq> i \<Longrightarrow> ent m' pt j = ent m pt j"
    and v: "bit (ent m' pt i) 0" "kid m' pt i = c"
    and c: "ptwf K m' l c" "pt \<notin> tabs m' l c"
    and so: "same_off P m m'"
    and fr: "\<forall>j \<in> kids m pt - {i}. \<forall>t \<in> tabs m l (kid m pt j). pn t \<notin> P \<and> t \<notin> tabs m' l c"
  shows "ptwf K m' (Suc l) pt"
    and "tabs m' (Suc l) pt =
      insert pt (tabs m' l c \<union> (\<Union>j\<in>kids m pt - {i}. tabs m l (kid m pt j)))"
    and "wl m' (Suc l) pt x =
      (if unat (PX (Suc l) x) = i then wl m' l c x else wl m (Suc l) pt x)"
    and "pte_val m' (Suc l) pt x =
      (if unat (PX (Suc l) x) = i then pte_val m' l c x else pte_val m (Suc l) pt x)"
proof -
  have "j \<in> kids m' pt \<longleftrightarrow> j \<in> insert i (kids m pt - {i})" for j
    using i e [of j] v(1) by (cases "j = i") (auto simp: kids_def)
  then have k: "kids m' pt = insert i (kids m pt - {i})" by blast
  have e': "ent m' pt j = ent m pt j" if "j \<in> kids m pt" "j \<noteq> i" for j
    using that e kids_less by blast
  have oth: "tabs m' l (kid m pt j) = tabs m l (kid m pt j) \<and> ptwf K m' l (kid m pt j) \<and>
      wl m' l (kid m pt j) x = wl m l (kid m pt j) x \<and>
      pte_val m' l (kid m pt j) x = pte_val m l (kid m pt j) x"
    if j: "j \<in> kids m pt" "j \<noteq> i" for j
  proof -
    have "ptwf K m l (kid m pt j)" using wf j by simp
    from pt_frame [OF K this so] show ?thesis using fr j by simp
  qed
  have kd: "kid m' pt j = (if j = i then c else kid m pt j)" if "j \<in> kids m' pt" for j
    using that v(2) e' [of j] by (auto simp: k)
  have tb: "tabs m' l (kid m' pt j) = (if j = i then tabs m' l c else tabs m l (kid m pt j))"
    if "j \<in> kids m' pt" for j
    using that oth by (auto simp: kd k)
  have "ptwf K m' l (kid m' pt j) \<and> pt \<notin> tabs m' l (kid m' pt j)" if "j \<in> kids m' pt" for j
    unfolding tb [OF that] kd [OF that] using that wf c oth by (auto simp: k)
  moreover have "tabs m' l (kid m' pt j) \<inter> tabs m' l (kid m' pt j') = {}"
    if jj: "j \<in> kids m' pt" "j' \<in> kids m' pt" "j \<noteq> j'" for j j'
  proof -
    have "tabs m l (kid m pt j) \<inter> tabs m l (kid m pt j') = {}"
      if "j \<in> kids m pt" "j' \<in> kids m pt"
      using wf jj(3) that by simp
    moreover have "tabs m l (kid m pt j) \<inter> tabs m' l c = {}" if "j \<in> kids m pt - {i}" for j
      using fr that by blast
    ultimately show ?thesis
      unfolding tb [OF jj(1)] tb [OF jj(2)] using jj
      by (cases "j = i"; cases "j' = i") (simp_all add: k Int_commute)
  qed
  ultimately show "ptwf K m' (Suc l) pt" using wf by simp
  show "tabs m' (Suc l) pt =
      insert pt (tabs m' l c \<union> (\<Union>j\<in>kids m pt - {i}. tabs m l (kid m pt j)))"
    using tb k by (auto split: if_splits)
  show "wl m' (Suc l) pt x =
      (if unat (PX (Suc l) x) = i then wl m' l c x else wl m (Suc l) pt x)"
    using oth v(2) e' by (auto simp: k Let_def simp del: insert_Diff_single)
  show "pte_val m' (Suc l) pt x =
      (if unat (PX (Suc l) x) = i then pte_val m' l c x else pte_val m (Suc l) pt x)"
    using oth v(2) e' by (auto simp: k Let_def simp del: insert_Diff_single)
qed

text \<open>A zeroed page is an empty table at every level.\<close>

lemma zero_table:
  assumes z: "\<And>i. i < 512 \<Longrightarrow> ent m p i = 0" and "K p"
  shows "ptwf K m l p" "tabs m l p = {p}" "pte_val m l p x = 0"
proof -
  have "kids m p = {}" using z by (auto simp: kids_def)
  then show "ptwf K m l p" "tabs m l p = {p}" "pte_val m l p x = 0"
    using assms by (cases l; simp add: z)+
qed

lemma ent_zeroed:
  assumes "page_aligned p" "i < 512"
  shows "ent (memset m p 0 4096) p i = 0"
proof -
  have "read_bytes (memset m p 0 4096) (p + of_nat (8 * i)) 8 = replicate 8 0"
  proof (rule nth_equalityI)
    fix k assume "k < length (read_bytes (memset m p 0 4096) (p + of_nat (8 * i)) 8)"
    then have k: "k < 8" by (simp add: read_bytes_def)
    have "pn (p + of_nat (8 * i + k)) = pn p" using assms k by (intro pn_add) auto
    then show "read_bytes (memset m p 0 4096) (p + of_nat (8 * i)) 8 ! k = replicate 8 0 ! k"
      using k assms by (simp add: read_bytes_def memset_page add.assoc)
  qed (simp add: read_bytes_def)
  then show ?thesis by (simp add: ent_def load64_def numeral_eq_Suc)
qed

text \<open>What \<open>walk\<close> with allocation does to a tree: pages \<open>ys\<close> from the head of the free list
  become tables, and no entry changes its value.\<close>

definition pt_grows ::
  "(addr \<Rightarrow> bool) \<Rightarrow> memory \<Rightarrow> memory \<Rightarrow> nat \<Rightarrow> addr \<Rightarrow> addr list \<Rightarrow> bool" where
  "pt_grows K m m' l pt ys \<longleftrightarrow> ptwf K m' l pt \<and> tabs m' l pt = tabs m l pt \<union> set ys \<and>
     same_off (pn ` (tabs m l pt \<union> set ys)) m m' \<and>
     (\<forall>x. pte_val m' l pt x = pte_val m l pt x)"

lemma pn_image_notin:
  assumes "\<forall>t \<in> T. page_aligned t" "page_aligned p" "p \<notin> T"
  shows "pn p \<notin> pn ` T"
  using assms page_aligned_pn_inj by blast

lemma pt_grows_kid:
  assumes K: "\<And>p. K p \<Longrightarrow> page_aligned p" and wf: "ptwf K m (Suc l) pt"
    and i: "i \<in> kids m pt" and g: "pt_grows K m m' l (kid m pt i) ys"
    and ys: "\<forall>y \<in> set ys. K y" "set ys \<inter> tabs m (Suc l) pt = {}"
  shows "pt_grows K m m' (Suc l) pt ys"
    and "wl m' (Suc l) pt x =
      (if unat (PX (Suc l) x) = i then wl m' l (kid m pt i) x else wl m (Suc l) pt x)"
proof -
  let ?c = "kid m pt i" and ?T = "tabs m l (kid m pt i) \<union> set ys"
  have wfc: "ptwf K m l ?c" using wf i by simp
  have T: "\<forall>t \<in> ?T. page_aligned t" using ptwf_tabs_K [OF wfc] ys(1) K by blast
  have al: "page_aligned pt" and pt: "pt \<notin> ?T" using wf K i ys(2) by auto
  have so: "same_off (pn ` ?T) m m'" and tc: "tabs m' l ?c = ?T" and wfc': "ptwf K m' l ?c"
    and val: "\<And>x. pte_val m' l ?c x = pte_val m l ?c x"
    using g by (auto simp: pt_grows_def)
  have e: "j < 512 \<Longrightarrow> ent m' pt j = ent m pt j" for j
    using ent_same_off [OF so al pn_image_notin [OF T al pt]] .
  have v: "bit (ent m' pt i) 0" "kid m' pt i = ?c" "i < 512"
    using i e [of i] by (auto simp: kids_def)
  have fr: "pn t \<notin> pn ` ?T \<and> t \<notin> tabs m' l ?c"
    if "j \<in> kids m pt" "j \<noteq> i" "t \<in> tabs m l (kid m pt j)" for j t
  proof -
    have "tabs m l (kid m pt j) \<inter> tabs m l ?c = {}" using that wf i by simp
    then have "t \<notin> ?T" using that ys(2) by auto
    moreover have "page_aligned t" using that wf ptwf_tabs_K K by fastforce
    ultimately show ?thesis using pn_image_notin [OF T] tc by blast
  qed
  have frs: "\<forall>j \<in> kids m pt - {i}. \<forall>t \<in> tabs m l (kid m pt j).
      pn t \<notin> pn ` ?T \<and> t \<notin> tabs m' l ?c"
    using fr by blast
  have pt': "pt \<notin> tabs m' l ?c" using pt tc by simp
  note u = kid_update [OF K wf v(3) e v(1,2) wfc' pt' so frs]
  show "wl m' (Suc l) pt x =
      (if unat (PX (Suc l) x) = i then wl m' l ?c x else wl m (Suc l) pt x)"
    by (rule u(3))
  have "tabs m' (Suc l) pt = tabs m (Suc l) pt \<union> set ys"
    using u(2) tc i by auto
  moreover have "same_off (pn ` (tabs m (Suc l) pt \<union> set ys)) m m'"
    by (rule same_off_mono [OF so]) (use i in auto)
  moreover have "pte_val m' (Suc l) pt x = pte_val m (Suc l) pt x" for x
    using u(4) [of x] val i by (auto simp: Let_def)
  ultimately show "pt_grows K m m' (Suc l) pt ys"
    unfolding pt_grows_def using u(1) by blast
qed

text \<open>Linking a zeroed page under an invalid entry.\<close>

lemma pt_grows_link:
  assumes K: "\<And>p. K p \<Longrightarrow> page_aligned p" and wf: "ptwf K m (Suc l) pt"
    and i: "i < 512" "i \<notin> kids m pt" and p: "K p" "p \<notin> tabs m (Suc l) pt"
    and so: "same_off {pn p} m n" and z: "\<And>j. j < 512 \<Longrightarrow> ent n p j = 0"
    and v: "bit v 0" "PTE2PA v = p"
  shows "pt_grows K m (store64 n (pt + of_nat (8 * i)) v) (Suc l) pt [p]"
    and "i \<in> kids (store64 n (pt + of_nat (8 * i)) v) pt"
    and "kid (store64 n (pt + of_nat (8 * i)) v) pt i = p"
    and "same_off {pn pt, pn p} m (store64 n (pt + of_nat (8 * i)) v)"
proof -
  let ?m = "store64 n (pt + of_nat (8 * i)) v"
  have al: "page_aligned pt" "page_aligned p" using wf p(1) K by auto
  have ne: "pn pt \<noteq> pn p" using page_aligned_pn_inj [OF al] p(2) by auto
  have so2: "same_off {pn pt} n ?m" by (rule same_off_store64 [OF al(1) i(1)])
  show so': "same_off {pn pt, pn p} m ?m"
    by (rule same_off_trans [OF same_off_mono [OF so] same_off_mono [OF so2]]) auto
  have e: "ent ?m pt j = (if j = i then v else ent m pt j)" if "j < 512" for j
    using ent_store [OF al(1) i(1) that] ent_same_off [OF so al(1) _ that] ne by simp
  have z': "ent ?m p j = 0" if "j < 512" for j
    using ent_same_off [OF so2 al(2) _ that] ne z [OF that] by simp
  note zt = zero_table [of ?m p K, OF z' p(1)]
  show "i \<in> kids ?m pt" "kid ?m pt i = p" using e [OF i(1)] i(1) v by (auto simp: kids_def)
  have fr: "pn t \<notin> {pn pt, pn p} \<and> t \<notin> tabs ?m l p"
    if "j \<in> kids m pt" "j \<noteq> i" "t \<in> tabs m l (kid m pt j)" for j t
  proof -
    have "t \<noteq> pt" "t \<noteq> p" using that wf p(2) by auto
    moreover have "page_aligned t" using that wf ptwf_tabs_K K by fastforce
    ultimately show ?thesis using zt(2) page_aligned_pn_inj al by auto
  qed
  have frs: "\<forall>j \<in> kids m pt - {i}. \<forall>t \<in> tabs m l (kid m pt j).
      pn t \<notin> {pn pt, pn p} \<and> t \<notin> tabs ?m l p"
    using fr by blast
  have pt: "pt \<notin> tabs ?m l p" using p(2) zt(2) by auto
  have vi: "bit (ent ?m pt i) 0" "kid ?m pt i = p" using e [OF i(1)] v by auto
  have e': "j < 512 \<Longrightarrow> j \<noteq> i \<Longrightarrow> ent ?m pt j = ent m pt j" for j using e by simp
  note u = kid_update [OF K wf i(1) e' vi zt(1) pt so' frs]
  have "kids m pt - {i} = kids m pt" using i(2) by auto
  then have "tabs ?m (Suc l) pt = tabs m (Suc l) pt \<union> set [p]"
    using u(2) zt(2) by auto
  moreover have "same_off (pn ` (tabs m (Suc l) pt \<union> set [p])) m ?m"
    by (rule same_off_mono [OF so']) auto
  moreover have "pte_val ?m (Suc l) pt x = pte_val m (Suc l) pt x" for x
    using u(4) [of x] zt(3) i(2) by (auto simp: Let_def)
  ultimately show "pt_grows K m ?m (Suc l) pt [p]"
    unfolding pt_grows_def using u(1) by blast
qed

lemma pt_grows_refl: "ptwf K m l pt \<Longrightarrow> pt_grows K m m l pt []"
  by (simp add: pt_grows_def)

lemma pt_grows_trans:
  assumes a: "pt_grows K m m1 l pt ys" and b: "pt_grows K m1 m2 l pt zs"
  shows "pt_grows K m m2 l pt (ys @ zs)"
proof -
  have "same_off (pn ` (tabs m l pt \<union> set (ys @ zs))) m m1"
    "same_off (pn ` (tabs m l pt \<union> set (ys @ zs))) m1 m2"
    using a b unfolding pt_grows_def by (auto elim!: same_off_mono)
  then show ?thesis using a b same_off_trans unfolding pt_grows_def by fastforce
qed

lemma kpage_nz: "kinv s xs \<Longrightarrow> kpage s p \<Longrightarrow> p \<noteq> 0 \<and> page_aligned p"
  by (auto simp: kinv_def kpage_def)

lemma pte_addr_nz:
  assumes "page_aligned pt" "pt \<noteq> 0"
  shows "pte_addr pt l va \<noteq> 0"
proof
  assume 0: "pte_addr pt l va = 0"
  have "unat (pt + of_nat (8 * unat (PX l va))) = unat pt + 8 * unat (PX l va)"
    using PX_less [of l va] by (intro page_aligned_no_overflow [OF assms(1)]) simp
  then have "unat pt = 0" using 0 by (simp add: pte_addr_ent)
  then show False using assms(2) by (simp add: unat_eq_zero)
qed

text \<open>The page that \<open>walk\<close> allocates and links.\<close>

lemma walk_new_table:
  assumes inv: "kinv s (p # xs)" and wf: "ptwf (kpage s) (mem s) (Suc l) pt"
    and dj: "tabs (mem s) (Suc l) pt \<inter> set (p # xs) = {}"
    and i: "i < 512" "i \<notin> kids (mem s) pt"
  defines "m \<equiv> store64 (memset (mem (snd (kalloc s))) p 0 4096) (pt + of_nat (8 * i))
      (PA2PTE p OR PTE_V)"
  shows "kinv ((snd (kalloc s))\<lparr>mem := m\<rparr>) xs" "pt_grows (kpage s) (mem s) m (Suc l) pt [p]"
    "i \<in> kids m pt" "kid m pt i = p"
proof -
  let ?n = "memset (mem (snd (kalloc s))) p 0 4096"
  note c = kalloc_Cons [OF inv]
  have K: "\<And>q. kpage s q \<Longrightarrow> page_aligned q" by (simp add: kpage_def)
  have al: "page_aligned p" "page_aligned pt" using c(3) wf K by auto
  have so: "same_off {pn p} (mem s) ?n"
    using same_off_trans [OF c(5) same_off_memset [OF al(1)]] .
  have v: "bit (PA2PTE p OR PTE_V) 0" "PTE2PA (PA2PTE p OR PTE_V) = p"
    using PTE2PA_PA2PTE [OF al(1)] by (simp_all add: PTE_V_def bit_or_iff)
  have pn: "p \<notin> tabs (mem s) (Suc l) pt" using dj by auto
  note g = pt_grows_link [OF K wf i c(3) pn so ent_zeroed [OF al(1)] v, folded m_def]
  show "pt_grows (kpage s) (mem s) m (Suc l) pt [p]" "i \<in> kids m pt" "kid m pt i = p"
    using g by auto
  have "same_off {pn pt, pn p} (mem (snd (kalloc s))) m"
    unfolding m_def
    using same_off_trans [OF same_off_mono [OF same_off_memset [OF al(1)]]
        same_off_mono [OF same_off_store64 [OF al(2) i(1)]]] by blast
  moreover have "\<forall>a \<in> set xs. pn a \<notin> {pn pt, pn p}"
  proof
    fix a assume a: "a \<in> set xs"
    have "a \<noteq> p" "a \<noteq> pt" "page_aligned a" using a inv dj K by (auto simp: kinv_def)
    then show "pn a \<notin> {pn pt, pn p}" using page_aligned_pn_inj al by blast
  qed
  ultimately show "kinv ((snd (kalloc s))\<lparr>mem := m\<rparr>) xs" by (rule kinv_cong [OF c(2)])
qed

lemma walk_loop_alloc:
  assumes "kinv s xs" "ptwf (kpage s) (mem s) l pt" "tabs (mem s) l pt \<inter> set xs = {}"
    and "walk_loop l pt va True s = (a, s')"
  shows "\<exists>m f ys zs. s' = s\<lparr>mem := m, freelist := f\<rparr> \<and> xs = ys @ zs \<and> kinv s' zs \<and>
    pt_grows (kpage s) (mem s) m l pt ys \<and> (if a = 0 then zs = [] \<and> length ys < l else wl m l pt va = a)"
  using assms
proof (induction l arbitrary: pt s xs)
  case 0
  have "pte_addr pt 0 va \<noteq> 0"
    using kpage_nz [OF 0(1), of pt] 0(2) by (intro pte_addr_nz) auto
  moreover have "s' = s\<lparr>mem := mem s, freelist := freelist s\<rparr>" "a = pte_addr pt 0 va"
    using 0(4) by auto
  ultimately show ?case using 0(1,2) pt_grows_refl [OF 0(2)] by fastforce
next
  case (Suc l)
  let ?m = "mem s" and ?i = "unat (PX (Suc l) va)"
  have K: "\<And>q. kpage s q \<Longrightarrow> page_aligned q" by (simp add: kpage_def)
  show ?case
  proof (cases "?i \<in> kids ?m pt")
    case True
    have w: "walk_loop l (kid ?m pt ?i) va True s = (a, s')"
      using Suc.prems(4) True by (simp add: Let_def PX_kids)
    have "ptwf (kpage s) ?m l (kid ?m pt ?i)" "tabs ?m l (kid ?m pt ?i) \<inter> set xs = {}"
      using Suc.prems(2,3) True by auto
    then obtain m f ys zs where r: "s' = s\<lparr>mem := m, freelist := f\<rparr>" "xs = ys @ zs" "kinv s' zs"
      "pt_grows (kpage s) ?m m l (kid ?m pt ?i) ys"
      "if a = 0 then zs = [] \<and> length ys < l else wl m l (kid ?m pt ?i) va = a"
      using Suc.IH [OF Suc.prems(1) _ _ w] by blast
    have ys: "\<forall>y \<in> set ys. kpage s y" "set ys \<inter> tabs ?m (Suc l) pt = {}"
      using Suc.prems(1,3) r(2) by (auto simp: kinv_def)
    note gk = pt_grows_kid [OF K Suc.prems(2) True r(4) ys]
    have "if a = 0 then zs = [] \<and> length ys < Suc l else wl m (Suc l) pt va = a"
      using r(5) gk(2) [of va] by (cases "a = 0") simp_all
    then show ?thesis using r(1-3) gk(1) by blast
  next
    case False
    note i = PX_less [of "Suc l" va] False
    show ?thesis
    proof (cases xs)
      case Nil
      then have "(a, s') = (0, s)"
        using Suc.prems(1,4) False kalloc_Nil [of s] by (simp add: Let_def PX_kids)
      moreover have "s = s\<lparr>mem := mem s, freelist := freelist s\<rparr>" by simp
      ultimately show ?thesis using Suc.prems(1) Nil pt_grows_refl [OF Suc.prems(2)] by fastforce
    next
      case (Cons p xs')
      note inv = Suc.prems(1) [unfolded Cons]
      define m1 where "m1 = store64 (memset (mem (snd (kalloc s))) p 0 4096)
        (pt + of_nat (8 * ?i)) (PA2PTE p OR PTE_V)"
      have m1: "m1 = store64 (memset (mem (snd (kalloc s))) p 0 4096) (pte_addr pt (Suc l) va)
          (PA2PTE p OR PTE_V)"
        unfolding m1_def pte_addr_ent ..
      let ?s1 = "(snd (kalloc s))\<lparr>mem := m1\<rparr>"
      note t = walk_new_table [OF inv Suc.prems(2) Suc.prems(3) [unfolded Cons] i, folded m1_def]
      note c = kalloc_Cons [OF inv]
      have kp: "kpage ?s1 = kpage s" by (simp add: fun_eq_iff c(1))
      have w: "walk_loop l p va True ?s1 = (a, s')"
        using Suc.prems(4) False c(1,4) by (simp add: Let_def PX_kids m1)
      have g: "ptwf (kpage s) m1 (Suc l) pt" "tabs m1 (Suc l) pt = tabs ?m (Suc l) pt \<union> {p}"
        using t(2) by (auto simp: pt_grows_def)
      have wfp: "ptwf (kpage ?s1) (mem ?s1) l p" using g(1) t(3,4) kp by auto
      have "p \<notin> set xs'" using inv by (simp add: kinv_def)
      then have dj: "tabs m1 (Suc l) pt \<inter> set xs' = {}"
        unfolding g(2) using Suc.prems(3) Cons by (simp del: tabs.simps)
      have "tabs m1 l p \<subseteq> tabs m1 (Suc l) pt" using t(3,4) by auto
      then have "tabs m1 l p \<inter> set xs' = {}" using dj by blast
      then obtain m f ys zs where r: "s' = ?s1\<lparr>mem := m, freelist := f\<rparr>" "xs' = ys @ zs"
        "kinv s' zs" "pt_grows (kpage s) m1 m l p ys"
        "if a = 0 then zs = [] \<and> length ys < l else wl m l p va = a"
        using Suc.IH [OF t(1) wfp _ w] kp by auto
      have ys: "\<forall>y \<in> set ys. kpage s y" "set ys \<inter> tabs m1 (Suc l) pt = {}"
        using inv r(2) dj by (auto simp: kinv_def simp del: tabs.simps)
      have "pt_grows (kpage s) m1 m l (kid m1 pt ?i) ys" using r(4) t(4) by simp
      note gk = pt_grows_kid [OF K g(1) t(3) this ys, unfolded t(4)]
      have "pt_grows (kpage s) ?m m (Suc l) pt (p # ys)"
        using pt_grows_trans [OF t(2) gk(1)] by simp
      moreover have "s' = s\<lparr>mem := m, freelist := f\<rparr>" using r(1) c(1) by simp
      moreover have "if a = 0 then zs = [] \<and> length (p # ys) < Suc l else wl m (Suc l) pt va = a"
        using r(5) gk(2) [of va] by simp
      moreover have "xs = (p # ys) @ zs" using Cons r(2) by simp
      ultimately show ?thesis using r(3) by blast
    qed
  qed
qed

section \<open>Address spaces\<close>

text \<open>A page table and the free list, with no page in both.\<close>

definition pt_inv :: "'a kmem_scheme \<Rightarrow> addr \<Rightarrow> addr list \<Rightarrow> bool" where
  "pt_inv s pt xs \<longleftrightarrow> kinv s xs \<and> ptwf (kpage s) (mem s) 2 pt \<and> tabs (mem s) 2 pt \<inter> set xs = {}"

abbreviation pte_of :: "'a kmem_scheme \<Rightarrow> addr \<Rightarrow> u64 \<Rightarrow> u64" where
  "pte_of s pt va \<equiv> pte_val (mem s) 2 pt va"

text \<open>A change confined to the table pages and to pages \<open>ys\<close> taken from the free list.\<close>

definition pt_step ::
  "'a kmem_scheme \<Rightarrow> addr \<Rightarrow> addr list \<Rightarrow> 'a kmem_scheme \<Rightarrow> addr list \<Rightarrow> addr list \<Rightarrow> bool" where
  "pt_step s pt xs s' ys zs \<longleftrightarrow> (\<exists>m f. s' = s\<lparr>mem := m, freelist := f\<rparr>) \<and> xs = ys @ zs \<and>
     pt_inv s' pt zs \<and> tabs (mem s') 2 pt = tabs (mem s) 2 pt \<union> set ys \<and>
     same_off (pn ` (tabs (mem s) 2 pt \<union> set ys)) (mem s) (mem s')"

lemma pt_step_refl: "pt_inv s pt xs \<Longrightarrow> pt_step s pt xs s [] xs"
proof -
  have "s = s\<lparr>mem := mem s, freelist := freelist s\<rparr>" by simp
  then show "pt_inv s pt xs \<Longrightarrow> pt_step s pt xs s [] xs"
    unfolding pt_step_def by (metis append_Nil list.set(1) same_off_refl sup_bot.right_neutral)
qed

lemma pt_step_trans:
  assumes a: "pt_step s pt xs s1 ys zs" and b: "pt_step s1 pt zs s2 ys' zs'"
  shows "pt_step s pt xs s2 (ys @ ys') zs'"
proof -
  let ?P = "pn ` (tabs (mem s) 2 pt \<union> set (ys @ ys'))"
  have "same_off ?P (mem s) (mem s1)" "same_off ?P (mem s1) (mem s2)"
    using a b unfolding pt_step_def by (auto elim!: same_off_mono)
  then have "same_off ?P (mem s) (mem s2)" by (rule same_off_trans)
  moreover obtain m f m' f' where "s1 = s\<lparr>mem := m, freelist := f\<rparr>"
    "s2 = s1\<lparr>mem := m', freelist := f'\<rparr>"
    using a b unfolding pt_step_def by blast
  then have "s2 = s\<lparr>mem := m', freelist := f'\<rparr>" by simp
  ultimately show ?thesis using a b unfolding pt_step_def by auto
qed

lemma PX_all_iff:
  assumes "x < MAXVA" "va < MAXVA"
  shows "(\<forall>k\<le>2. PX k x = PX k va) \<longleftrightarrow> pn x = pn va"
proof
  assume "\<forall>k\<le>2. PX k x = PX k va"
  then show "pn x = pn va" using PX_inj [OF assms] by auto
qed (auto intro: PX_cong)

lemma walk_noalloc:
  "va < MAXVA \<Longrightarrow> walk pt va False s = Ret (wl (mem s) 2 pt va, s)"
  by (simp add: walk_def not_le)

lemma walk_alloc:
  assumes "pt_inv s pt xs" "va < MAXVA"
  shows "\<exists>a s' ys zs. walk pt va True s = Ret (a, s') \<and> pt_step s pt xs s' ys zs \<and>
    (\<forall>x. pte_of s' pt x = pte_of s pt x) \<and>
    (if a = 0 then zs = [] \<and> length ys < 2 else wl (mem s') 2 pt va = a)"
proof -
  obtain a s' where w: "walk_loop 2 pt va True s = (a, s')" by fastforce
  have i: "kinv s xs" "ptwf (kpage s) (mem s) 2 pt" "tabs (mem s) 2 pt \<inter> set xs = {}"
    using assms(1) by (auto simp: pt_inv_def)
  obtain m f ys zs where r: "s' = s\<lparr>mem := m, freelist := f\<rparr>" "xs = ys @ zs" "kinv s' zs"
    "pt_grows (kpage s) (mem s) m 2 pt ys" "if a = 0 then zs = [] \<and> length ys < 2 else wl m 2 pt va = a"
    using walk_loop_alloc [OF i w] by blast
  have "kpage s' = kpage s" using r(1) by (simp add: fun_eq_iff)
  moreover have "set ys \<inter> set zs = {}" using i(1) r(2) by (auto simp: kinv_def)
  ultimately have "pt_step s pt xs s' ys zs"
    using r i(3) by (auto simp: pt_step_def pt_inv_def pt_grows_def simp del: tabs.simps)
  moreover have "walk pt va True s = Ret (a, s')" using assms(2) w by (simp add: walk_def not_le)
  moreover have "\<forall>x. pte_of s' pt x = pte_of s pt x" using r by (simp add: pt_grows_def)
  moreover have "if a = 0 then zs = [] \<and> length ys < 2 else wl (mem s') 2 pt va = a" using r(1,5) by simp
  ultimately show ?thesis by blast
qed

text \<open>Writing the entry that \<open>walk\<close> found.\<close>

lemma pte_store:
  assumes inv: "pt_inv s pt xs" and va: "va < MAXVA" and a: "wl (mem s) 2 pt va \<noteq> 0"
    and s'_def: "s' = s\<lparr>mem := store64 (mem s) (wl (mem s) 2 pt va) v\<rparr>"
  shows "pt_step s pt xs s' [] xs"
    and "x < MAXVA \<Longrightarrow> pte_of s' pt x = (if pn x = pn va then v else pte_of s pt x)"
    and "wl (mem s') 2 pt x = wl (mem s) 2 pt x"
proof -
  have K: "\<And>q. kpage s q \<Longrightarrow> page_aligned q" by (simp add: kpage_def)
  have i: "kinv s xs" "ptwf (kpage s) (mem s) 2 pt" "tabs (mem s) 2 pt \<inter> set xs = {}"
    using inv by (auto simp: pt_inv_def)
  note l = leaf_store [OF K i(2) a refl]
  obtain t where t: "t \<in> tabs (mem s) 2 pt" "wl (mem s) 2 pt va = t + of_nat (8 * unat (PX 0 va))"
    using wl_in_tabs [OF a] by blast
  have al: "page_aligned t" using ptwf_tabs_K [OF i(2) t(1)] K by blast
  have so: "same_off {pn t} (mem s) (mem s')"
    unfolding s'_def t(2) using same_off_store64 [OF al PX_less] by simp
  have "\<forall>b \<in> set xs. pn b \<notin> {pn t}"
    using i t(1) al page_aligned_pn_inj K by (fastforce simp: kinv_def)
  then have "kinv s' xs" using kinv_cong [OF i(1) so] by (simp add: s'_def)
  moreover have "kpage s' = kpage s" by (simp add: s'_def fun_eq_iff)
  ultimately have "pt_inv s' pt xs" using l(1,2) i(3) by (simp add: pt_inv_def s'_def)
  moreover have "s' = s\<lparr>mem := mem s', freelist := freelist s\<rparr>" by (simp add: s'_def)
  moreover have "same_off (pn ` (tabs (mem s) 2 pt \<union> set [])) (mem s) (mem s')"
    by (rule same_off_mono [OF so]) (use t(1) in auto)
  ultimately show "pt_step s pt xs s' [] xs"
    using l(1) unfolding pt_step_def by (fastforce simp: s'_def)
  show "pte_of s' pt x = (if pn x = pn va then v else pte_of s pt x)" if "x < MAXVA"
    using l(4) [of v x] PX_all_iff [OF that va] by (simp add: s'_def)
  show "wl (mem s') 2 pt x = wl (mem s) 2 pt x" using l(3) by (simp add: s'_def)
qed

text \<open>Page \<open>i\<close> of a range that starts at \<open>a\<close>.\<close>

definition page_at :: "u64 \<Rightarrow> nat \<Rightarrow> u64" where
  "page_at a i = a + of_nat (4096 * i)"

lemma page_at_0 [simp]: "page_at a 0 = a"
  by (simp add: page_at_def)

lemma page_at_facts:
  assumes "page_aligned a" "unat a + 4096 * n < unat MAXVA" "i \<le> n"
  shows "unat (page_at a i) = unat a + 4096 * i" "page_at a i < MAXVA" "page_aligned (page_at a i)"
proof -
  have "unat a + 4096 * i < 274877906944" using assms(2,3) unat_MAXVA by linarith
  then show u: "unat (page_at a i) = unat a + 4096 * i"
    by (simp add: page_at_def unat_word_ariths unat_of_nat)
  then show "page_at a i < MAXVA" using assms(2,3) by (simp add: word_less_nat_alt)
  show "page_aligned (page_at a i)" using assms(1) by (simp add: page_aligned_unat u)
qed

lemma page_at_pn_inj:
  assumes "page_aligned a" "unat a + 4096 * n < unat MAXVA" "i \<le> n" "j \<le> n"
  shows "pn (page_at a i) = pn (page_at a j) \<longleftrightarrow> i = j"
  using page_at_facts [OF assms(1,2)] assms(3,4) page_aligned_pn_inj
  by (metis add_left_cancel mult_left_cancel zero_neq_numeral)

lemma page_at_Suc: "page_at (a + PGSIZE) i = page_at a (Suc i)"
  by (simp add: page_at_def PGSIZE_def algebra_simps)

lemma mappages_step:
  assumes inv: "pt_inv s pt xs" and a: "a < MAXVA" and free: "\<not> bit (pte_of s pt a) 0"
  shows "(\<exists>s' ys. pt_step s pt xs s' ys [] \<and> length xs < 2 \<and> (\<forall>x. pte_of s' pt x = pte_of s pt x) \<and>
      mappages_loop pt a l pa perm s = Ret (- 1, s')) \<or>
    (\<exists>s' ys zs. pt_step s pt xs s' ys zs \<and>
      (\<forall>x<MAXVA. pte_of s' pt x =
        (if pn x = pn a then PA2PTE pa OR perm OR PTE_V else pte_of s pt x)) \<and>
      mappages_loop pt a l pa perm s =
        (if a = l then Ret (0, s')
         else mappages_loop pt (a + PGSIZE) l (pa + PGSIZE) perm s'))"
proof -
  obtain e s1 ys zs where w: "walk pt a True s = Ret (e, s1)" and st: "pt_step s pt xs s1 ys zs"
    and same: "\<forall>x. pte_of s1 pt x = pte_of s pt x"
    and e: "if e = 0 then zs = [] \<and> length ys < 2 else wl (mem s1) 2 pt a = e"
    using walk_alloc [OF inv a] by blast
  show ?thesis
  proof (cases "e = 0")
    case True
    then have "zs = []" "length xs < 2" using e st by (auto simp: pt_step_def)
    then show ?thesis using True w st same by (auto simp: mappages_loop.simps [of pt a])
  next
    case False
    have inv1: "pt_inv s1 pt zs" using st by (simp add: pt_step_def)
    have nz: "wl (mem s1) 2 pt a \<noteq> 0" using e False by simp
    have "\<not> bit (load64 (mem s1) e) 0" using pte_val_wl [OF nz] e False same free by simp
    then have lp: "mappages_loop pt a l pa perm s =
        (let s = s1\<lparr>mem := store64 (mem s1) (wl (mem s1) 2 pt a) (PA2PTE pa OR perm OR PTE_V)\<rparr> in
         if a = l then Ret (0, s)
         else mappages_loop pt (a + PGSIZE) l (pa + PGSIZE) perm s)"
      using w False e by (simp add: mappages_loop.simps [of pt a] Let_def)
    let ?s = "s1\<lparr>mem := store64 (mem s1) (wl (mem s1) 2 pt a) (PA2PTE pa OR perm OR PTE_V)\<rparr>"
    have "pt_step s pt xs ?s (ys @ []) zs"
      using pt_step_trans [OF st pte_store(1) [OF inv1 a nz refl]] .
    moreover have "\<forall>x<MAXVA. pte_of ?s pt x =
        (if pn x = pn a then PA2PTE pa OR perm OR PTE_V else pte_of s pt x)"
      using pte_store(2) [OF inv1 a nz refl] same by simp
    ultimately show ?thesis using lp [unfolded Let_def] by blast
  qed
qed

lemma mappages_loop_ok:
  assumes "pt_inv s pt xs" "page_aligned a" "unat a + 4096 * n < unat MAXVA"
    and "\<forall>i\<le>n. \<not> bit (pte_of s pt (page_at a i)) 0"
  shows "\<exists>r s' ys zs. mappages_loop pt a (page_at a n) pa perm s = Ret (r, s') \<and>
    pt_step s pt xs s' ys zs \<and> (r = 0 \<or> r = - 1 \<and> zs = []) \<and>
    (r = 0 \<longrightarrow> (\<forall>i\<le>n. pte_of s' pt (page_at a i) = PA2PTE (page_at pa i) OR perm OR PTE_V)) \<and>
    (\<forall>x<MAXVA. (\<forall>i\<le>n. pn x \<noteq> pn (page_at a i)) \<longrightarrow> pte_of s' pt x = pte_of s pt x)"
  using assms
proof (induction n arbitrary: a pa s xs)
  case 0
  have a: "a < MAXVA" using 0(3) by (simp add: word_less_nat_alt)
  have fr: "\<not> bit (pte_of s pt a) 0" using 0(4) by simp
  show ?case
    using mappages_step [OF 0(1) a fr, of a pa perm] a
    by (elim disjE exE conjE) (auto 4 4)
next
  case (Suc n)
  note pg = page_at_facts [OF Suc.prems(2,3)]
  have a: "a < MAXVA" using pg(2) [of 0] by simp
  have free: "\<not> bit (pte_of s pt a) 0" using Suc.prems(4) by auto
  have ne: "a \<noteq> page_at a (Suc n)" using pg(1) [of "Suc n"] by auto
  from mappages_step [OF Suc.prems(1) a free, of "page_at a (Suc n)" pa perm] show ?case
  proof (elim disjE exE conjE)
    fix s1 ys
    assume "pt_step s pt xs s1 ys []" "\<forall>x. pte_of s1 pt x = pte_of s pt x"
      "mappages_loop pt a (page_at a (Suc n)) pa perm s = Ret (- 1, s1)"
    then show ?case by auto
  next
    fix s1 ys zs
    assume st: "pt_step s pt xs s1 ys zs"
      and val: "\<forall>x<MAXVA. pte_of s1 pt x =
        (if pn x = pn a then PA2PTE pa OR perm OR PTE_V else pte_of s pt x)"
      and lp: "mappages_loop pt a (page_at a (Suc n)) pa perm s =
        (if a = page_at a (Suc n) then Ret (0, s1)
         else mappages_loop pt (a + PGSIZE) (page_at a (Suc n)) (pa + PGSIZE) perm s1)"
    have inv1: "pt_inv s1 pt zs" using st by (simp add: pt_step_def)
    have nx: "page_aligned (a + PGSIZE)" "unat (a + PGSIZE) = unat a + 4096"
      using pg(1,3) [of 1] by (simp_all add: page_at_def PGSIZE_def)
    have b: "unat (a + PGSIZE) + 4096 * n < unat MAXVA" using nx Suc.prems(3) by simp
    have d: "pn (page_at a (Suc i)) \<noteq> pn a" if "i \<le> n" for i
      using page_at_pn_inj [OF Suc.prems(2,3), of "Suc i" 0] that by simp
    have "\<forall>i\<le>n. \<not> bit (pte_of s1 pt (page_at (a + PGSIZE) i)) 0"
      unfolding page_at_Suc using val d pg(2) Suc.prems(4) by simp
    from Suc.IH [OF inv1 nx(1) b this, of "pa + PGSIZE"]
    obtain r s2 ys' zs' where r: "mappages_loop pt (a + PGSIZE) (page_at a (Suc n)) (pa + PGSIZE) perm s1 =
        Ret (r, s2)" "pt_step s1 pt zs s2 ys' zs'" "r = 0 \<or> r = - 1 \<and> zs' = []"
      and mapped: "r = 0 \<Longrightarrow> \<forall>i\<le>n. pte_of s2 pt (page_at a (Suc i)) =
        PA2PTE (page_at pa (Suc i)) OR perm OR PTE_V"
      and same: "\<forall>x<MAXVA. (\<forall>i\<le>n. pn x \<noteq> pn (page_at a (Suc i))) \<longrightarrow>
        pte_of s2 pt x = pte_of s1 pt x"
      unfolding page_at_Suc by blast
    have "mappages_loop pt a (page_at a (Suc n)) pa perm s = Ret (r, s2)"
      using lp ne r(1) by simp
    moreover have "pt_step s pt xs s2 (ys @ ys') zs'" using pt_step_trans [OF st r(2)] .
    moreover have "pte_of s2 pt (page_at a i) = PA2PTE (page_at pa i) OR perm OR PTE_V"
      if "r = 0" "i \<le> Suc n" for i
    proof (cases i)
      case 0
      have "\<forall>i\<le>n. pn a \<noteq> pn (page_at a (Suc i))" using d by metis
      then show ?thesis using 0 same val a by simp
    next
      case (Suc j)
      then show ?thesis using that mapped by simp
    qed
    moreover have "pte_of s2 pt x = pte_of s pt x"
      if "x < MAXVA" "\<forall>i\<le>Suc n. pn x \<noteq> pn (page_at a i)" for x
    proof -
      have "pn x \<noteq> pn a" using that(2)[rule_format, of 0] by simp
      moreover have "\<forall>i\<le>n. pn x \<noteq> pn (page_at a (Suc i))" using that(2) by blast
      ultimately show ?thesis using same val that(1) by simp
    qed
    ultimately show ?thesis using r(3) by blast
  qed
qed

lemma mappages_ok:
  assumes "pt_inv s pt xs" "page_aligned va" "0 < n" "unat va + 4096 * n \<le> unat MAXVA"
    and "\<forall>i<n. \<not> bit (pte_of s pt (page_at va i)) 0"
  shows "\<exists>r s' ys zs. mappages pt va (of_nat (4096 * n)) pa perm s = Ret (r, s') \<and>
    pt_step s pt xs s' ys zs \<and> (r = 0 \<or> r = - 1 \<and> zs = []) \<and>
    (r = 0 \<longrightarrow> (\<forall>i<n. pte_of s' pt (page_at va i) = PA2PTE (page_at pa i) OR perm OR PTE_V)) \<and>
    (\<forall>x<MAXVA. (\<forall>i<n. pn x \<noteq> pn (page_at va i)) \<longrightarrow> pte_of s' pt x = pte_of s pt x)"
proof -
  obtain k where n: "n = Suc k" using assms(3) by (cases n) auto
  have "4096 * n \<le> 274877906944" using assms(4) unat_MAXVA by linarith
  then have u: "unat (of_nat (4096 * n) :: u64) = 4096 * n"
    by (simp add: unat_of_nat del: of_nat_mult)
  have sz: "(of_nat (4096 * n) :: u64) mod PGSIZE = 0" "(of_nat (4096 * n) :: u64) \<noteq> 0"
    using u assms(3) by (simp_all add: word_unat_eq_iff unat_mod PGSIZE_def del: of_nat_mult)
  have "va + of_nat (4096 * n) - PGSIZE = page_at va k"
    by (simp add: page_at_def PGSIZE_def n algebra_simps)
  then have "mappages pt va (of_nat (4096 * n)) pa perm s =
      mappages_loop pt va (page_at va k) pa perm s"
    using assms(2) sz by (simp add: mappages_def page_aligned_def del: of_nat_mult)
  then show ?thesis
    using mappages_loop_ok [OF assms(1,2), of k pa perm] assms(4,5) by (simp add: n less_Suc_eq_le)
qed

text \<open>The pages that unmapping \<open>n\<close> pages from \<open>a\<close> releases.\<close>

definition mapped_pas :: "'a kmem_scheme \<Rightarrow> addr \<Rightarrow> u64 \<Rightarrow> nat \<Rightarrow> addr list" where
  "mapped_pas s pt a n =
     [PTE2PA (pte_of s pt (page_at a i)). i \<leftarrow> [0..<n], bit (pte_of s pt (page_at a i)) 0]"

lemma mapped_pas_Suc:
  "mapped_pas s pt a (Suc n) =
     (if bit (pte_of s pt a) 0 then [PTE2PA (pte_of s pt a)] else []) @
     mapped_pas s pt (a + PGSIZE) n"
  unfolding mapped_pas_def page_at_Suc
  by (simp only: upt_conv_Cons [OF zero_less_Suc] map_Suc_upt [symmetric])
    (simp add: comp_def)

lemma mapped_pas_cong:
  assumes "\<And>i. i < n \<Longrightarrow> pte_of s' pt (page_at a i) = pte_of s pt (page_at a i)"
  shows "mapped_pas s' pt a n = mapped_pas s pt a n"
  unfolding mapped_pas_def using assms by (intro arg_cong [where f = concat] map_cong) auto

lemma pt_kfree:
  assumes inv: "pt_inv s pt xs" and pa: "kpage s pa" "pa \<notin> set xs" "pa \<notin> tabs (mem s) 2 pt"
  shows "\<exists>m. kfree pa s = Ret (s\<lparr>mem := m, freelist := pa\<rparr>) \<and>
    pt_inv (s\<lparr>mem := m, freelist := pa\<rparr>) pt (pa # xs) \<and> same_off {pn pa} (mem s) m \<and>
    tabs m 2 pt = tabs (mem s) 2 pt \<and> (\<forall>x. pte_val m 2 pt x = pte_of s pt x) \<and>
    (\<forall>x. wl m 2 pt x = wl (mem s) 2 pt x)"
proof -
  have i: "kinv s xs" "ptwf (kpage s) (mem s) 2 pt" "tabs (mem s) 2 pt \<inter> set xs = {}"
    using inv by (auto simp: pt_inv_def)
  have K: "\<And>q. kpage s q \<Longrightarrow> page_aligned q" by (simp add: kpage_def)
  obtain m where m: "kfree pa s = Ret (s\<lparr>mem := m, freelist := pa\<rparr>)" "same_off {pn pa} (mem s) m"
    "kinv (s\<lparr>mem := m, freelist := pa\<rparr>) (pa # xs)"
    using kfree_ok [OF i(1) pa(1,2)] by blast
  have "\<forall>t \<in> tabs (mem s) 2 pt. pn t \<notin> {pn pa}"
    using ptwf_tabs_K [OF i(2)] K pa(1,3) page_aligned_pn_inj by (metis singletonD)
  note f = pt_frame [OF K i(2) m(2) this]
  have "kpage (s\<lparr>mem := m, freelist := pa\<rparr>) = kpage s" by (simp add: fun_eq_iff)
  then have "pt_inv (s\<lparr>mem := m, freelist := pa\<rparr>) pt (pa # xs)"
    using m(3) f(1,2) i(3) pa(3) by (simp add: pt_inv_def)
  then show ?thesis using m f by blast
qed

end
