(* ===== verification/Uvm.thy ===== *)
theory Uvm
  imports Vm
begin

text \<open>
  What unmapping, growing and copying a user address space do to the page table and to the
  free list (\<^verbatim>\<open>uvmunmap\<close>, \<^verbatim>\<open>uvmalloc\<close>, \<^verbatim>\<open>uvmcreate\<close> and \<^verbatim>\<open>walkaddr\<close> of
  \<^verbatim>\<open>kernel/vm.c\<close>; the definitions are in \<open>Vm\<close>).  A page that \<^verbatim>\<open>uvmunmap\<close> releases
  returns to the free list exactly once, and every page table entry outside the range keeps
  its value.
\<close>

section \<open>Unmapping\<close>

text \<open>A change to memory and to the free list only.\<close>

definition mem_only :: "'a kmem_scheme \<Rightarrow> 'a kmem_scheme \<Rightarrow> bool" where
  "mem_only s s' \<longleftrightarrow> kend s' = kend s \<and> kmem.more s' = kmem.more s"

lemma mem_only_eq: "mem_only s s' \<Longrightarrow> s' = s\<lparr>mem := mem s', freelist := freelist s'\<rparr>"
  by (simp add: mem_only_def)

lemma mem_only_refl [simp]: "mem_only s s"
  by (simp add: mem_only_def)

lemma mem_only_trans [trans]: "mem_only s s' \<Longrightarrow> mem_only s' s'' \<Longrightarrow> mem_only s s''"
  by (simp add: mem_only_def)

lemma mem_only_update [simp]:
  "mem_only s (s'\<lparr>freelist := f\<rparr>) = mem_only s s'" "mem_only s (s'\<lparr>mem := m\<rparr>) = mem_only s s'"
  by (simp_all add: mem_only_def)

lemma mem_only_kpage: "mem_only s s' \<Longrightarrow> kpage s' = kpage s"
  by (simp add: mem_only_def kpage_def fun_eq_iff)

lemma pte_val_cong: "pn x = pn y \<Longrightarrow> pte_val m l pt x = pte_val m l pt y"
  by (induction l arbitrary: pt) (simp_all add: PX_cong [of x y] Let_def)

lemma page_at_less:
  assumes "page_aligned a" "unat a + 4096 * n \<le> unat MAXVA" "i < n"
  shows "page_at a i < MAXVA" "page_aligned (page_at a i)"
  using page_at_facts [OF assms(1), of i i] assms(2,3) by auto

lemma unat_page_at:
  assumes "unat a + 4096 * n \<le> unat MAXVA"
  shows "unat (page_at a n) = unat a + 4096 * n"
proof -
  have "unat a + 4096 * n \<le> 274877906944" using assms unat_MAXVA by simp
  then show ?thesis by (simp add: page_at_def unat_word_ariths unat_of_nat)
qed

text \<open>The page that one iteration releases.\<close>

abbreviation released :: "bool \<Rightarrow> 'a kmem_scheme \<Rightarrow> addr \<Rightarrow> u64 \<Rightarrow> nat \<Rightarrow> addr list" where
  "released do_free s pt a n \<equiv> (if do_free then mapped_pas s pt a n else [])"

definition releasable :: "'a kmem_scheme \<Rightarrow> addr \<Rightarrow> addr list \<Rightarrow> addr list \<Rightarrow> bool" where
  "releasable s pt xs ps \<longleftrightarrow> distinct ps \<and>
     (\<forall>p \<in> set ps. kpage s p \<and> p \<notin> set xs \<and> p \<notin> tabs (mem s) 2 pt)"

lemma uvmunmap_step:
  assumes inv: "pt_inv s pt xs" and a: "a < MAXVA" "a < e"
    and ok: "releasable s pt xs (released do_free s pt a 1)"
  shows "\<exists>s'. uvmunmap_loop pt a e do_free s = uvmunmap_loop pt (a + PGSIZE) e do_free s' \<and>
    mem_only s s' \<and> pt_inv s' pt (released do_free s pt a 1 @ xs) \<and>
    tabs (mem s') 2 pt = tabs (mem s) 2 pt \<and>
    (\<forall>x<MAXVA. pte_of s' pt x =
      (if pn x = pn a \<and> bit (pte_of s pt x) 0 then 0 else pte_of s pt x))"
proof (cases "bit (pte_of s pt a) 0")
  case False
  have c: "pte_of s pt x = pte_of s pt a" if "pn x = pn a" for x
    using that by (rule pte_val_cong)
  have "load64 (mem s) (wl (mem s) 2 pt a) = pte_of s pt a" if "wl (mem s) 2 pt a \<noteq> 0"
    using pte_val_wl [OF that] .
  then have eq: "uvmunmap_loop pt a e do_free s = uvmunmap_loop pt (a + PGSIZE) e do_free s"
    using a False by (simp add: uvmunmap_loop.simps [of pt a] walk_noalloc)
  have r: "released do_free s pt a 1 = []" using False by (simp add: mapped_pas_def)
  have "pte_of s pt x = (if pn x = pn a \<and> bit (pte_of s pt x) 0 then 0 else pte_of s pt x)" for x
    using c [of x] False by auto
  then show ?thesis
    unfolding r using eq inv by (intro exI [of _ s] conjI) auto
next
  case True
  have K: "ptwf (kpage s) (mem s) 2 pt" "\<And>p. kpage s p \<Longrightarrow> page_aligned p \<and> p \<noteq> 0"
    using inv kpage_nz by (auto simp: pt_inv_def)
  have nz: "wl (mem s) 2 pt a \<noteq> 0"
    using pte_val_no_table [OF _ K] True by force
  let ?pa = "PTE2PA (pte_of s pt a)"
  have r: "released do_free s pt a 1 = (if do_free then [?pa] else [])"
    using True by (simp add: mapped_pas_def)
  obtain s1 where s1: "(if do_free then kfree ?pa s else Ret s) = Ret s1"
    "mem_only s s1" "pt_inv s1 pt (released do_free s pt a 1 @ xs)"
    "tabs (mem s1) 2 pt = tabs (mem s) 2 pt" "\<forall>x. pte_of s1 pt x = pte_of s pt x"
    "wl (mem s1) 2 pt a = wl (mem s) 2 pt a"
  proof (cases do_free)
    case True
    then have kp: "kpage s ?pa" "?pa \<notin> set xs" "?pa \<notin> tabs (mem s) 2 pt"
      using ok r by (auto simp: releasable_def)
    obtain m where m: "kfree ?pa s = Ret (s\<lparr>mem := m, freelist := ?pa\<rparr>)"
      "pt_inv (s\<lparr>mem := m, freelist := ?pa\<rparr>) pt (?pa # xs)"
      "tabs m 2 pt = tabs (mem s) 2 pt" "\<forall>x. pte_val m 2 pt x = pte_of s pt x"
      "\<forall>x. wl m 2 pt x = wl (mem s) 2 pt x"
      using pt_kfree [OF inv kp] by (elim exE conjE) (rule that)
    have r': "released do_free s pt a 1 = [?pa]" using r True by simp
    show thesis
    proof (rule that [of "s\<lparr>mem := m, freelist := ?pa\<rparr>"], unfold r')
      show "(if do_free then kfree ?pa s else Ret s) = Ret (s\<lparr>mem := m, freelist := ?pa\<rparr>)"
        using True m(1) by simp
      show "pt_inv (s\<lparr>mem := m, freelist := ?pa\<rparr>) pt ([?pa] @ xs)" using m(2) by simp
    qed (use m(3-5) in simp_all)
  next
    case False
    then show thesis by (intro that [of s]) (use inv in simp_all)
  qed
  let ?s = "s1\<lparr>mem := store64 (mem s1) (wl (mem s1) 2 pt a) 0\<rparr>"
  have nz1: "wl (mem s1) 2 pt a \<noteq> 0" using nz s1(6) by simp
  note ps = pte_store [OF s1(3) a(1) nz1 refl, where v = 0]
  have "uvmunmap_loop pt a e do_free s = uvmunmap_loop pt (a + PGSIZE) e do_free ?s"
    using a True nz s1(1,6) pte_val_wl [OF nz]
    by (cases do_free) (simp_all add: uvmunmap_loop.simps [of pt a] walk_noalloc)
  moreover have "mem_only s ?s" using s1(2) by simp
  moreover have "pt_inv ?s pt (released do_free s pt a 1 @ xs)"
    "tabs (mem ?s) 2 pt = tabs (mem s) 2 pt"
    using ps(1) s1(4) by (simp_all add: pt_step_def)
  moreover have "\<forall>x<MAXVA. pte_of ?s pt x =
      (if pn x = pn a \<and> bit (pte_of s pt x) 0 then 0 else pte_of s pt x)"
  proof (intro allI impI)
    fix x assume x: "x < MAXVA"
    have "pn x = pn a \<Longrightarrow> pte_of s pt x = pte_of s pt a" by (rule pte_val_cong)
    then show "pte_of ?s pt x = (if pn x = pn a \<and> bit (pte_of s pt x) 0 then 0 else pte_of s pt x)"
      using ps(2) [OF x] s1(5) True by auto
  qed
  ultimately show ?thesis by blast
qed

lemma released_Suc:
  "released do_free s pt a (Suc n) = released do_free s pt a 1 @ released do_free s pt (a + PGSIZE) n"
  using mapped_pas_Suc [of s pt a n] mapped_pas_Suc [of s pt a 0] by (simp add: mapped_pas_def)

lemma uvmunmap_loop_ok:
  assumes "pt_inv s pt xs" "page_aligned a" "unat a + 4096 * n \<le> unat MAXVA"
    and "releasable s pt xs (released do_free s pt a n)"
  shows "\<exists>s'. uvmunmap_loop pt a (page_at a n) do_free s = Ret s' \<and>
    mem_only s s' \<and> pt_inv s' pt (rev (released do_free s pt a n) @ xs) \<and>
    tabs (mem s') 2 pt = tabs (mem s) 2 pt \<and>
    (\<forall>x<MAXVA. pte_of s' pt x =
      (if (\<exists>i<n. pn x = pn (page_at a i)) \<and> bit (pte_of s pt x) 0 then 0 else pte_of s pt x))"
  using assms
proof (induction n arbitrary: a s xs)
  case 0
  then show ?case
    by (auto simp: uvmunmap_loop.simps [of pt a] mapped_pas_def)
next
  case (Suc n)
  let ?r = "released do_free s pt a"
  have a: "a < MAXVA" using page_at_less(1) [OF Suc.prems(2,3), of 0] by simp
  have lt: "a < page_at a (Suc n)"
    using unat_page_at [OF Suc.prems(3)] by (simp add: word_less_nat_alt)
  have nx: "page_aligned (a + PGSIZE)" "unat (a + PGSIZE) = unat a + 4096"
    using page_at_facts(1,3) [OF Suc.prems(2), of 1 1] unat_add_PGSIZE [OF a] Suc.prems(2)
    by (simp_all add: page_aligned_unat)
  have b: "unat (a + PGSIZE) + 4096 * n \<le> unat MAXVA" using nx Suc.prems(3) by simp
  have ok: "releasable s pt xs (?r 1)"
    using Suc.prems(4) unfolding released_Suc by (simp add: releasable_def)
  obtain s1 where s1: "uvmunmap_loop pt a (page_at a (Suc n)) do_free s =
      uvmunmap_loop pt (a + PGSIZE) (page_at a (Suc n)) do_free s1"
    "mem_only s s1" "pt_inv s1 pt (?r 1 @ xs)"
    "tabs (mem s1) 2 pt = tabs (mem s) 2 pt"
    and val: "\<forall>x<MAXVA. pte_of s1 pt x =
      (if pn x = pn a \<and> bit (pte_of s pt x) 0 then 0 else pte_of s pt x)"
    using uvmunmap_step [OF Suc.prems(1) a lt ok] by blast
  have d: "pn (page_at a (Suc i)) \<noteq> pn a" "page_at a (Suc i) < MAXVA" if "i < n" for i
    using page_at_pn_inj [OF Suc.prems(2), of "Suc i" "Suc i" 0]
      page_at_less(1) [OF Suc.prems(2,3), of "Suc i"] Suc.prems(3) that by auto
  have "pte_of s1 pt (page_at (a + PGSIZE) i) = pte_of s pt (page_at (a + PGSIZE) i)" if "i < n" for i
    using val d [OF that] unfolding page_at_Suc by simp
  then have rn: "released do_free s1 pt (a + PGSIZE) n = released do_free s pt (a + PGSIZE) n"
    using mapped_pas_cong [of n s1 pt "a + PGSIZE" s] by simp
  have "releasable s1 pt (?r 1 @ xs) (released do_free s1 pt (a + PGSIZE) n)"
    unfolding rn using Suc.prems(4) s1(4) mem_only_kpage [OF s1(2)]
    unfolding released_Suc releasable_def by auto
  from Suc.IH [OF s1(3) nx(1) b this]
  obtain s2 where s2: "uvmunmap_loop pt (a + PGSIZE) (page_at a (Suc n)) do_free s1 = Ret s2"
    "mem_only s1 s2"
    "pt_inv s2 pt (rev (released do_free s pt (a + PGSIZE) n) @ ?r 1 @ xs)"
    "tabs (mem s2) 2 pt = tabs (mem s1) 2 pt"
    and val2: "\<forall>x<MAXVA. pte_of s2 pt x =
      (if (\<exists>i<n. pn x = pn (page_at a (Suc i))) \<and> bit (pte_of s1 pt x) 0 then 0
       else pte_of s1 pt x)"
    unfolding rn page_at_Suc by blast
  have "rev (?r (Suc n)) @ xs = rev (released do_free s pt (a + PGSIZE) n) @ ?r 1 @ xs"
    unfolding released_Suc by (simp add: mapped_pas_def)
  moreover have "mem_only s s2" using s1(2) s2(2) by (rule mem_only_trans)
  moreover have "\<forall>x<MAXVA. pte_of s2 pt x =
      (if (\<exists>i<Suc n. pn x = pn (page_at a i)) \<and> bit (pte_of s pt x) 0 then 0 else pte_of s pt x)"
    using val val2 by (auto simp: less_Suc_eq_0_disj)
  ultimately show ?case using s1 s2 by auto
qed

lemma uvmunmap_ok:
  assumes "pt_inv s pt xs" "page_aligned va" "unat va + 4096 * n \<le> unat MAXVA"
    and "releasable s pt xs (released do_free s pt va n)"
  shows "\<exists>s'. uvmunmap pt va (of_nat n) do_free s = Ret s' \<and> mem_only s s' \<and>
    pt_inv s' pt (rev (released do_free s pt va n) @ xs) \<and>
    tabs (mem s') 2 pt = tabs (mem s) 2 pt \<and>
    (\<forall>x<MAXVA. pte_of s' pt x =
      (if (\<exists>i<n. pn x = pn (page_at va i)) \<and> bit (pte_of s pt x) 0 then 0 else pte_of s pt x))"
proof -
  have "va + of_nat n * PGSIZE = page_at va n" by (simp add: page_at_def PGSIZE_def algebra_simps)
  then have "uvmunmap pt va (of_nat n) do_free s = uvmunmap_loop pt va (page_at va n) do_free s"
    using assms(2) by (simp add: uvmunmap_def page_aligned_def)
  then show ?thesis using uvmunmap_loop_ok [OF assms] by simp
qed

section \<open>Properties\<close>

text \<open>An empty page table at a page of its own, with two free pages.\<close>

abbreviation root_page :: addr where "root_page \<equiv> 0x87FFD000"

lemma two_pages_pt_inv: "pt_inv two_pages root_page [0x87FFE000, 0x87FFF000]"
  and two_pages_pte: "pte_of two_pages root_page x = 0"
  and two_pages_tabs: "tabs (mem two_pages) 2 root_page = {root_page}"
proof -
  have so: "same_off {pn 0x87FFE000} (\<lambda>_. 0) (mem two_pages)"
    unfolding two_pages_def kmem.select_convs
    by (rule same_off_store64_0) (simp add: page_aligned_def PGSIZE_def)
  have al: "page_aligned root_page" "pn root_page \<notin> {pn 0x87FFE000}"
    by (simp_all add: page_aligned_def PGSIZE_def pn_def)
  have z: "ent (mem two_pages) root_page i = 0" if "i < 512" for i
    using ent_same_off [OF so al that] by (simp add: ent_def)
  have k: "kpage two_pages root_page"
    by (simp add: two_pages_def kpage_def page_aligned_def riscv_consts)
  note t = zero_table [of "mem two_pages" root_page "kpage two_pages", OF z k]
  show "pt_inv two_pages root_page [0x87FFE000, 0x87FFF000]"
    using two_pages_kinv t(1,2) by (simp add: pt_inv_def)
  show "pte_of two_pages root_page x = 0" "tabs (mem two_pages) 2 root_page = {root_page}"
    using t(2,3) by auto
qed

text \<open>One page is mapped in that table.\<close>

lemma one_mapped:
  "\<exists>s zs. mappages root_page 0x3000 PGSIZE 0x87FFC000 (PTE_R OR PTE_U) two_pages = Ret (0, s) \<and>
     pt_inv s root_page zs \<and> PTE2PA (pte_of s root_page 0x3000) = 0x87FFC000 \<and>
     bit (pte_of s root_page 0x3000) 0 \<and>
     (\<forall>x<MAXVA. pn x \<noteq> pn 0x3000 \<longrightarrow> pte_of s root_page x = 0) \<and>
     releasable s root_page zs [0x87FFC000]"
proof -
  have m: "mappages root_page 0x3000 PGSIZE 0x87FFC000 (PTE_R OR PTE_U) two_pages =
      mappages_loop root_page 0x3000 0x3000 0x87FFC000 (PTE_R OR PTE_U) two_pages"
    by (simp add: mappages_def PGSIZE_def)
  have h: "(0x3000 :: u64) < MAXVA" "\<not> bit (pte_of two_pages root_page 0x3000) 0"
    by (simp_all add: MAXVA_def two_pages_pte)
  obtain s ys zs where s: "pt_step two_pages root_page [0x87FFE000, 0x87FFF000] s ys zs"
    "\<forall>x<MAXVA. pte_of s root_page x = (if pn x = pn 0x3000 then PA2PTE 0x87FFC000 OR (PTE_R OR PTE_U) OR PTE_V
       else pte_of two_pages root_page x)"
    "mappages_loop root_page 0x3000 0x3000 0x87FFC000 (PTE_R OR PTE_U) two_pages = Ret (0, s)"
    using mappages_step [OF two_pages_pt_inv h, of "0x3000" "0x87FFC000" "PTE_R OR PTE_U"] by auto
  have "ys @ zs = [0x87FFE000, 0x87FFF000]" using s(1) by (simp add: pt_step_def)
  then have yz: "set ys \<union> set zs = {0x87FFE000, 0x87FFF000}"
    by (metis set_append list.simps(15) empty_set)
  have tz: "tabs (mem s) 2 root_page = {root_page} \<union> set ys"
    "kend s = kend two_pages" "pt_inv s root_page zs"
    using s(1) two_pages_tabs by (auto simp: pt_step_def)
  have "kpage s 0x87FFC000" using tz(2) by (simp add: kpage_def two_pages_def page_aligned_def riscv_consts)
  moreover have "(0x87FFC000 :: addr) \<notin> set ys \<union> set zs \<union> {root_page}" unfolding yz by simp
  ultimately have "releasable s root_page zs [0x87FFC000]" using tz(1) by (simp add: releasable_def)
  moreover have "pte_of s root_page 0x3000 = PA2PTE 0x87FFC000 OR (PTE_R OR PTE_U) OR PTE_V" using s(2) h(1) by simp
  then have "PTE2PA (pte_of s root_page 0x3000) = 0x87FFC000" "bit (pte_of s root_page 0x3000) 0"
    by (simp_all add: PTE2PA_def PA2PTE_def riscv_consts)
  ultimately show ?thesis using m s(2,3) tz(3) two_pages_pte by auto
qed

text \<open>C17: \<^verbatim>\<open>walk\<close> with allocation returns for every address below \<^verbatim>\<open>MAXVA\<close>; it changes no page
  table entry of any address and keeps the table a tree of pages that are not free.  It fails only
  when fewer than two pages were free, all of which it has used; otherwise the entry it returns is
  the one that \<^verbatim>\<open>walk\<close> without allocation finds afterwards.\<close>

theorem walk_alloc_correct:
  assumes "pt_inv s pt xs" "va < MAXVA"
  shows "\<exists>a s' zs. walk pt va True s = Ret (a, s') \<and> mem_only s s' \<and> pt_inv s' pt zs \<and>
    (\<forall>x. pte_of s' pt x = pte_of s pt x) \<and>
    (if a = 0 then zs = [] \<and> length xs < 2 else walk pt va False s' = Ret (a, s'))"
proof -
  obtain a s' ys zs where "walk pt va True s = Ret (a, s')" and st: "pt_step s pt xs s' ys zs"
    and "\<forall>x. pte_of s' pt x = pte_of s pt x"
    and "if a = 0 then zs = [] \<and> length ys < 2 else wl (mem s') 2 pt va = a"
    using walk_alloc [OF assms] by blast
  moreover have "xs = ys @ zs" using st by (simp add: pt_step_def)
  moreover have "mem_only s s'" "pt_inv s' pt zs" using st by (auto simp: pt_step_def mem_only_def)
  moreover have "walk pt va False s' = Ret (wl (mem s') 2 pt va, s')"
    by (rule walk_noalloc [OF assms(2)])
  ultimately show ?thesis by auto
qed

theorem walk_alloc_correct_witness:
  "\<exists>a s'. walk root_page 0x3000 True two_pages = Ret (a, s') \<and> a \<noteq> 0 \<and>
     walk root_page 0x3000 False s' = Ret (a, s')"
  using walk_alloc_correct [OF two_pages_pt_inv, of "0x3000"]
  by (auto simp: MAXVA_def split: if_splits)

text \<open>C18: \<^verbatim>\<open>mappages\<close> over a page-aligned range below \<^verbatim>\<open>MAXVA\<close> of which nothing is mapped
  returns; on success every page of the range maps to its physical page with the given
  permissions, on failure memory has run out, and in both cases the entries of all other
  addresses are unchanged and no table page is on the free list.\<close>

theorem mappages_correct:
  assumes "pt_inv s pt xs" "page_aligned va" "0 < n" "unat va + 4096 * n \<le> unat MAXVA"
    and "\<forall>i<n. \<not> bit (pte_of s pt (page_at va i)) 0"
  shows "\<exists>r s' zs. mappages pt va (of_nat (4096 * n)) pa perm s = Ret (r, s') \<and>
    mem_only s s' \<and> pt_inv s' pt zs \<and> (r = 0 \<or> r = - 1 \<and> zs = []) \<and>
    (r = 0 \<longrightarrow> (\<forall>i<n. pte_of s' pt (page_at va i) = PA2PTE (page_at pa i) OR perm OR PTE_V)) \<and>
    (\<forall>x<MAXVA. (\<forall>i<n. pn x \<noteq> pn (page_at va i)) \<longrightarrow> pte_of s' pt x = pte_of s pt x)"
proof -
  obtain r s' ys zs where m: "mappages pt va (of_nat (4096 * n)) pa perm s = Ret (r, s')"
    "pt_step s pt xs s' ys zs" "r = 0 \<or> r = - 1 \<and> zs = []"
    "r = 0 \<longrightarrow> (\<forall>i<n. pte_of s' pt (page_at va i) = PA2PTE (page_at pa i) OR perm OR PTE_V)"
    "\<forall>x<MAXVA. (\<forall>i<n. pn x \<noteq> pn (page_at va i)) \<longrightarrow> pte_of s' pt x = pte_of s pt x"
    using mappages_ok [OF assms, of pa perm] by blast
  moreover have "mem_only s s'" "pt_inv s' pt zs" using m(2) by (auto simp: pt_step_def mem_only_def)
  ultimately show ?thesis by blast
qed

theorem mappages_correct_witness:
  "\<exists>r s'. mappages root_page 0x3000 (of_nat (4096 * 1)) 0x87FFC000 (PTE_R OR PTE_U) two_pages =
     Ret (r, s') \<and> pte_of s' root_page 0x5000 = 0"
proof -
  have h: "page_aligned 0x3000" "unat (0x3000 :: u64) + 4096 * 1 \<le> unat MAXVA"
    by (simp_all add: page_aligned_def PGSIZE_def unat_MAXVA)
  obtain r s' where r: "mappages root_page 0x3000 (of_nat (4096 * 1)) 0x87FFC000 (PTE_R OR PTE_U)
      two_pages = Ret (r, s')"
    "\<forall>x<MAXVA. (\<forall>i<1. pn x \<noteq> pn (page_at 0x3000 i)) \<longrightarrow>
      pte_of s' root_page x = pte_of two_pages root_page x"
    using mappages_correct [OF two_pages_pt_inv h(1) _ h(2), of "0x87FFC000" "PTE_R OR PTE_U"]
      two_pages_pte by auto
  have "pte_of s' root_page 0x5000 = 0"
    using r(2) [rule_format, of "0x5000"] two_pages_pte by (simp add: MAXVA_def pn_def)
  then show ?thesis using r(1) by blast
qed

text \<open>C19: \<^verbatim>\<open>uvmunmap\<close> over a range below \<^verbatim>\<open>MAXVA\<close> returns; afterwards the valid entries of the
  range are 0 and every other entry is unchanged, and with \<^verbatim>\<open>do_free\<close> the physical pages that
  were mapped there, and no others, have returned to the free list.\<close>

theorem uvmunmap_correct:
  assumes "pt_inv s pt xs" "page_aligned va" "unat va + 4096 * n \<le> unat MAXVA"
    and "releasable s pt xs (released do_free s pt va n)"
  shows "\<exists>s'. uvmunmap pt va (of_nat n) do_free s = Ret s' \<and> mem_only s s' \<and>
    free_pages s' = set (released do_free s pt va n) \<union> free_pages s \<and>
    (\<forall>x<MAXVA. pte_of s' pt x =
      (if (\<exists>i<n. pn x = pn (page_at va i)) \<and> bit (pte_of s pt x) 0 then 0 else pte_of s pt x))"
proof -
  obtain s' where s': "uvmunmap pt va (of_nat n) do_free s = Ret s'" "mem_only s s'"
    "pt_inv s' pt (rev (released do_free s pt va n) @ xs)"
    "\<forall>x<MAXVA. pte_of s' pt x =
      (if (\<exists>i<n. pn x = pn (page_at va i)) \<and> bit (pte_of s pt x) 0 then 0 else pte_of s pt x)"
    using uvmunmap_ok [OF assms] by blast
  moreover have "free_pages s' = set (released do_free s pt va n) \<union> free_pages s"
    using free_pages_kinv [of s'] free_pages_kinv [of s] s'(3) assms(1) by (auto simp: pt_inv_def)
  ultimately show ?thesis by blast
qed

theorem uvmunmap_correct_witness:
  "\<exists>s s'. mappages root_page 0x3000 PGSIZE 0x87FFC000 (PTE_R OR PTE_U) two_pages = Ret (0, s) \<and>
     bit (pte_of s root_page 0x3000) 0 \<and> 0x87FFC000 \<notin> free_pages s \<and>
     uvmunmap root_page 0x2000 (of_nat 4) True s = Ret s' \<and>
     pte_of s' root_page 0x3000 = 0 \<and> free_pages s' = insert 0x87FFC000 (free_pages s)"
proof -
  obtain s zs where s: "mappages root_page 0x3000 PGSIZE 0x87FFC000 (PTE_R OR PTE_U) two_pages = Ret (0, s)"
    "pt_inv s root_page zs" "PTE2PA (pte_of s root_page 0x3000) = 0x87FFC000" "bit (pte_of s root_page 0x3000) 0"
    "\<forall>x<MAXVA. pn x \<noteq> pn 0x3000 \<longrightarrow> pte_of s root_page x = 0" "releasable s root_page zs [0x87FFC000]"
    using one_mapped by (elim exE conjE) (rule that)
  have z: "pte_of s root_page x = 0" if "x \<in> {0x2000, 0x4000, 0x5000}" for x
    using s(5) that by (auto simp: MAXVA_def pn_def)
  have r: "released True s root_page 0x2000 4 = [0x87FFC000]"
    using z s(3,4) by (simp add: mapped_pas_def page_at_def upt_rec)
  have i: "\<exists>i<4. pn 0x3000 = pn (page_at 0x2000 i)" by (intro exI [of _ 1]) (simp add: page_at_def)
  have h: "page_aligned 0x2000" "unat (0x2000 :: u64) + 4096 * 4 \<le> unat MAXVA"
    by (simp_all add: page_aligned_def PGSIZE_def unat_MAXVA)
  obtain s' where s': "uvmunmap root_page 0x2000 (of_nat 4) True s = Ret s'"
    "free_pages s' = set [0x87FFC000] \<union> free_pages s"
    "\<forall>x<MAXVA. pte_of s' root_page x = (if (\<exists>i<4. pn x = pn (page_at 0x2000 i)) \<and>
       bit (pte_of s root_page x) 0 then 0 else pte_of s root_page x)"
    using uvmunmap_correct [OF s(2) h, of True, unfolded r, OF s(6)] by blast
  have "pte_of s' root_page 0x3000 = 0" using s'(3) i s(4) by (simp add: MAXVA_def)
  moreover
  have "0x87FFC000 \<notin> free_pages s"
    using s(6) free_pages_kinv [of s zs] s(2) by (auto simp: releasable_def pt_inv_def)
  ultimately show ?thesis using s(1,4) s'(1,2) by auto
qed

end
