(* ===== verification/State.thy ===== *)
theory State
  imports Uvm
begin

text \<open>
  The kernel's data (\<^verbatim>\<open>kernel/proc.h\<close>, \<^verbatim>\<open>buf.h\<close>, \<^verbatim>\<open>fs.h\<close>, \<^verbatim>\<open>file.h\<close>,
  \<^verbatim>\<open>sleeplock.h\<close>, \<^verbatim>\<open>log.c\<close>, \<^verbatim>\<open>pipe.c\<close>, \<^verbatim>\<open>console.c\<close>) and its state, a chain of
  record extensions: memory and the page allocator (\<open>kmem\<close>), processes (\<open>mach\<close>), the disk,
  its buffer cache and the log (\<open>blk\<close>), the inode layer (\<open>fsys\<close>), and files, pipes and the
  console (\<open>kernel\<close>).  An operation of a layer is polymorphic in the layers above.

  A pointer into one of the kernel's static tables (\<^verbatim>\<open>proc\<close>, \<^verbatim>\<open>bcache.buf\<close>,
  \<^verbatim>\<open>itable.inode\<close>, \<^verbatim>\<open>ftable.file\<close>) is an index of the table, \<open>None\<close> for the null
  pointer.  Spinlocks are left out of the tables: every region they protect is one step of the
  model, and the theory \<open>Spinlock\<close> treats the locks themselves.  A C \<^verbatim>\<open>int\<close> used as a flag
  is a \<open>bool\<close>, one used as a small count or index an \<open>int\<close> or \<open>nat\<close>; \<^verbatim>\<open>uint\<close>,
  \<^verbatim>\<open>uint64\<close> and \<^verbatim>\<open>short\<close> are words of their width.
\<close>

section \<open>Parameters\<close>

abbreviation (input) NPROC :: nat where "NPROC \<equiv> 64"
abbreviation (input) NOFILE :: nat where "NOFILE \<equiv> 16"
abbreviation (input) NFILE :: nat where "NFILE \<equiv> 100"
abbreviation (input) NINODE :: nat where "NINODE \<equiv> 50"
abbreviation (input) NBUF :: nat where "NBUF \<equiv> 30"
abbreviation (input) NDEV :: nat where "NDEV \<equiv> 10"
abbreviation (input) ROOTDEV :: u32 where "ROOTDEV \<equiv> 1"
abbreviation (input) MAXARG :: nat where "MAXARG \<equiv> 32"
abbreviation (input) MAXOPBLOCKS :: nat where "MAXOPBLOCKS \<equiv> 10"
abbreviation (input) LOGBLOCKS :: nat where "LOGBLOCKS \<equiv> 30"
abbreviation (input) MAXPATH :: nat where "MAXPATH \<equiv> 128"
abbreviation (input) USERSTACK :: u64 where "USERSTACK \<equiv> 1"
abbreviation (input) MAX_SEGMENTS :: nat where "MAX_SEGMENTS \<equiv> 4"
abbreviation (input) MAX_RESIDENT_PAGES :: nat where "MAX_RESIDENT_PAGES \<equiv> 8"
abbreviation (input) MAX_SWAP_PAGES :: nat where "MAX_SWAP_PAGES \<equiv> 1024"
abbreviation (input) BSIZE :: nat where "BSIZE \<equiv> 1024"

section \<open>Processes\<close>

text \<open>A channel of \<^verbatim>\<open>sleep\<close> is the address of a kernel object; the channels the
  kernel uses are named by the object.\<close>

datatype chan = ChNone | ChBuf nat | ChInode nat | ChProc nat | ChTicks | ChLog | ChCons
  | ChNread addr | ChNwrite addr | ChDiskFree | ChDiskBuf nat | ChTxIdle

datatype procstate = UNUSED | USED | SLEEPING | RUNNABLE | RUNNING | ZOMBIE

record seginfo =
  seg_vaddr :: u64
  seg_filesz :: u64
  seg_memsz :: u64
  seg_offset :: u64
  seg_flags :: u32

record resident_page =
  rp_va :: u64
  rp_seq :: u64
  rp_dirty :: bool
  rp_swap_offset :: int
  rp_in_memory :: bool
  rp_ref_bit :: bool

record swap_entry =
  sw_va :: u64
  sw_slot :: int

record proc =
  p_state :: procstate
  p_chan :: chan
  p_killed :: bool
  p_xstate :: int
  p_pid :: int
  p_parent :: "nat option"
  p_kstack :: u64
  p_sz :: u64
  p_pagetable :: addr
  p_trapframe :: addr
  p_ofile :: "nat option list"
  p_cwd :: "nat option"
  p_name :: "byte list"
  p_execfile :: "nat option"
  p_segments :: "seginfo list"
  p_nsegments :: nat
  p_text_start :: u64
  p_text_end :: u64
  p_data_end :: u64
  p_resident :: "resident_page list"
  p_nresident :: nat
  p_next_seq :: u64
  p_clock_hand :: int
  p_swapfile :: "nat option"
  p_swapname :: "byte list"
  p_swap_bitmap :: "u32 list"
  p_nswapped :: int
  p_swap_map :: "swap_entry list"

text \<open>What \<^verbatim>\<open>printf\<close> was given: a format and its arguments.\<close>

datatype parg = PInt int | PLong u64 | PStr string

record mach = kmem +
  procs :: "proc list"
  cur :: nat
  nextpid :: int
  initproc :: nat
  kernel_pagetable :: addr
  etext :: addr
  trampoline :: addr
  ticks :: u32
  klog :: "(string \<times> parg list) list"

section \<open>Blocks\<close>

record sleeplock =
  sl_locked :: bool
  sl_pid :: int

record buf =
  b_valid :: bool
  b_dev :: u32
  b_blockno :: u32
  b_lock :: sleeplock
  b_refcnt :: u32
  b_data :: "byte list"

record logheader =
  lh_n :: nat
  lh_block :: "u32 list"

record logst =
  lg_start :: u32
  lg_outstanding :: int
  lg_committing :: bool
  lg_dev :: u32
  lg_lh :: logheader

text \<open>\<open>lru\<close> lists the buffers from the most recently used to the least; \<open>dwrites\<close> is the
  sequence of blocks written to the disk, which the code does not have: it says at which
  points a crash can happen.\<close>

record blk = mach +
  disk :: "u32 \<Rightarrow> byte list"
  dwrites :: "(u32 \<times> byte list) list"
  bufs :: "buf list"
  lru :: "nat list"
  logs :: logst

section \<open>Inodes\<close>

record superblock =
  sb_magic :: u32
  sb_size :: u32
  sb_nblocks :: u32
  sb_ninodes :: u32
  sb_nlog :: u32
  sb_logstart :: u32
  sb_inodestart :: u32
  sb_bmapstart :: u32

record dinode =
  d_type :: u16
  d_major :: u16
  d_minor :: u16
  d_nlink :: u16
  d_size :: u32
  d_addrs :: "u32 list"

record inode =
  i_dev :: u32
  i_inum :: u32
  i_ref :: int
  i_lock :: sleeplock
  i_valid :: bool
  i_type :: u16
  i_major :: u16
  i_minor :: u16
  i_nlink :: u16
  i_size :: u32
  i_addrs :: "u32 list"

abbreviation (input) T_DIR :: u16 where "T_DIR \<equiv> 1"
abbreviation (input) T_FILE :: u16 where "T_FILE \<equiv> 2"
abbreviation (input) T_DEVICE :: u16 where "T_DEVICE \<equiv> 3"

record fsys = blk +
  sb :: superblock
  itable :: "inode list"

section \<open>Files, pipes and the console\<close>

datatype fdtype = FD_NONE | FD_PIPE | FD_INODE | FD_DEVICE

record kfile =
  f_type :: fdtype
  f_ref :: int
  f_readable :: bool
  f_writable :: bool
  f_pipe :: addr
  f_ip :: "nat option"
  f_off :: u32
  f_major :: u16

record pipe =
  pi_data :: "byte list"
  pi_nread :: u32
  pi_nwrite :: u32
  pi_readopen :: bool
  pi_writeopen :: bool

record console =
  c_buf :: "byte list"
  c_r :: u32
  c_w :: u32
  c_e :: u32

section \<open>The disk driver\<close>

text \<open>What a descriptor's address points to: a command header, the data of a buffer, or the
  status byte of a request.\<close>

datatype vtarget = VNull | VOp nat | VBuf nat | VStatus nat

record virtq_desc =
  vd_addr :: vtarget
  vd_len :: u32
  vd_flags :: u16
  vd_next :: u16

record virtio_blk_req =
  rq_type :: u32
  rq_reserved :: u32
  rq_sector :: u64

record vdisk =
  vq_desc :: "virtq_desc list"
  vq_avail :: "u16 list"
  vq_avail_idx :: u16
  vq_used :: "u32 list"
  vq_used_dev :: u16
  vq_free :: "bool list"
  vq_used_idx :: u16
  vq_info_b :: "nat option list"
  vq_status :: "byte list"
  vq_ops :: "virtio_blk_req list"
  vq_regs :: "(nat \<times> u32) list"

section \<open>The whole kernel\<close>

record kernel = fsys +
  ftable :: "kfile list"
  devsw :: "bool list"
  pipes :: "addr \<Rightarrow> pipe option"
  cons :: console
  uart_regs :: "(nat \<times> byte) list"
  tx_busy :: bool
  panicking :: bool
  panicked :: bool
  forkret_first :: bool
  vdisk :: vdisk
  bdisk :: "bool list"

text \<open>\<open>devsw\<close> says which devices have their routines registered (the console is the only one);
  \<open>uart_regs\<close> and \<open>vq_regs\<close> are the sequences of writes to the registers of the two devices;
  \<open>bdisk\<close> holds the field \<^verbatim>\<open>disk\<close> of the buffers.\<close>

section \<open>The running process\<close>

definition myproc :: "'a mach_scheme \<Rightarrow> proc" where
  "myproc s = procs s ! cur s"

definition proc_upd :: "nat \<Rightarrow> (proc \<Rightarrow> proc) \<Rightarrow> 'a mach_scheme \<Rightarrow> 'a mach_scheme" where
  "proc_upd i f s = s\<lparr>procs := (procs s)[i := f (procs s ! i)]\<rparr>"

abbreviation myproc_upd :: "(proc \<Rightarrow> proc) \<Rightarrow> 'a mach_scheme \<Rightarrow> 'a mach_scheme" where
  "myproc_upd f s \<equiv> proc_upd (cur s) f s"

definition kprintf :: "string \<Rightarrow> parg list \<Rightarrow> 'a mach_scheme \<Rightarrow> 'a mach_scheme" where
  "kprintf fmt args s = s\<lparr>klog := klog s @ [(fmt, args)]\<rparr>"

lemma myproc_upd [simp]:
  "cur s < length (procs s) \<Longrightarrow> myproc (myproc_upd f s) = f (myproc s)"
  by (simp add: myproc_def proc_upd_def)

lemma myproc_frame [simp]:
  "myproc (kprintf fmt args s) = myproc s" "myproc (s\<lparr>mem := m\<rparr>) = myproc s"
  "myproc (s\<lparr>freelist := f\<rparr>) = myproc s"
  by (simp_all add: myproc_def kprintf_def)

lemma proc_upd_sel [simp]:
  "cur (proc_upd i f s) = cur s" "length (procs (proc_upd i f s)) = length (procs s)"
  "mem (proc_upd i f s) = mem s" "freelist (proc_upd i f s) = freelist s"
  "kend (proc_upd i f s) = kend s" "klog (proc_upd i f s) = klog s"
  by (simp_all add: proc_upd_def)

lemma kprintf_sel [simp]:
  "cur (kprintf fmt args s) = cur s" "procs (kprintf fmt args s) = procs s"
  "mem (kprintf fmt args s) = mem s" "freelist (kprintf fmt args s) = freelist s"
  "kend (kprintf fmt args s) = kend s" "klog (kprintf fmt args s) = klog s @ [(fmt, args)]"
  by (simp_all add: kprintf_def)

lemma mem_only_mach:
  assumes "mem_only s s'"
  shows "procs s' = procs s" "cur s' = cur s" "klog s' = klog s" "myproc s' = myproc s"
proof -
  note eq = mem_only_eq [OF assms]
  show p: "procs s' = procs s" and c: "cur s' = cur s" and "klog s' = klog s"
    using arg_cong [OF eq, of procs] arg_cong [OF eq, of cur] arg_cong [OF eq, of klog] by simp_all
  show "myproc s' = myproc s" by (simp add: myproc_def p c)
qed

end
