(* ===== verification/Sleeplock.thy ===== *)
theory Sleeplock
  imports State
begin

text \<open>
  Sleep locks (\<^verbatim>\<open>kernel/sleeplock.c\<close>) and the parts of \<^verbatim>\<open>kernel/proc.c\<close> that the
  lower layers call: \<^verbatim>\<open>wakeup\<close>, \<^verbatim>\<open>kkill\<close>, \<^verbatim>\<open>setkilled\<close> and \<^verbatim>\<open>killed\<close>.  The kernel
  code that the later theories model runs on behalf of one process; where it would sleep the
  model returns \<open>Blocked\<close> and leaves the state as the call found it.
\<close>

section \<open>Definitions\<close>

definition wake :: "chan \<Rightarrow> proc \<Rightarrow> proc" where
  "wake c p = (if p_state p = SLEEPING \<and> p_chan p = c then p\<lparr>p_state := RUNNABLE\<rparr> else p)"

definition wakeup :: "chan \<Rightarrow> 'a mach_scheme \<Rightarrow> 'a mach_scheme" where
  "wakeup c s =
     s\<lparr>procs := map (\<lambda>i. if i \<noteq> cur s then wake c (procs s ! i) else procs s ! i)
                  [0..<length (procs s)]\<rparr>"

definition kkill :: "int \<Rightarrow> 'a mach_scheme \<Rightarrow> int \<times> 'a mach_scheme" where
  "kkill pid s =
     (case find (\<lambda>i. p_pid (procs s ! i) = pid) [0..<length (procs s)] of
        None \<Rightarrow> (- 1, s)
      | Some i \<Rightarrow>
          (0, proc_upd i (\<lambda>p. let p = p\<lparr>p_killed := True\<rparr> in
                if p_state p = SLEEPING then p\<lparr>p_state := RUNNABLE\<rparr> else p) s))"

definition setkilled :: "nat \<Rightarrow> 'a mach_scheme \<Rightarrow> 'a mach_scheme" where
  "setkilled i s = proc_upd i (\<lambda>p. p\<lparr>p_killed := True\<rparr>) s"

definition killed :: "nat \<Rightarrow> 'a mach_scheme \<Rightarrow> bool" where
  "killed i s = p_killed (procs s ! i)"

definition initsleeplock :: sleeplock where
  "initsleeplock = \<lparr>sl_locked = False, sl_pid = 0\<rparr>"

definition acquiresleep :: "sleeplock \<Rightarrow> 'a mach_scheme \<Rightarrow> sleeplock res" where
  "acquiresleep lk s =
     (if sl_locked lk then Blocked ''acquiresleep''
      else Ret \<lparr>sl_locked = True, sl_pid = p_pid (myproc s)\<rparr>)"

definition releasesleep :: "chan \<Rightarrow> sleeplock \<Rightarrow> 'a mach_scheme \<Rightarrow> sleeplock \<times> 'a mach_scheme" where
  "releasesleep c lk s = (\<lparr>sl_locked = False, sl_pid = 0\<rparr>, wakeup c s)"

definition holdingsleep :: "sleeplock \<Rightarrow> 'a mach_scheme \<Rightarrow> bool" where
  "holdingsleep lk s \<longleftrightarrow> sl_locked lk \<and> sl_pid lk = p_pid (myproc s)"

section \<open>Lemmas\<close>

lemma wakeup_sel [simp]:
  "cur (wakeup c s) = cur s" "length (procs (wakeup c s)) = length (procs s)"
  "mem (wakeup c s) = mem s" "freelist (wakeup c s) = freelist s" "kend (wakeup c s) = kend s"
  "klog (wakeup c s) = klog s"
  by (simp_all add: wakeup_def)

lemma nth_wakeup:
  "i < length (procs s) \<Longrightarrow> procs (wakeup c s) ! i =
     (if i \<noteq> cur s then wake c (procs s ! i) else procs s ! i)"
  by (simp add: wakeup_def)

lemma myproc_wakeup [simp]: "cur s < length (procs s) \<Longrightarrow> myproc (wakeup c s) = myproc s"
  by (simp add: myproc_def nth_wakeup)

lemma wake_fields [simp]:
  "p_pid (wake c p) = p_pid p" "p_chan (wake c p) = p_chan p" "p_parent (wake c p) = p_parent p"
  "p_pagetable (wake c p) = p_pagetable p" "p_killed (wake c p) = p_killed p"
  by (simp_all add: wake_def)

lemma wake_state:
  "p_state (wake c p) =
     (if p_state p = SLEEPING \<and> p_chan p = c then RUNNABLE else p_state p)"
  by (simp add: wake_def)

lemma acquire_holding:
  "acquiresleep lk s = Ret lk' \<Longrightarrow> holdingsleep lk' s"
  by (auto simp: acquiresleep_def holdingsleep_def split: if_splits)

end
