(* ===== verification/Bio.thy ===== *)
theory Bio
  imports Sleeplock
begin

text \<open>
  The buffer cache (\<^verbatim>\<open>kernel/bio.c\<close>).  \<open>lru\<close> is the list that the code threads through the
  buffers' \<^verbatim>\<open>prev\<close> and \<^verbatim>\<open>next\<close> pointers, from \<^verbatim>\<open>head.next\<close> on.

  A request to the disk is one step here: \<open>disk_rw\<close> transfers one block between a buffer and
  the disk and records a write in \<open>dwrites\<close>.

  The layers above see the cache through \<open>bcontent\<close>: the contents of a block, from its buffer
  where it has one and from the disk otherwise.
\<close>

section \<open>Definitions\<close>

definition buf_upd :: "nat \<Rightarrow> (buf \<Rightarrow> buf) \<Rightarrow> 'a blk_scheme \<Rightarrow> 'a blk_scheme" where
  "buf_upd i f s = s\<lparr>bufs := (bufs s)[i := f (bufs s ! i)]\<rparr>"

definition disk_rw :: "nat \<Rightarrow> bool \<Rightarrow> 'a blk_scheme \<Rightarrow> 'a blk_scheme" where
  "disk_rw b write s =
     (let bno = b_blockno (bufs s ! b) in
      if write
      then s\<lparr>disk := (disk s)(bno := b_data (bufs s ! b)),
             dwrites := dwrites s @ [(bno, b_data (bufs s ! b))]\<rparr>
      else buf_upd b (\<lambda>x. x\<lparr>b_data := disk s bno\<rparr>) s)"

definition binit :: "'a blk_scheme \<Rightarrow> 'a blk_scheme" where
  "binit s =
     foldl (\<lambda>s b. (buf_upd b (\<lambda>x. x\<lparr>b_lock := initsleeplock\<rparr>) s)\<lparr>lru := b # lru s\<rparr>)
       (s\<lparr>lru := []\<rparr>) [0..<NBUF]"

definition lock_buf :: "nat \<Rightarrow> 'a blk_scheme \<Rightarrow> (nat \<times> 'a blk_scheme) res" where
  "lock_buf b s =
     rbind (acquiresleep (b_lock (bufs s ! b)) s) (\<lambda>lk.
       Ret (b, buf_upd b (\<lambda>x. x\<lparr>b_lock := lk\<rparr>) s))"

definition bget :: "u32 \<Rightarrow> u32 \<Rightarrow> 'a blk_scheme \<Rightarrow> (nat \<times> 'a blk_scheme) res" where
  "bget dev blockno s =
     (case find (\<lambda>i. b_dev (bufs s ! i) = dev \<and> b_blockno (bufs s ! i) = blockno) (lru s) of
        Some b \<Rightarrow> lock_buf b (buf_upd b (\<lambda>x. x\<lparr>b_refcnt := b_refcnt x + 1\<rparr>) s)
      | None \<Rightarrow>
          (case find (\<lambda>i. b_refcnt (bufs s ! i) = 0) (rev (lru s)) of
             Some b \<Rightarrow>
               lock_buf b (buf_upd b (\<lambda>x. x\<lparr>b_dev := dev, b_blockno := blockno,
                 b_valid := False, b_refcnt := 1\<rparr>) s)
           | None \<Rightarrow> Panic ''bget: no buffers''))"

definition bread :: "u32 \<Rightarrow> u32 \<Rightarrow> 'a blk_scheme \<Rightarrow> (nat \<times> 'a blk_scheme) res" where
  "bread dev blockno s =
     rbind (bget dev blockno s) (\<lambda>(b, s).
       if \<not> b_valid (bufs s ! b)
       then Ret (b, buf_upd b (\<lambda>x. x\<lparr>b_valid := True\<rparr>) (disk_rw b False s))
       else Ret (b, s))"

definition bwrite :: "nat \<Rightarrow> 'a blk_scheme \<Rightarrow> 'a blk_scheme res" where
  "bwrite b s =
     (if \<not> holdingsleep (b_lock (bufs s ! b)) s then Panic ''bwrite''
      else Ret (disk_rw b True s))"

definition brelse :: "nat \<Rightarrow> 'a blk_scheme \<Rightarrow> 'a blk_scheme res" where
  "brelse b s =
     (if \<not> holdingsleep (b_lock (bufs s ! b)) s then Panic ''brelse''
      else
        let (lk, s) = releasesleep (ChBuf b) (b_lock (bufs s ! b)) s;
            s = buf_upd b (\<lambda>x. x\<lparr>b_lock := lk\<rparr>) s;
            s = buf_upd b (\<lambda>x. x\<lparr>b_refcnt := b_refcnt x - 1\<rparr>) s
        in
        if b_refcnt (bufs s ! b) = 0
        then Ret (s\<lparr>lru := b # remove1 b (lru s)\<rparr>)
        else Ret s)"

definition bpin :: "nat \<Rightarrow> 'a blk_scheme \<Rightarrow> 'a blk_scheme" where
  "bpin b s = buf_upd b (\<lambda>x. x\<lparr>b_refcnt := b_refcnt x + 1\<rparr>) s"

definition bunpin :: "nat \<Rightarrow> 'a blk_scheme \<Rightarrow> 'a blk_scheme" where
  "bunpin b s = buf_upd b (\<lambda>x. x\<lparr>b_refcnt := b_refcnt x - 1\<rparr>) s"

end
