(* ===== verification/Blockdata.thy ===== *)
theory Blockdata
  imports Prelude
begin

text \<open>
  Fields of a block.  The code reads and writes integers, directory entries and inodes in a
  buffer's bytes by casting a pointer into it; here a field is a range of the byte list.
\<close>

definition get_bytes :: "byte list \<Rightarrow> nat \<Rightarrow> nat \<Rightarrow> byte list" where
  "get_bytes d off n = take n (drop off d)"

definition put_bytes :: "byte list \<Rightarrow> nat \<Rightarrow> byte list \<Rightarrow> byte list" where
  "put_bytes d off bs = take off d @ bs @ drop (off + length bs) d"

definition get16 :: "byte list \<Rightarrow> nat \<Rightarrow> u16" where
  "get16 d off = le_word (get_bytes d off 2)"

definition get32 :: "byte list \<Rightarrow> nat \<Rightarrow> u32" where
  "get32 d off = le_word (get_bytes d off 4)"

definition get64 :: "byte list \<Rightarrow> nat \<Rightarrow> u64" where
  "get64 d off = le_word (get_bytes d off 8)"

definition put16 :: "byte list \<Rightarrow> nat \<Rightarrow> u16 \<Rightarrow> byte list" where
  "put16 d off w = put_bytes d off (le_bytes 2 w)"

definition put32 :: "byte list \<Rightarrow> nat \<Rightarrow> u32 \<Rightarrow> byte list" where
  "put32 d off w = put_bytes d off (le_bytes 4 w)"

named_theorems field_simps

lemma length_get_bytes [simp]: "off + n \<le> length d \<Longrightarrow> length (get_bytes d off n) = n"
  by (simp add: get_bytes_def)

lemma length_put_bytes [simp]:
  "off + length bs \<le> length d \<Longrightarrow> length (put_bytes d off bs) = length d"
  by (simp add: put_bytes_def)

lemma length_put16 [simp]: "off + 2 \<le> length d \<Longrightarrow> length (put16 d off w) = length d"
  by (simp add: put16_def)

lemma length_put32 [simp]: "off + 4 \<le> length d \<Longrightarrow> length (put32 d off w) = length d"
  by (simp add: put32_def)

lemma nth_put_bytes:
  assumes "off + length bs \<le> length d" "i < length d"
  shows "put_bytes d off bs ! i = (if off \<le> i \<and> i < off + length bs then bs ! (i - off) else d ! i)"
  using assms by (auto simp: put_bytes_def nth_append)

lemma get_put_bytes_same [field_simps]:
  "off + length bs \<le> length d \<Longrightarrow> n = length bs \<Longrightarrow> get_bytes (put_bytes d off bs) off n = bs"
  by (simp add: get_bytes_def put_bytes_def)

lemma get_put_bytes_other [field_simps]:
  assumes "off + length bs \<le> length d" "o' + n \<le> length d" "o' + n \<le> off \<or> off + length bs \<le> o'"
  shows "get_bytes (put_bytes d off bs) o' n = get_bytes d o' n"
proof (rule nth_equalityI)
  show "length (get_bytes (put_bytes d off bs) o' n) = length (get_bytes d o' n)"
    using assms by simp
next
  fix i assume "i < length (get_bytes (put_bytes d off bs) o' n)"
  then have i: "i < n" using assms by simp
  then have "put_bytes d off bs ! (o' + i) = d ! (o' + i)"
    using assms by (subst nth_put_bytes) auto
  then show "get_bytes (put_bytes d off bs) o' n ! i = get_bytes d o' n ! i"
    using i assms by (simp add: get_bytes_def)
qed

lemma get32_put32 [field_simps]:
  assumes "off + 4 \<le> length d" "o' + 4 \<le> length d" "o' = off \<or> o' + 4 \<le> off \<or> off + 4 \<le> o'"
  shows "get32 (put32 d off w) o' = (if o' = off then w else get32 d o')"
  using assms by (auto simp: get32_def put32_def field_simps le_word_le_bytes)

lemma get32_put_bytes_other [field_simps]:
  assumes "off + length bs \<le> length d" "o' + 4 \<le> length d" "o' + 4 \<le> off \<or> off + length bs \<le> o'"
  shows "get32 (put_bytes d off bs) o' = get32 d o'"
  using assms by (simp add: get32_def field_simps)

lemma get16_put16_same [field_simps]:
  "off + 2 \<le> length d \<Longrightarrow> get16 (put16 d off w) off = w"
  by (simp add: get16_def put16_def field_simps le_word_le_bytes)

end
