(* ===== verification/Log.thy ===== *)
theory Log
  imports Bio Blockdata
begin

text \<open>
  The write-ahead log (\<^verbatim>\<open>kernel/log.c\<close>).  A file system call brackets its writes with
  \<open>begin_op\<close> and \<open>end_op\<close>; \<open>log_write\<close> records a modified buffer and pins it; the last
  \<open>end_op\<close> commits: it writes the modified blocks to the log area, writes the header, copies
  the blocks to their home locations and clears the header.  \<open>recover_from_log\<close> runs at boot.

  The header block holds the count at offset 0 and the block numbers from offset 4 on.
\<close>

section \<open>Definitions\<close>

abbreviation lh_upd :: "(logheader \<Rightarrow> logheader) \<Rightarrow> 'a blk_scheme \<Rightarrow> 'a blk_scheme" where
  "lh_upd f s \<equiv> s\<lparr>logs := (logs s)\<lparr>lg_lh := f (lg_lh (logs s))\<rparr>\<rparr>"

abbreviation lhead :: "'a blk_scheme \<Rightarrow> logheader" where
  "lhead s \<equiv> lg_lh (logs s)"

definition install_one :: "bool \<Rightarrow> nat \<Rightarrow> 'a blk_scheme \<Rightarrow> 'a blk_scheme res" where
  "install_one recovering tail s =
     (let s = (if recovering
               then kprintf ''recovering tail %d dst %d''
                      [PInt (int tail), PInt (sint (lh_block (lhead s) ! tail))] s
               else s)
      in
      rbind (bread (lg_dev (logs s)) (lg_start (logs s) + of_nat tail + 1) s) (\<lambda>(lbuf, s).
      rbind (bread (lg_dev (logs s)) (lh_block (lhead s) ! tail) s) (\<lambda>(dbuf, s).
        let s = buf_upd dbuf (\<lambda>x. x\<lparr>b_data := b_data (bufs s ! lbuf)\<rparr>) s in
        rbind (bwrite dbuf s) (\<lambda>s.
        let s = (if \<not> recovering then bunpin dbuf s else s) in
        rbind (brelse lbuf s) (\<lambda>s. brelse dbuf s)))))"

definition install_trans :: "bool \<Rightarrow> 'a blk_scheme \<Rightarrow> 'a blk_scheme res" where
  "install_trans recovering s = rfold (install_one recovering) [0..<lh_n (lhead s)] s"

definition read_head :: "'a blk_scheme \<Rightarrow> 'a blk_scheme res" where
  "read_head s =
     rbind (bread (lg_dev (logs s)) (lg_start (logs s)) s) (\<lambda>(b, s).
       let d = b_data (bufs s ! b);
           s = lh_upd (\<lambda>h. h\<lparr>lh_n := nat (sint (get32 d 0))\<rparr>) s;
           s = lh_upd (\<lambda>h. h\<lparr>lh_block :=
                 foldl (\<lambda>bl i. bl[i := get32 d (4 + 4 * i)]) (lh_block h) [0..<lh_n h]\<rparr>) s
       in brelse b s)"

definition write_head :: "'a blk_scheme \<Rightarrow> 'a blk_scheme res" where
  "write_head s =
     rbind (bread (lg_dev (logs s)) (lg_start (logs s)) s) (\<lambda>(b, s).
       let h = lhead s;
           s = buf_upd b (\<lambda>x. x\<lparr>b_data := put32 (b_data x) 0 (of_nat (lh_n h))\<rparr>) s;
           s = buf_upd b (\<lambda>x. x\<lparr>b_data :=
                 foldl (\<lambda>d i. put32 d (4 + 4 * i) (lh_block h ! i)) (b_data x) [0..<lh_n h]\<rparr>) s
       in rbind (bwrite b s) (\<lambda>s. brelse b s))"

definition recover_from_log :: "'a blk_scheme \<Rightarrow> 'a blk_scheme res" where
  "recover_from_log s =
     rbind (read_head s) (\<lambda>s.
     rbind (install_trans True s) (\<lambda>s.
     write_head (lh_upd (\<lambda>h. h\<lparr>lh_n := 0\<rparr>) s)))"

definition initlog :: "u32 \<Rightarrow> superblock \<Rightarrow> 'a blk_scheme \<Rightarrow> 'a blk_scheme res" where
  "initlog dev super s =
     (if 4 * (LOGBLOCKS + 1) \<ge> BSIZE then Panic ''initlog: too big logheader''
      else recover_from_log (s\<lparr>logs := (logs s)\<lparr>lg_start := sb_logstart super, lg_dev := dev\<rparr>\<rparr>))"

definition begin_op :: "'a blk_scheme \<Rightarrow> 'a blk_scheme res" where
  "begin_op s =
     (if lg_committing (logs s) then Blocked ''begin_op''
      else if int (lh_n (lhead s)) + (lg_outstanding (logs s) + 1) * int MAXOPBLOCKS > int LOGBLOCKS
      then Blocked ''begin_op''
      else Ret (s\<lparr>logs := (logs s)\<lparr>lg_outstanding := lg_outstanding (logs s) + 1\<rparr>\<rparr>))"

definition write_log_one :: "nat \<Rightarrow> 'a blk_scheme \<Rightarrow> 'a blk_scheme res" where
  "write_log_one tail s =
     rbind (bread (lg_dev (logs s)) (lg_start (logs s) + of_nat tail + 1) s) (\<lambda>(to, s).
     rbind (bread (lg_dev (logs s)) (lh_block (lhead s) ! tail) s) (\<lambda>(from, s).
       let s = buf_upd to (\<lambda>x. x\<lparr>b_data := b_data (bufs s ! from)\<rparr>) s in
       rbind (bwrite to s) (\<lambda>s.
       rbind (brelse from s) (\<lambda>s. brelse to s))))"

definition write_log :: "'a blk_scheme \<Rightarrow> 'a blk_scheme res" where
  "write_log s = rfold write_log_one [0..<lh_n (lhead s)] s"

definition commit :: "'a blk_scheme \<Rightarrow> 'a blk_scheme res" where
  "commit s =
     (if lh_n (lhead s) > 0
      then
        rbind (write_log s) (\<lambda>s.
        rbind (write_head s) (\<lambda>s.
        rbind (install_trans False s) (\<lambda>s.
        write_head (lh_upd (\<lambda>h. h\<lparr>lh_n := 0\<rparr>) s))))
      else Ret s)"

definition end_op :: "'a blk_scheme \<Rightarrow> 'a blk_scheme res" where
  "end_op s =
     (let s = s\<lparr>logs := (logs s)\<lparr>lg_outstanding := lg_outstanding (logs s) - 1\<rparr>\<rparr> in
      if lg_committing (logs s) then Panic ''log.committing''
      else if lg_outstanding (logs s) = 0
      then
        rbind (commit (s\<lparr>logs := (logs s)\<lparr>lg_committing := True\<rparr>\<rparr>)) (\<lambda>s.
          Ret (wakeup ChLog (s\<lparr>logs := (logs s)\<lparr>lg_committing := False\<rparr>\<rparr>)))
      else Ret (wakeup ChLog s))"

definition log_write :: "nat \<Rightarrow> 'a blk_scheme \<Rightarrow> 'a blk_scheme res" where
  "log_write b s =
     (let h = lhead s; bno = b_blockno (bufs s ! b) in
      if lh_n h \<ge> LOGBLOCKS then Panic ''too big a transaction''
      else if lg_outstanding (logs s) < 1 then Panic ''log_write outside of trans''
      else
        let i = length (takeWhile (\<lambda>x. x \<noteq> bno) (take (lh_n h) (lh_block h)));
            s = lh_upd (\<lambda>h. h\<lparr>lh_block := (lh_block h)[i := bno]\<rparr>) s
        in
        if i = lh_n h
        then Ret (lh_upd (\<lambda>h. h\<lparr>lh_n := lh_n h + 1\<rparr>) (bpin b s))
        else Ret s)"

end
