(* ===== verification/Fs.thy ===== *)
theory Fs
  imports Log
begin

text \<open>
  The file system (\<^verbatim>\<open>kernel/fs.c\<close>): the block allocator, inodes, their contents, directories
  and path names.

  \<open>readi\<close> and \<open>writei\<close> take the routine that \<^verbatim>\<open>either_copyout\<close> and \<^verbatim>\<open>either_copyin\<close> would
  select: a copy to or from a kernel variable (a byte list carried along), to or from kernel
  memory, or to or from user memory (theory \<open>Usermem\<close>).  Offsets and counts inside their loops
  cannot wrap (the checks before the loops see to that), so they are natural numbers there.

  A path is the byte list before its NUL.  The file name buffer that \<^verbatim>\<open>namex\<close> fills is a list
  of \<open>DIRSIZ\<close> bytes.
\<close>

section \<open>Layout of the disk\<close>

abbreviation (input) FSMAGIC :: u32 where "FSMAGIC \<equiv> 0x10203040"
abbreviation (input) NDIRECT :: nat where "NDIRECT \<equiv> 12"
abbreviation (input) NINDIRECT :: nat where "NINDIRECT \<equiv> 256"
abbreviation (input) MAXFILE :: nat where "MAXFILE \<equiv> NDIRECT + NINDIRECT"
abbreviation (input) IPB :: nat where "IPB \<equiv> 16"
abbreviation (input) BPB :: nat where "BPB \<equiv> 8192"
abbreviation (input) DIRSIZ :: nat where "DIRSIZ \<equiv> 14"
abbreviation (input) ROOTINO :: u32 where "ROOTINO \<equiv> 1"

definition IBLOCK :: "u32 \<Rightarrow> superblock \<Rightarrow> u32" where
  "IBLOCK i super = i div 16 + sb_inodestart super"

definition BBLOCK :: "u32 \<Rightarrow> superblock \<Rightarrow> u32" where
  "BBLOCK b super = b div 8192 + sb_bmapstart super"

definition get_superblock :: "byte list \<Rightarrow> superblock" where
  "get_superblock d =
     \<lparr>sb_magic = get32 d 0, sb_size = get32 d 4, sb_nblocks = get32 d 8, sb_ninodes = get32 d 12,
      sb_nlog = get32 d 16, sb_logstart = get32 d 20, sb_inodestart = get32 d 24,
      sb_bmapstart = get32 d 28\<rparr>"

definition get_dinode :: "byte list \<Rightarrow> nat \<Rightarrow> dinode" where
  "get_dinode d off =
     \<lparr>d_type = get16 d off, d_major = get16 d (off + 2), d_minor = get16 d (off + 4),
      d_nlink = get16 d (off + 6), d_size = get32 d (off + 8),
      d_addrs = map (\<lambda>i. get32 d (off + 12 + 4 * i)) [0..<NDIRECT + 1]\<rparr>"

definition put_dinode :: "byte list \<Rightarrow> nat \<Rightarrow> dinode \<Rightarrow> byte list" where
  "put_dinode d off di =
     (let d = put16 d off (d_type di);
          d = put16 d (off + 2) (d_major di);
          d = put16 d (off + 4) (d_minor di);
          d = put16 d (off + 6) (d_nlink di);
          d = put32 d (off + 8) (d_size di)
      in put_bytes d (off + 12) (concat (map (le_bytes 4) (d_addrs di))))"

abbreviation dinode_off :: "u32 \<Rightarrow> nat" where
  "dinode_off inum \<equiv> 64 * (unat inum mod IPB)"

section \<open>Blocks\<close>

abbreviation bdata :: "nat \<Rightarrow> 'a blk_scheme \<Rightarrow> byte list" where
  "bdata b s \<equiv> b_data (bufs s ! b)"

abbreviation set_bdata :: "nat \<Rightarrow> byte list \<Rightarrow> 'a blk_scheme \<Rightarrow> 'a blk_scheme" where
  "set_bdata b d s \<equiv> buf_upd b (\<lambda>x. x\<lparr>b_data := d\<rparr>) s"

definition readsb :: "u32 \<Rightarrow> 'a fsys_scheme \<Rightarrow> 'a fsys_scheme res" where
  "readsb dev s =
     rbind (bread dev 1 s) (\<lambda>(bp, s).
       brelse bp (s\<lparr>sb := get_superblock (bdata bp s)\<rparr>))"

definition bzero :: "u32 \<Rightarrow> u32 \<Rightarrow> 'a blk_scheme \<Rightarrow> 'a blk_scheme res" where
  "bzero dev bno s =
     rbind (bread dev bno s) (\<lambda>(bp, s).
     rbind (log_write bp (set_bdata bp (replicate BSIZE 0) s)) (\<lambda>s.
     brelse bp s))"

definition bit_clear :: "byte list \<Rightarrow> nat \<Rightarrow> bool" where
  "bit_clear d bi \<longleftrightarrow> d ! (bi div 8) AND push_bit (bi mod 8) 1 = 0"

definition set_bit :: "byte list \<Rightarrow> nat \<Rightarrow> byte list" where
  "set_bit d bi = d[bi div 8 := d ! (bi div 8) OR push_bit (bi mod 8) 1]"

definition clear_bit :: "byte list \<Rightarrow> nat \<Rightarrow> byte list" where
  "clear_bit d bi = d[bi div 8 := d ! (bi div 8) AND NOT (push_bit (bi mod 8) 1)]"

function balloc_loop :: "u32 \<Rightarrow> nat \<Rightarrow> nat \<Rightarrow> 'a fsys_scheme \<Rightarrow> (u32 \<times> 'a fsys_scheme) res" where
  "balloc_loop dev b nblk s =
     (if b < nblk
      then
        rbind (bread dev (BBLOCK (of_nat b) (sb s)) s) (\<lambda>(bp, s).
          case find (bit_clear (bdata bp s)) [0..<min BPB (nblk - b)] of
            Some bi \<Rightarrow>
              rbind (log_write bp (set_bdata bp (set_bit (bdata bp s) bi) s)) (\<lambda>s.
              rbind (brelse bp s) (\<lambda>s.
              rbind (bzero dev (of_nat (b + bi)) s) (\<lambda>s.
              Ret (of_nat (b + bi), s))))
          | None \<Rightarrow> rbind (brelse bp s) (\<lambda>s. balloc_loop dev (b + BPB) nblk s))
      else Ret (0, kprintf ''balloc: out of blocks'' [] s))"
  by pat_completeness auto
termination by (relation "measure (\<lambda>(dev, b, nblk, s). nblk - b)") auto

declare balloc_loop.simps [simp del]

definition balloc :: "u32 \<Rightarrow> 'a fsys_scheme \<Rightarrow> (u32 \<times> 'a fsys_scheme) res" where
  "balloc dev s = balloc_loop dev 0 (unat (sb_size (sb s))) s"

definition bfree :: "u32 \<Rightarrow> u32 \<Rightarrow> 'a fsys_scheme \<Rightarrow> 'a fsys_scheme res" where
  "bfree dev b s =
     rbind (bread dev (BBLOCK b (sb s)) s) (\<lambda>(bp, s).
       let bi = unat b mod BPB in
       if bit_clear (bdata bp s) bi then Panic ''freeing free block''
       else
         rbind (log_write bp (set_bdata bp (clear_bit (bdata bp s) bi) s)) (\<lambda>s.
         brelse bp s))"

section \<open>Inodes\<close>

definition inode_upd :: "nat \<Rightarrow> (inode \<Rightarrow> inode) \<Rightarrow> 'a fsys_scheme \<Rightarrow> 'a fsys_scheme" where
  "inode_upd ip f s = s\<lparr>itable := (itable s)[ip := f (itable s ! ip)]\<rparr>"

abbreviation ino :: "nat \<Rightarrow> 'a fsys_scheme \<Rightarrow> inode" where
  "ino ip s \<equiv> itable s ! ip"

definition iinit :: "'a fsys_scheme \<Rightarrow> 'a fsys_scheme" where
  "iinit s =
     s\<lparr>itable := map (\<lambda>i. (itable s ! i)\<lparr>i_lock := initsleeplock\<rparr>) [0..<NINODE]\<rparr>"

definition iget :: "u32 \<Rightarrow> u32 \<Rightarrow> 'a fsys_scheme \<Rightarrow> (nat \<times> 'a fsys_scheme) res" where
  "iget dev inum s =
     (case find (\<lambda>i. i_ref (ino i s) > 0 \<and> i_dev (ino i s) = dev \<and> i_inum (ino i s) = inum)
             [0..<NINODE] of
        Some ip \<Rightarrow> Ret (ip, inode_upd ip (\<lambda>x. x\<lparr>i_ref := i_ref x + 1\<rparr>) s)
      | None \<Rightarrow>
          (case find (\<lambda>i. i_ref (ino i s) = 0) [0..<NINODE] of
             None \<Rightarrow> Panic ''iget: no inodes''
           | Some ip \<Rightarrow>
               Ret (ip, inode_upd ip (\<lambda>x. x\<lparr>i_dev := dev, i_inum := inum, i_ref := 1,
                      i_valid := False\<rparr>) s)))"

function ialloc_loop ::
  "u32 \<Rightarrow> u16 \<Rightarrow> nat \<Rightarrow> nat \<Rightarrow> 'a fsys_scheme \<Rightarrow> (nat option \<times> 'a fsys_scheme) res" where
  "ialloc_loop dev type inum ninodes s =
     (if inum < ninodes
      then
        rbind (bread dev (IBLOCK (of_nat inum) (sb s)) s) (\<lambda>(bp, s).
          let off = 64 * (inum mod IPB) in
          if get16 (bdata bp s) off = 0
          then
            let d = put_bytes (bdata bp s) off (replicate 64 0);
                s = set_bdata bp (put16 d off type) s
            in
            rbind (log_write bp s) (\<lambda>s.
            rbind (brelse bp s) (\<lambda>s.
            rbind (iget dev (of_nat inum) s) (\<lambda>(ip, s). Ret (Some ip, s))))
          else
            rbind (brelse bp s) (\<lambda>s. ialloc_loop dev type (inum + 1) ninodes s))
      else Ret (None, kprintf ''ialloc: no inodes'' [] s))"
  by pat_completeness auto
termination by (relation "measure (\<lambda>(dev, type, inum, ninodes, s). ninodes - inum)") auto

declare ialloc_loop.simps [simp del]

definition ialloc :: "u32 \<Rightarrow> u16 \<Rightarrow> 'a fsys_scheme \<Rightarrow> (nat option \<times> 'a fsys_scheme) res" where
  "ialloc dev type s = ialloc_loop dev type 1 (unat (sb_ninodes (sb s))) s"

definition inode_disk :: "inode \<Rightarrow> dinode" where
  "inode_disk ip =
     \<lparr>d_type = i_type ip, d_major = i_major ip, d_minor = i_minor ip, d_nlink = i_nlink ip,
      d_size = i_size ip, d_addrs = i_addrs ip\<rparr>"

definition iupdate :: "nat \<Rightarrow> 'a fsys_scheme \<Rightarrow> 'a fsys_scheme res" where
  "iupdate ip s =
     rbind (bread (i_dev (ino ip s)) (IBLOCK (i_inum (ino ip s)) (sb s)) s) (\<lambda>(bp, s).
       let s = set_bdata bp (put_dinode (bdata bp s) (dinode_off (i_inum (ino ip s)))
                 (inode_disk (ino ip s))) s
       in rbind (log_write bp s) (\<lambda>s. brelse bp s))"

definition idup :: "nat \<Rightarrow> 'a fsys_scheme \<Rightarrow> 'a fsys_scheme" where
  "idup ip s = inode_upd ip (\<lambda>x. x\<lparr>i_ref := i_ref x + 1\<rparr>) s"

definition inode_load :: "dinode \<Rightarrow> inode \<Rightarrow> inode" where
  "inode_load di ip =
     ip\<lparr>i_type := d_type di, i_major := d_major di, i_minor := d_minor di, i_nlink := d_nlink di,
        i_size := d_size di, i_addrs := d_addrs di\<rparr>"

definition ilock :: "nat option \<Rightarrow> 'a fsys_scheme \<Rightarrow> 'a fsys_scheme res" where
  "ilock ipo s =
     (case ipo of
        None \<Rightarrow> Panic ''ilock''
      | Some ip \<Rightarrow>
          if i_ref (ino ip s) < 1 then Panic ''ilock''
          else
            rbind (acquiresleep (i_lock (ino ip s)) s) (\<lambda>lk.
            let s = inode_upd ip (\<lambda>x. x\<lparr>i_lock := lk\<rparr>) s in
            if \<not> i_valid (ino ip s)
            then
              rbind (bread (i_dev (ino ip s)) (IBLOCK (i_inum (ino ip s)) (sb s)) s) (\<lambda>(bp, s).
              let di = get_dinode (bdata bp s) (dinode_off (i_inum (ino ip s)));
                  s = inode_upd ip (inode_load di) s
              in
              rbind (brelse bp s) (\<lambda>s.
              let s = inode_upd ip (\<lambda>x. x\<lparr>i_valid := True\<rparr>) s in
              if i_type (ino ip s) = 0 then Panic ''ilock: no type'' else Ret s))
            else Ret s))"

definition iunlock :: "nat option \<Rightarrow> 'a fsys_scheme \<Rightarrow> 'a fsys_scheme res" where
  "iunlock ipo s =
     (case ipo of
        None \<Rightarrow> Panic ''iunlock''
      | Some ip \<Rightarrow>
          if \<not> holdingsleep (i_lock (ino ip s)) s \<or> i_ref (ino ip s) < 1 then Panic ''iunlock''
          else
            let (lk, s) = releasesleep (ChInode ip) (i_lock (ino ip s)) s
            in Ret (inode_upd ip (\<lambda>x. x\<lparr>i_lock := lk\<rparr>) s))"

section \<open>Inode content\<close>

definition bmap_indirect :: "nat \<Rightarrow> nat \<Rightarrow> u32 \<Rightarrow> 'a fsys_scheme \<Rightarrow> (u32 \<times> 'a fsys_scheme) res" where
  "bmap_indirect ip bn addr s =
     rbind (bread (i_dev (ino ip s)) addr s) (\<lambda>(bp, s).
       let addr = get32 (bdata bp s) (4 * bn) in
       if addr = 0
       then
         rbind (balloc (i_dev (ino ip s)) s) (\<lambda>(addr, s).
         rbind (if addr \<noteq> 0 then log_write bp (set_bdata bp (put32 (bdata bp s) (4 * bn) addr) s)
                else Ret s) (\<lambda>s.
         rbind (brelse bp s) (\<lambda>s. Ret (addr, s))))
       else rbind (brelse bp s) (\<lambda>s. Ret (addr, s)))"

definition bmap :: "nat \<Rightarrow> nat \<Rightarrow> 'a fsys_scheme \<Rightarrow> (u32 \<times> 'a fsys_scheme) res" where
  "bmap ip bn s =
     (if bn < NDIRECT
      then
        let addr = i_addrs (ino ip s) ! bn in
        if addr = 0
        then
          rbind (balloc (i_dev (ino ip s)) s) (\<lambda>(addr, s).
            if addr = 0 then Ret (0, s)
            else Ret (addr, inode_upd ip (\<lambda>x. x\<lparr>i_addrs := (i_addrs x)[bn := addr]\<rparr>) s))
        else Ret (addr, s)
      else
        let bn = bn - NDIRECT in
        if bn < NINDIRECT
        then
          let addr = i_addrs (ino ip s) ! NDIRECT in
          if addr = 0
          then
            rbind (balloc (i_dev (ino ip s)) s) (\<lambda>(addr, s).
              if addr = 0 then Ret (0, s)
              else
                bmap_indirect ip bn addr
                  (inode_upd ip (\<lambda>x. x\<lparr>i_addrs := (i_addrs x)[NDIRECT := addr]\<rparr>) s))
          else bmap_indirect ip bn addr s
        else Panic ''bmap: out of range'')"

definition itrunc_direct :: "nat \<Rightarrow> nat \<Rightarrow> 'a fsys_scheme \<Rightarrow> 'a fsys_scheme res" where
  "itrunc_direct ip i s =
     (if i_addrs (ino ip s) ! i \<noteq> 0
      then
        rbind (bfree (i_dev (ino ip s)) (i_addrs (ino ip s) ! i) s) (\<lambda>s.
        Ret (inode_upd ip (\<lambda>x. x\<lparr>i_addrs := (i_addrs x)[i := 0]\<rparr>) s))
      else Ret s)"

definition itrunc_indirect :: "nat \<Rightarrow> 'a fsys_scheme \<Rightarrow> 'a fsys_scheme res" where
  "itrunc_indirect ip s =
     rbind (bread (i_dev (ino ip s)) (i_addrs (ino ip s) ! NDIRECT) s) (\<lambda>(bp, s).
     rbind (rfold (\<lambda>j s. let a = get32 (bdata bp s) (4 * j) in
                     if a \<noteq> 0 then bfree (i_dev (ino ip s)) a s else Ret s) [0..<NINDIRECT] s) (\<lambda>s.
     rbind (brelse bp s) (\<lambda>s.
     rbind (bfree (i_dev (ino ip s)) (i_addrs (ino ip s) ! NDIRECT) s) (\<lambda>s.
     Ret (inode_upd ip (\<lambda>x. x\<lparr>i_addrs := (i_addrs x)[NDIRECT := 0]\<rparr>) s)))))"

definition itrunc :: "nat \<Rightarrow> 'a fsys_scheme \<Rightarrow> 'a fsys_scheme res" where
  "itrunc ip s =
     rbind (rfold (itrunc_direct ip) [0..<NDIRECT] s) (\<lambda>s.
     rbind (if i_addrs (ino ip s) ! NDIRECT \<noteq> 0 then itrunc_indirect ip s else Ret s) (\<lambda>s.
     iupdate ip (inode_upd ip (\<lambda>x. x\<lparr>i_size := 0\<rparr>) s)))"

definition iput :: "nat \<Rightarrow> 'a fsys_scheme \<Rightarrow> 'a fsys_scheme res" where
  "iput ip s =
     rbind
       (if i_ref (ino ip s) = 1 \<and> i_valid (ino ip s) \<and> i_nlink (ino ip s) = 0
        then
          rbind (acquiresleep (i_lock (ino ip s)) s) (\<lambda>lk.
          rbind (itrunc ip (inode_upd ip (\<lambda>x. x\<lparr>i_lock := lk\<rparr>) s)) (\<lambda>s.
          rbind (iupdate ip (inode_upd ip (\<lambda>x. x\<lparr>i_type := 0\<rparr>) s)) (\<lambda>s.
          let s = inode_upd ip (\<lambda>x. x\<lparr>i_valid := False\<rparr>) s;
              (lk, s) = releasesleep (ChInode ip) (i_lock (ino ip s)) s
          in Ret (inode_upd ip (\<lambda>x. x\<lparr>i_lock := lk\<rparr>) s))))
        else Ret s)
       (\<lambda>s. Ret (inode_upd ip (\<lambda>x. x\<lparr>i_ref := i_ref x - 1\<rparr>) s))"

definition iunlockput :: "nat \<Rightarrow> 'a fsys_scheme \<Rightarrow> 'a fsys_scheme res" where
  "iunlockput ip s = rbind (iunlock (Some ip) s) (\<lambda>s. iput ip s)"

definition ireclaim_one :: "u32 \<Rightarrow> nat \<Rightarrow> 'a fsys_scheme \<Rightarrow> 'a fsys_scheme res" where
  "ireclaim_one dev inum s =
     rbind (bread dev (IBLOCK (of_nat inum) (sb s)) s) (\<lambda>(bp, s).
       let dip = get_dinode (bdata bp s) (64 * (inum mod IPB)) in
       rbind
         (if d_type dip \<noteq> 0 \<and> d_nlink dip = 0
          then
            rbind (iget dev (of_nat inum)
                    (kprintf ''ireclaim: orphaned inode %d'' [PInt (int inum)] s)) (\<lambda>(ip, s).
            Ret (Some ip, s))
          else Ret (None, s))
         (\<lambda>(ipo, s).
           rbind (brelse bp s) (\<lambda>s.
             case ipo of
               None \<Rightarrow> Ret s
             | Some ip \<Rightarrow>
                 rbind (begin_op s) (\<lambda>s.
                 rbind (ilock (Some ip) s) (\<lambda>s.
                 rbind (iunlock (Some ip) s) (\<lambda>s.
                 rbind (iput ip s) (\<lambda>s. end_op s)))))))"

definition ireclaim :: "u32 \<Rightarrow> 'a fsys_scheme \<Rightarrow> 'a fsys_scheme res" where
  "ireclaim dev s = rfold (ireclaim_one dev) [1..<unat (sb_ninodes (sb s))] s"

definition fsinit :: "u32 \<Rightarrow> 'a fsys_scheme \<Rightarrow> 'a fsys_scheme res" where
  "fsinit dev s =
     rbind (readsb dev s) (\<lambda>s.
       if sb_magic (sb s) \<noteq> FSMAGIC then Panic ''invalid file system''
       else rbind (initlog dev (sb s) s) (\<lambda>s. ireclaim dev s))"

record stat =
  st_dev :: u32
  st_ino :: u32
  st_type :: u16
  st_nlink :: u16
  st_size :: u64

definition stati :: "nat \<Rightarrow> 'a fsys_scheme \<Rightarrow> stat" where
  "stati ip s =
     \<lparr>st_dev = i_dev (ino ip s), st_ino = i_inum (ino ip s), st_type = i_type (ino ip s),
      st_nlink = i_nlink (ino ip s), st_size = ucast (i_size (ino ip s))\<rparr>"

end
