(* ===== verification/Dir.thy ===== *)
theory Dir
  imports Fs
begin

text \<open>
  Reading and writing an inode's content, directories and path names (the second half of
  \<^verbatim>\<open>kernel/fs.c\<close>), and \<^verbatim>\<open>create\<close> of \<^verbatim>\<open>kernel/sysfile.c\<close>, which the swap code calls.
\<close>

section \<open>Copy routines\<close>

text \<open>Where the bytes of \<open>readi\<close> go and where those of \<open>writei\<close> come from, for kernel
  addresses: a local variable of the caller, carried along as a byte list and addressed by an
  offset, or physical memory.\<close>

type_synonym ('d, 's) copy_to = "u64 \<Rightarrow> byte list \<Rightarrow> 'd \<Rightarrow> 's \<Rightarrow> (int \<times> 'd \<times> 's) res"
type_synonym 's copy_from = "u64 \<Rightarrow> nat \<Rightarrow> 's \<Rightarrow> (int \<times> byte list \<times> 's) res"

definition to_local :: "(byte list, 's) copy_to" where
  "to_local dst bs d s = Ret (0, put_bytes d (unat dst) bs, s)"

definition to_mem :: "(unit, 'a kmem_scheme) copy_to" where
  "to_mem dst bs d s = Ret (0, d, s\<lparr>mem := write_bytes (mem s) dst bs\<rparr>)"

definition from_local :: "byte list \<Rightarrow> 's copy_from" where
  "from_local d src n s = Ret (0, get_bytes d (unat src) n, s)"

definition from_mem :: "'a kmem_scheme copy_from" where
  "from_mem src n s = Ret (0, read_bytes (mem s) src n, s)"

section \<open>Content\<close>

lemma chunk_decreases:
  assumes "tot < n"
  shows "n - (tot + min (n - tot) (BSIZE - off mod BSIZE)) < n - (tot :: nat)"
proof -
  have "off mod BSIZE < BSIZE" by simp
  then have "0 < min (n - tot) (BSIZE - off mod BSIZE)" using assms by simp
  then show ?thesis using assms by linarith
qed

function readi_loop ::
  "('d, 'a fsys_scheme) copy_to \<Rightarrow> nat \<Rightarrow> u64 \<Rightarrow> nat \<Rightarrow> nat \<Rightarrow> nat \<Rightarrow> 'd \<Rightarrow> 'a fsys_scheme \<Rightarrow>
     (int \<times> 'd \<times> 'a fsys_scheme) res" where
  "readi_loop copy ip dst off tot n d s =
     (if tot < n
      then
        rbind (bmap ip (off div BSIZE) s) (\<lambda>(addr, s).
          if addr = 0 then Ret (int tot, d, s)
          else
            rbind (bread (i_dev (ino ip s)) addr s) (\<lambda>(bp, s).
            let m = min (n - tot) (BSIZE - off mod BSIZE) in
            rbind (copy dst (get_bytes (bdata bp s) (off mod BSIZE) m) d s) (\<lambda>(r, d, s).
              if r = - 1 then rbind (brelse bp s) (\<lambda>s. Ret (- 1, d, s))
              else
                rbind (brelse bp s) (\<lambda>s.
                readi_loop copy ip (dst + of_nat m) (off + m) (tot + m) n d s))))
      else Ret (int tot, d, s))"
  by pat_completeness auto
termination by (relation "measure (\<lambda>(copy, ip, dst, off, tot, n, d, s). n - tot)")
    (simp, simp only: in_measure prod.case, rule chunk_decreases)

declare readi_loop.simps [simp del]

definition readi ::
  "('d, 'a fsys_scheme) copy_to \<Rightarrow> nat \<Rightarrow> u64 \<Rightarrow> u32 \<Rightarrow> u32 \<Rightarrow> 'd \<Rightarrow> 'a fsys_scheme \<Rightarrow>
     (int \<times> 'd \<times> 'a fsys_scheme) res" where
  "readi copy ip dst off n d s =
     (let sz = i_size (ino ip s) in
      if off > sz \<or> off + n < off then Ret (0, d, s)
      else
        let n = (if off + n > sz then sz - off else n)
        in readi_loop copy ip dst (unat off) 0 (unat n) d s)"

function writei_loop ::
  "'a fsys_scheme copy_from \<Rightarrow> nat \<Rightarrow> u64 \<Rightarrow> nat \<Rightarrow> nat \<Rightarrow> nat \<Rightarrow> 'a fsys_scheme \<Rightarrow>
     (nat \<times> nat \<times> 'a fsys_scheme) res" where
  "writei_loop copy ip src off tot n s =
     (if tot < n
      then
        rbind (bmap ip (off div BSIZE) s) (\<lambda>(addr, s).
          if addr = 0 then Ret (tot, off, s)
          else
            rbind (bread (i_dev (ino ip s)) addr s) (\<lambda>(bp, s).
            let m = min (n - tot) (BSIZE - off mod BSIZE) in
            rbind (copy src m s) (\<lambda>(r, bs, s).
              let s = set_bdata bp (put_bytes (bdata bp s) (off mod BSIZE) bs) s in
              if r = - 1 then rbind (brelse bp s) (\<lambda>s. Ret (tot, off, s))
              else
                rbind (log_write bp s) (\<lambda>s.
                rbind (brelse bp s) (\<lambda>s.
                writei_loop copy ip (src + of_nat m) (off + m) (tot + m) n s)))))
      else Ret (tot, off, s))"
  by pat_completeness auto
termination by (relation "measure (\<lambda>(copy, ip, src, off, tot, n, s). n - tot)")
    (simp, simp only: in_measure prod.case, rule chunk_decreases)

declare writei_loop.simps [simp del]

definition writei ::
  "'a fsys_scheme copy_from \<Rightarrow> nat \<Rightarrow> u64 \<Rightarrow> u32 \<Rightarrow> u32 \<Rightarrow> 'a fsys_scheme \<Rightarrow>
     (int \<times> 'a fsys_scheme) res" where
  "writei copy ip src off n s =
     (if off > i_size (ino ip s) \<or> off + n < off then Ret (- 1, s)
      else if unat (off + n) > MAXFILE * BSIZE then Ret (- 1, s)
      else
        rbind (writei_loop copy ip src (unat off) 0 (unat n) s) (\<lambda>(tot, off, s).
        let s = (if off > unat (i_size (ino ip s))
                 then inode_upd ip (\<lambda>x. x\<lparr>i_size := of_nat off\<rparr>) s else s)
        in rbind (iupdate ip s) (\<lambda>s. Ret (int tot, s))))"

section \<open>Directories\<close>

text \<open>A directory entry: the inode number and the name, 16 bytes.\<close>

definition de_inum :: "byte list \<Rightarrow> u16" where
  "de_inum de = get16 de 0"

definition de_name :: "byte list \<Rightarrow> byte list" where
  "de_name de = get_bytes de 2 DIRSIZ"

definition mk_dirent :: "u16 \<Rightarrow> byte list \<Rightarrow> byte list" where
  "mk_dirent inum name = le_bytes 2 inum @ name"

definition namecmp :: "byte list \<Rightarrow> byte list \<Rightarrow> int" where
  "namecmp a b = strncmp (cptr a) (cptr b) DIRSIZ"

definition read_dirent :: "string \<Rightarrow> nat \<Rightarrow> nat \<Rightarrow> 'a fsys_scheme \<Rightarrow>
    (byte list \<times> 'a fsys_scheme) res" where
  "read_dirent msg dp off s =
     rbind (readi to_local dp 0 (of_nat off) 16 (replicate 16 0) s) (\<lambda>(r, de, s).
       if r \<noteq> 16 then Panic msg else Ret (de, s))"

text \<open>The caller holds the directory's lock and \<open>readi\<close> does not write its size, so the
  loops take the size as it is at the start.\<close>

function dirlookup_loop :: "nat \<Rightarrow> byte list \<Rightarrow> nat \<Rightarrow> nat \<Rightarrow> 'a fsys_scheme \<Rightarrow>
    ((nat \<times> u32) option \<times> 'a fsys_scheme) res" where
  "dirlookup_loop dp name off sz s =
     (if off < sz
      then
        rbind (read_dirent ''dirlookup read'' dp off s) (\<lambda>(de, s).
          if de_inum de = 0 then dirlookup_loop dp name (off + 16) sz s
          else if namecmp name (de_name de) = 0
          then
            rbind (iget (i_dev (ino dp s)) (ucast (de_inum de)) s) (\<lambda>(ip, s).
            Ret (Some (ip, of_nat off), s))
          else dirlookup_loop dp name (off + 16) sz s)
      else Ret (None, s))"
  by pat_completeness auto
termination by (relation "measure (\<lambda>(dp, name, off, sz, s). sz - off)") simp_all

declare dirlookup_loop.simps [simp del]

definition dirlookup :: "nat \<Rightarrow> byte list \<Rightarrow> 'a fsys_scheme \<Rightarrow>
    ((nat \<times> u32) option \<times> 'a fsys_scheme) res" where
  "dirlookup dp name s =
     (if i_type (ino dp s) \<noteq> T_DIR then Panic ''dirlookup not DIR''
      else dirlookup_loop dp name 0 (unat (i_size (ino dp s))) s)"

function dirlink_loop :: "nat \<Rightarrow> nat \<Rightarrow> nat \<Rightarrow> 'a fsys_scheme \<Rightarrow> (nat \<times> 'a fsys_scheme) res" where
  "dirlink_loop dp off sz s =
     (if off < sz
      then
        rbind (read_dirent ''dirlink read'' dp off s) (\<lambda>(de, s).
          if de_inum de = 0 then Ret (off, s) else dirlink_loop dp (off + 16) sz s)
      else Ret (off, s))"
  by pat_completeness auto
termination by (relation "measure (\<lambda>(dp, off, sz, s). sz - off)") simp_all

declare dirlink_loop.simps [simp del]

definition dirlink :: "nat \<Rightarrow> byte list \<Rightarrow> u32 \<Rightarrow> 'a fsys_scheme \<Rightarrow> (int \<times> 'a fsys_scheme) res" where
  "dirlink dp name inum s =
     rbind (dirlookup dp name s) (\<lambda>(r, s).
       case r of
         Some (ip, _) \<Rightarrow> rbind (iput ip s) (\<lambda>s. Ret (- 1, s))
       | None \<Rightarrow>
           rbind (dirlink_loop dp 0 (unat (i_size (ino dp s))) s) (\<lambda>(off, s).
           let de = mk_dirent (ucast inum) (strncpy (replicate DIRSIZ 0) (cptr name) (int DIRSIZ)) in
           rbind (writei (from_local de) dp 0 (of_nat off) 16 s) (\<lambda>(r, s).
             if r \<noteq> 16 then Ret (- 1, s) else Ret (0, s))))"

section \<open>Path names\<close>

abbreviation (input) SLASH :: byte where "SLASH \<equiv> 0x2F"

definition skipelem :: "byte list \<Rightarrow> byte list \<Rightarrow> (byte list \<times> byte list) option" where
  "skipelem path name =
     (let path = dropWhile (\<lambda>c. c = SLASH) path in
      if path = [] then None
      else
        let elem = takeWhile (\<lambda>c. c \<noteq> SLASH) path;
            path = dropWhile (\<lambda>c. c \<noteq> SLASH) path;
            name = (if length elem \<ge> DIRSIZ then put_bytes name 0 (take DIRSIZ elem)
                    else put_bytes name 0 (elem @ [0]))
        in Some (dropWhile (\<lambda>c. c = SLASH) path, name))"

lemma skipelem_shorter:
  assumes "skipelem path name = Some (rest, name')"
  shows "length rest < length path"
proof -
  let ?p = "dropWhile (\<lambda>c. c = SLASH) path"
  have ne: "?p \<noteq> []" and rest: "rest = dropWhile (\<lambda>c. c = SLASH) (dropWhile (\<lambda>c. c \<noteq> SLASH) ?p)"
    using assms by (auto simp: skipelem_def Let_def split: if_splits)
  obtain c q where cq: "?p = c # q" using ne by (cases ?p) auto
  have "c \<noteq> SLASH" using hd_dropWhile [of "\<lambda>c. c = SLASH" path] cq by simp
  then have "length (dropWhile (\<lambda>c. c \<noteq> SLASH) ?p) \<le> length q"
    using cq length_dropWhile_le [of "\<lambda>c. c \<noteq> SLASH" q] by simp
  moreover have "length ?p \<le> length path" by (rule length_dropWhile_le)
  moreover have "length rest \<le> length (dropWhile (\<lambda>c. c \<noteq> SLASH) ?p)"
    unfolding rest by (rule length_dropWhile_le)
  ultimately show ?thesis using cq by simp
qed

text \<open>The result is the inode, if any, and the name buffer.\<close>

function namex_loop :: "byte list \<Rightarrow> bool \<Rightarrow> byte list \<Rightarrow> nat \<Rightarrow> 'a fsys_scheme \<Rightarrow>
    (nat option \<times> byte list \<times> 'a fsys_scheme) res" where
  "namex_loop path parent name ip s =
     (case skipelem path name of
        None \<Rightarrow>
          if parent then rbind (iput ip s) (\<lambda>s. Ret (None, name, s))
          else Ret (Some ip, name, s)
      | Some (path, name) \<Rightarrow>
          rbind (ilock (Some ip) s) (\<lambda>s.
            if i_type (ino ip s) \<noteq> T_DIR
            then rbind (iunlockput ip s) (\<lambda>s. Ret (None, name, s))
            else if parent \<and> path = []
            then rbind (iunlock (Some ip) s) (\<lambda>s. Ret (Some ip, name, s))
            else
              rbind (dirlookup ip name s) (\<lambda>(r, s).
                case r of
                  None \<Rightarrow> rbind (iunlockput ip s) (\<lambda>s. Ret (None, name, s))
                | Some (nxt, _) \<Rightarrow>
                    rbind (iunlockput ip s) (\<lambda>s. namex_loop path parent name nxt s))))"
  by pat_completeness auto
termination
  by (relation "measure (\<lambda>(path, parent, name, ip, s). length path)")
    (auto dest: skipelem_shorter sym)

declare namex_loop.simps [simp del]

text \<open>A null pointer that the kernel follows traps: its page table maps nothing at 0.\<close>

definition deref :: "'a option \<Rightarrow> 'a res" where
  "deref x = (case x of Some v \<Rightarrow> Ret v | None \<Rightarrow> Panic ''kerneltrap'')"

definition namex :: "byte list \<Rightarrow> bool \<Rightarrow> byte list \<Rightarrow> 'a fsys_scheme \<Rightarrow>
    (nat option \<times> byte list \<times> 'a fsys_scheme) res" where
  "namex path parent name s =
     (if cptr path 0 = SLASH
      then rbind (iget ROOTDEV ROOTINO s) (\<lambda>(ip, s). namex_loop path parent name ip s)
      else rbind (deref (p_cwd (myproc s))) (\<lambda>ip. namex_loop path parent name ip (idup ip s)))"

definition namei :: "byte list \<Rightarrow> 'a fsys_scheme \<Rightarrow> (nat option \<times> 'a fsys_scheme) res" where
  "namei path s =
     rbind (namex path False (replicate DIRSIZ 0) s) (\<lambda>(ip, _, s). Ret (ip, s))"

definition nameiparent :: "byte list \<Rightarrow> 'a fsys_scheme \<Rightarrow>
    (nat option \<times> byte list \<times> 'a fsys_scheme) res" where
  "nameiparent path s = namex path True (replicate DIRSIZ 0) s"

section \<open>Creating a file\<close>

definition create_fail :: "nat \<Rightarrow> nat \<Rightarrow> 'a fsys_scheme \<Rightarrow> (nat option \<times> 'a fsys_scheme) res" where
  "create_fail ip dp s =
     rbind (iupdate ip (inode_upd ip (\<lambda>x. x\<lparr>i_nlink := 0\<rparr>) s)) (\<lambda>s.
     rbind (iunlockput ip s) (\<lambda>s.
     rbind (iunlockput dp s) (\<lambda>s. Ret (None, s))))"

definition create_link :: "byte list \<Rightarrow> u16 \<Rightarrow> nat \<Rightarrow> nat \<Rightarrow> 'a fsys_scheme \<Rightarrow>
    (nat option \<times> 'a fsys_scheme) res" where
  "create_link name type ip dp s =
     rbind (dirlink dp name (i_inum (ino ip s)) s) (\<lambda>(r, s).
       if r < 0 then create_fail ip dp s
       else
         rbind (if type = T_DIR
                then iupdate dp (inode_upd dp (\<lambda>x. x\<lparr>i_nlink := i_nlink x + 1\<rparr>) s)
                else Ret s) (\<lambda>s.
         rbind (iunlockput dp s) (\<lambda>s. Ret (Some ip, s))))"

definition create :: "byte list \<Rightarrow> u16 \<Rightarrow> u16 \<Rightarrow> u16 \<Rightarrow> 'a fsys_scheme \<Rightarrow>
    (nat option \<times> 'a fsys_scheme) res" where
  "create path type major minor s =
     rbind (nameiparent path s) (\<lambda>(dpo, name, s).
       case dpo of
         None \<Rightarrow> Ret (None, s)
       | Some dp \<Rightarrow>
         rbind (ilock (Some dp) s) (\<lambda>s.
         rbind (dirlookup dp name s) (\<lambda>(r, s).
           case r of
             Some (ip, _) \<Rightarrow>
               rbind (iunlockput dp s) (\<lambda>s.
               rbind (ilock (Some ip) s) (\<lambda>s.
                 if type = T_FILE \<and> (i_type (ino ip s) = T_FILE \<or> i_type (ino ip s) = T_DEVICE)
                 then Ret (Some ip, s)
                 else rbind (iunlockput ip s) (\<lambda>s. Ret (None, s))))
           | None \<Rightarrow>
               rbind (ialloc (i_dev (ino dp s)) type s) (\<lambda>(ipo, s).
                 case ipo of
                   None \<Rightarrow> rbind (iunlockput dp s) (\<lambda>s. Ret (None, s))
                 | Some ip \<Rightarrow>
                     rbind (ilock (Some ip) s) (\<lambda>s.
                     rbind (iupdate ip (inode_upd ip (\<lambda>x. x\<lparr>i_major := major, i_minor := minor,
                              i_nlink := 1\<rparr>) s)) (\<lambda>s.
                       if type = T_DIR
                       then
                         rbind (dirlink ip [0x2E] (i_inum (ino ip s)) s) (\<lambda>(r, s).
                           if r < 0 then create_fail ip dp s
                           else
                             rbind (dirlink ip [0x2E, 0x2E] (i_inum (ino dp s)) s) (\<lambda>(r, s).
                               if r < 0 then create_fail ip dp s
                               else create_link name type ip dp s))
                       else create_link name type ip dp s))))))"

end
