(* ===== verification/Paging.thy ===== *)
theory Paging
  imports Dir
begin

text \<open>
  Demand paging (\<^verbatim>\<open>kernel/vm.c\<close>, from \<^verbatim>\<open>vmfault\<close> on): the resident set, the two
  replacement policies, eviction, the per-process swap file and the page fault handler.

  The resident set is the array \<open>p_resident\<close> with its first \<open>p_nresident\<close> entries in use.
  A victim is an index of the array, \<open>- 1\<close> when there is none, as in the code.
\<close>

section \<open>Choosing a victim\<close>

definition USE_SECOND_CHANCE :: bool where
  "USE_SECOND_CHANCE = False"

abbreviation res :: "'a mach_scheme \<Rightarrow> nat \<Rightarrow> resident_page" where
  "res s i \<equiv> p_resident (myproc s) ! i"

definition res_upd :: "nat \<Rightarrow> (resident_page \<Rightarrow> resident_page) \<Rightarrow> proc \<Rightarrow> proc" where
  "res_upd i f p = p\<lparr>p_resident := (p_resident p)[i := f (p_resident p ! i)]\<rparr>"

definition fifo_scan :: "proc \<Rightarrow> int \<times> u64" where
  "fifo_scan p =
     foldl (\<lambda>(victim_idx, min_seq) i.
         if rp_in_memory (p_resident p ! i) \<and> rp_seq (p_resident p ! i) < min_seq
         then (int i, rp_seq (p_resident p ! i)) else (victim_idx, min_seq))
       (- 1, 0xFFFFFFFFFFFFFFFF) [0..<p_nresident p]"

definition find_victim_fifo :: "'a mach_scheme \<Rightarrow> int \<times> 'a mach_scheme" where
  "find_victim_fifo s =
     (let p = myproc s in
      if p_nresident p = 0 then (- 1, s)
      else
        let victim_idx = fst (fifo_scan p) in
        if victim_idx < 0 then (- 1, s)
        else
          (victim_idx,
           kprintf ''[pid %d] VICTIM va=0x%lx seq=%ld algo=FIFO''
             [PInt (p_pid p), PLong (rp_va (p_resident p ! nat victim_idx)),
              PLong (rp_seq (p_resident p ! nat victim_idx))] s))"

text \<open>The sweep of the clock; the first argument counts the iterations that are left.\<close>

primrec clock_sweep :: "nat \<Rightarrow> 'a mach_scheme \<Rightarrow> (int \<times> 'a mach_scheme) res" where
  "clock_sweep 0 s = Ret (- 1, s)"
| "clock_sweep (Suc k) s =
     (let p = myproc s; h = nat (p_clock_hand p);
          advance = (\<lambda>p. p\<lparr>p_clock_hand := (p_clock_hand p + 1) mod int (p_nresident p)\<rparr>)
      in
      if \<not> rp_in_memory (p_resident p ! h)
      then clock_sweep k (myproc_upd advance s)
      else
        rbind (walk (p_pagetable p) (rp_va (p_resident p ! h)) False s) (\<lambda>(pte, s).
          if pte = 0 \<or> load64 (mem s) pte AND PTE_V = 0 then Ret (p_clock_hand p, s)
          else if rp_ref_bit (p_resident p ! h)
          then clock_sweep k
                 (myproc_upd (advance \<circ> res_upd h (\<lambda>r. r\<lparr>rp_ref_bit := False\<rparr>)) s)
          else Ret (p_clock_hand p, s)))"

definition find_victim_second_chance :: "'a mach_scheme \<Rightarrow> (int \<times> 'a mach_scheme) res" where
  "find_victim_second_chance s =
     (let p = myproc s; n = p_nresident p in
      if n = 0 then Ret (- 1, s)
      else if length (filter (\<lambda>i. rp_in_memory (p_resident p ! i)) [0..<n]) = 0 then Ret (- 1, s)
      else
        let s = (if p_clock_hand p < 0 \<or> p_clock_hand p \<ge> int n
                 then myproc_upd (\<lambda>p. p\<lparr>p_clock_hand := 0\<rparr>) s else s)
        in
        rbind (clock_sweep (2 * n) s) (\<lambda>(victim_idx, s).
        let p = myproc s;
            victim_idx =
              (if victim_idx < 0
               then (case find (\<lambda>i. rp_in_memory (p_resident p ! i)) [0..<n] of
                       Some i \<Rightarrow> int i | None \<Rightarrow> - 1)
               else victim_idx)
        in
        if victim_idx < 0 then Ret (- 1, s)
        else
          let s = kprintf ''[pid %d] VICTIM va=0x%lx seq=%ld algo=SecondChance clock_pos=%d''
                    [PInt (p_pid p), PLong (rp_va (p_resident p ! nat victim_idx)),
                     PLong (rp_seq (p_resident p ! nat victim_idx)), PInt (p_clock_hand p)] s;
              s = myproc_upd (\<lambda>p. p\<lparr>p_clock_hand := (p_clock_hand p + 1) mod int n\<rparr>) s;
              s = (if n = 1 then myproc_upd (\<lambda>p. p\<lparr>p_clock_hand := 0\<rparr>) s else s)
          in Ret (victim_idx, s)))"

definition find_victim :: "'a mach_scheme \<Rightarrow> (int \<times> 'a mach_scheme) res" where
  "find_victim s =
     (if USE_SECOND_CHANCE then find_victim_second_chance s else Ret (find_victim_fifo s))"

section \<open>Swap slots\<close>

abbreviation slot_mask :: "nat \<Rightarrow> u32" where
  "slot_mask slot \<equiv> push_bit (slot mod 32) 1"

definition slot_free :: "proc \<Rightarrow> nat \<Rightarrow> bool" where
  "slot_free p slot \<longleftrightarrow> p_swap_bitmap p ! (slot div 32) AND slot_mask slot = 0"

definition alloc_swap_slot :: "'a mach_scheme \<Rightarrow> int \<times> 'a mach_scheme" where
  "alloc_swap_slot s =
     (case find (slot_free (myproc s)) [0..<MAX_SWAP_PAGES] of
        Some i \<Rightarrow>
          (int i, myproc_upd (\<lambda>p. p\<lparr>p_swap_bitmap := (p_swap_bitmap p)
             [i div 32 := p_swap_bitmap p ! (i div 32) OR slot_mask i]\<rparr>) s)
      | None \<Rightarrow> (- 1, s))"

definition free_swap_slot :: "int \<Rightarrow> 'a mach_scheme \<Rightarrow> 'a mach_scheme" where
  "free_swap_slot slot s =
     (if slot < 0 \<or> slot \<ge> int MAX_SWAP_PAGES then s
      else
        let i = nat slot in
        myproc_upd (\<lambda>p. p\<lparr>p_swap_bitmap := (p_swap_bitmap p)
          [i div 32 := p_swap_bitmap p ! (i div 32) AND NOT (slot_mask i)]\<rparr>) s)"

section \<open>The swap file\<close>

text \<open>The digits of the file name, from the last to the first.\<close>

primrec swap_digits :: "nat list \<Rightarrow> int \<Rightarrow> byte list \<Rightarrow> byte list" where
  "swap_digits [] pid name = name"
| "swap_digits (i # is) pid name =
     swap_digits is (pid div 10) (name[i := of_int (48 + pid mod 10)])"

definition swap_name :: "int \<Rightarrow> byte list \<Rightarrow> byte list" where
  "swap_name pid name =
     (let name = name[0 := 0x70, 1 := 0x67, 2 := 0x73, 3 := 0x77, 4 := 0x70]
      in (swap_digits [9, 8, 7, 6, 5] pid name)[10 := 0])"

definition create_swapfile :: "'a fsys_scheme \<Rightarrow> (int \<times> 'a fsys_scheme) res" where
  "create_swapfile s =
     (let s = myproc_upd (\<lambda>p. p\<lparr>p_swapname := swap_name (p_pid p) (p_swapname p)\<rparr>) s in
      rbind (begin_op s) (\<lambda>s.
      rbind (create (cstr (p_swapname (myproc s))) T_FILE 0 0 s) (\<lambda>(ipo, s).
        case ipo of
          None \<Rightarrow> rbind (end_op s) (\<lambda>s. Ret (- 1, s))
        | Some ip \<Rightarrow>
            rbind (iunlock (Some ip) (idup ip s)) (\<lambda>s.
            rbind (end_op s) (\<lambda>s.
            let s = myproc_upd (\<lambda>p. p\<lparr>p_swapfile := Some ip, p_nswapped := 0,
                      p_swap_bitmap := replicate 32 0,
                      p_resident := map (\<lambda>r. r\<lparr>rp_swap_offset := - 1\<rparr>) (p_resident p)\<rparr>) s
            in Ret (0, s))))))"

definition close_swapfile :: "'a fsys_scheme \<Rightarrow> 'a fsys_scheme res" where
  "close_swapfile s =
     (case p_swapfile (myproc s) of
        None \<Rightarrow> Ret s
      | Some ip \<Rightarrow>
          let s = kprintf ''SWAPCLEANUP pid=%d slots=%d''
                    [PInt (p_pid (myproc s)), PInt (p_nswapped (myproc s))] s
          in
          rbind (begin_op s) (\<lambda>s.
          rbind (ilock (Some ip) s) (\<lambda>s.
          rbind (iupdate ip (inode_upd ip (\<lambda>x. x\<lparr>i_nlink := 0\<rparr>) s)) (\<lambda>s.
          rbind (iunlockput ip s) (\<lambda>s.
          rbind (end_op s) (\<lambda>s.
          Ret (myproc_upd (\<lambda>p. p\<lparr>p_swapfile := None, p_nswapped := 0\<rparr>) s)))))))"

definition swap_out :: "u64 \<Rightarrow> nat \<Rightarrow> 'a fsys_scheme \<Rightarrow> (int \<times> 'a fsys_scheme) res" where
  "swap_out va resident_idx s =
     rbind (if p_swapfile (myproc s) = None then create_swapfile s else Ret (0, s)) (\<lambda>(r, s).
       if r < 0 then Ret (- 1, kprintf ''swap_out: failed to create swap file'' [] s)
       else
         let (slot, s) = alloc_swap_slot s in
         if slot < 0 then Ret (- 1, kprintf ''SWAPFULL pid=%d'' [PInt (p_pid (myproc s))] s)
         else
           rbind (walk (p_pagetable (myproc s)) va False s) (\<lambda>(pte, s).
             if pte = 0 \<or> load64 (mem s) pte AND PTE_V = 0
             then Ret (- 1, free_swap_slot slot s)
             else
               let pa = PTE2PA (load64 (mem s) pte) in
               case p_swapfile (myproc s) of
                 None \<Rightarrow> Ret (- 1, free_swap_slot slot s)
               | Some ip \<Rightarrow>
                   rbind (begin_op s) (\<lambda>s.
                   rbind (ilock (Some ip) s) (\<lambda>s.
                   rbind (writei from_mem ip pa (of_int (slot * 4096)) 4096 s) (\<lambda>(written, s).
                   rbind (iunlock (Some ip) s) (\<lambda>s.
                   rbind (end_op s) (\<lambda>s.
                     if written \<noteq> 4096 then Ret (- 1, free_swap_slot slot s)
                     else
                       let s = myproc_upd (res_upd resident_idx (\<lambda>r. r\<lparr>rp_swap_offset := slot\<rparr>)) s;
                           s = myproc_upd (\<lambda>p. p\<lparr>p_nswapped := p_nswapped p + 1,
                                 p_swap_map := (p_swap_map p)
                                   [nat slot := \<lparr>sw_va = va, sw_slot = slot\<rparr>]\<rparr>) s
                       in Ret (0, kprintf ''[pid %d] SWAPOUT va=0x%lx slot=%d''
                            [PInt (p_pid (myproc s)), PLong va, PInt slot] s))))))))"

section \<open>Eviction\<close>

definition remove_resident :: "nat \<Rightarrow> proc \<Rightarrow> proc" where
  "remove_resident idx p =
     (let p = p\<lparr>p_resident := foldl (\<lambda>r i. r[i := r ! (i + 1)]) (p_resident p)
                  [idx..<p_nresident p - 1]\<rparr>;
          p = p\<lparr>p_nresident := p_nresident p - 1\<rparr>
      in
      if p_clock_hand p > int idx then p\<lparr>p_clock_hand := p_clock_hand p - 1\<rparr>
      else if p_clock_hand p = int idx \<and> p_nresident p > 0
      then (if p_clock_hand p \<ge> int (p_nresident p) then p\<lparr>p_clock_hand := 0\<rparr> else p)
      else if p_nresident p = 0 then p\<lparr>p_clock_hand := 0\<rparr>
      else p)"

definition evict_page :: "int \<Rightarrow> 'a fsys_scheme \<Rightarrow> (int \<times> 'a fsys_scheme) res" where
  "evict_page idx s =
     (if idx < 0 \<or> idx \<ge> int (p_nresident (myproc s)) then Ret (- 1, s)
      else
        let i = nat idx; va = rp_va (res s i); dirty = rp_dirty (res s i);
            pid = PInt (p_pid (myproc s)) in
        rbind (walk (p_pagetable (myproc s)) va False s) (\<lambda>(pte, s).
          if pte = 0 \<or> load64 (mem s) pte AND PTE_V = 0
          then Ret (0, myproc_upd (remove_resident i) s)
          else
            let pa = PTE2PA (load64 (mem s) pte) in
            rbind
              (if dirty
               then swap_out va i (kprintf ''[pid %d] EVICT  va=0x%lx state=dirty'' [pid, PLong va] s)
               else Ret (0, kprintf ''[pid %d] DISCARD va=0x%lx'' [pid, PLong va]
                      (kprintf ''[pid %d] EVICT  va=0x%lx state=clean'' [pid, PLong va] s)))
              (\<lambda>(r, s).
                if r < 0
                then Ret (- 1, kprintf ''[pid %d] KILL swap-exhausted'' [pid]
                       (kprintf ''[pid %d] SWAPFULL'' [pid] s))
                else
                  rbind (kfree pa s) (\<lambda>s.
                  let s = s\<lparr>mem := store64 (mem s) pte 0\<rparr>
                  in Ret (0, myproc_upd (remove_resident i) s)))))"

section \<open>The resident set\<close>

definition append_resident :: "u64 \<Rightarrow> 'a mach_scheme \<Rightarrow> 'a mach_scheme" where
  "append_resident va s =
     (let p = myproc s; n = p_nresident p;
          s = myproc_upd (\<lambda>p. p\<lparr>p_resident := (p_resident p)
                [n := \<lparr>rp_va = va, rp_seq = p_next_seq p, rp_dirty = False, rp_swap_offset = - 1,
                       rp_in_memory = True, rp_ref_bit = True\<rparr>], p_nresident := n + 1\<rparr>) s;
          s = kprintf ''[pid %d] RESIDENT va=0x%lx seq=%ld''
                [PInt (p_pid p), PLong va, PLong (p_next_seq p)] s
      in myproc_upd (\<lambda>p. p\<lparr>p_next_seq := p_next_seq p + 1\<rparr>) s)"

definition add_resident_page :: "u64 \<Rightarrow> 'a fsys_scheme \<Rightarrow> 'a fsys_scheme res" where
  "add_resident_page va s =
     (let p = myproc s in
      if \<exists>i \<in> {0..<p_nresident p}. rp_va (p_resident p ! i) = va then Ret s
      else if p_nresident p < MAX_RESIDENT_PAGES then Ret (append_resident va s)
      else
        let s = kprintf ''[pid %d] MEMFULL'' [PInt (p_pid p)] s in
        rbind (find_victim s) (\<lambda>(victim_idx, s).
          if victim_idx < 0
          then Ret (snd (kkill (p_pid p)
                 (kprintf ''[pid %d] add_resident_page: no victim found, killing process''
                    [PInt (p_pid p)] s)))
          else
            rbind (evict_page victim_idx s) (\<lambda>(r, s).
              if r < 0
              then Ret (snd (kkill (p_pid p)
                     (kprintf ''[pid %d] add_resident_page: failed to evict page, killing process''
                        [PInt (p_pid p)] s)))
              else Ret (append_resident va s))))"

definition mark_page_dirty :: "u64 \<Rightarrow> 'a mach_scheme \<Rightarrow> 'a mach_scheme" where
  "mark_page_dirty va s =
     (let va_aligned = PGROUNDDOWN va; p = myproc s in
      case find (\<lambda>i. rp_va (p_resident p ! i) = va_aligned) [0..<p_nresident p] of
        Some i \<Rightarrow> myproc_upd (res_upd i (\<lambda>r. r\<lparr>rp_dirty := True, rp_ref_bit := True\<rparr>)) s
      | None \<Rightarrow> s)"

section \<open>Swapping in\<close>

text \<open>A page of memory, evicting one page of the process when there is none; the address is 0
  on failure.  The page fault handler prints before it evicts, \<^verbatim>\<open>swap_in\<close> does not.\<close>

definition kalloc_evict :: "bool \<Rightarrow> 'a fsys_scheme \<Rightarrow> (addr \<times> 'a fsys_scheme) res" where
  "kalloc_evict verbose s =
     (let (pa, s) = kalloc s in
      if pa \<noteq> 0 then Ret (pa, s)
      else
        let s = (if verbose then kprintf ''MEMFULL pid=%d'' [PInt (p_pid (myproc s))] s else s) in
        rbind (find_victim s) (\<lambda>(victim_idx, s).
          if victim_idx < 0 then Ret (0, s)
          else
            rbind (evict_page victim_idx s) (\<lambda>(r, s).
              if r < 0 then Ret (0, s) else Ret (kalloc s))))"

definition swap_in :: "u64 \<Rightarrow> int \<Rightarrow> 'a fsys_scheme \<Rightarrow> (int \<times> 'a fsys_scheme) res" where
  "swap_in va slot s =
     (case p_swapfile (myproc s) of
        None \<Rightarrow> Ret (- 1, s)
      | Some ip \<Rightarrow>
          if slot < 0 \<or> slot \<ge> int MAX_SWAP_PAGES then Ret (- 1, s)
          else
            rbind (kalloc_evict False s) (\<lambda>(pa, s).
              if pa = 0 then Ret (- 1, s)
              else
                rbind (begin_op s) (\<lambda>s.
                rbind (ilock (Some ip) s) (\<lambda>s.
                rbind (readi to_mem ip pa (of_int (slot * 4096)) 4096 () s) (\<lambda>(r, _, s).
                rbind (iunlock (Some ip) s) (\<lambda>s.
                rbind (end_op s) (\<lambda>s.
                  if r \<noteq> 4096 then rbind (kfree pa s) (\<lambda>s. Ret (- 1, s))
                  else
                    rbind (mappages (p_pagetable (myproc s)) (PGROUNDDOWN va) PGSIZE pa
                             (PTE_U OR PTE_R OR PTE_W) s) (\<lambda>(r, s).
                      if r \<noteq> 0 then rbind (kfree pa s) (\<lambda>s. Ret (- 1, s))
                      else
                        let s = free_swap_slot slot s;
                            s = myproc_upd (\<lambda>p. p\<lparr>p_nswapped := p_nswapped p - 1,
                                  p_swap_map := (p_swap_map p)
                                    [nat slot := \<lparr>sw_va = - 1, sw_slot = - 1\<rparr>]\<rparr>) s
                        in Ret (0, s)))))))))"

section \<open>Page faults\<close>

abbreviation tf_sp :: "'a mach_scheme \<Rightarrow> u64" where
  "tf_sp s \<equiv> load64 (mem s) (p_trapframe (myproc s) + 48)"

definition access_str :: "bool \<Rightarrow> parg" where
  "access_str write = PStr (if write then ''write'' else ''read'')"

text \<open>A fault in a segment of the executable: the page is read from the file, or zero beyond the
  file's part of the segment.\<close>

definition seg_perm :: "seginfo \<Rightarrow> u64" where
  "seg_perm seg =
     (PTE_U OR PTE_R) OR
     (if seg_flags seg AND 0x2 \<noteq> 0 then PTE_W else 0) OR
     (if seg_flags seg AND 0x1 \<noteq> 0 then PTE_X else 0)"

definition load_seg_page ::
  "seginfo \<Rightarrow> u64 \<Rightarrow> bool \<Rightarrow> addr \<Rightarrow> 'a fsys_scheme \<Rightarrow> (bool \<times> 'a fsys_scheme) res" where
  "load_seg_page seg va write pa s =
     (let page_off = va - seg_vaddr seg;
          offset = seg_offset seg + page_off;
          pid = PInt (p_pid (myproc s));
          fault = kprintf ''[pid %d] PAGEFAULT va=0x%lx access=%s cause=exec''
                    [pid, PLong va, access_str write]
      in
      if page_off < seg_filesz seg
      then
        let n = (if seg_filesz seg - page_off < PGSIZE then seg_filesz seg - page_off else PGSIZE);
            ipo = p_execfile (myproc s)
        in
        rbind (ilock ipo s) (\<lambda>s.
        rbind (readi to_mem (the ipo) pa (ucast offset) (ucast n) () s) (\<lambda>(r, _, s).
          if r \<noteq> uint n
          then
            rbind (iunlock ipo s) (\<lambda>s.
            rbind (kfree pa s) (\<lambda>s. Ret (False, s)))
          else
            rbind (iunlock ipo s) (\<lambda>s.
            Ret (True, kprintf ''[pid %d] LOADEXEC va=0x%lx'' [pid, PLong va] (fault s)))))
      else Ret (True, kprintf ''[pid %d] ALLOC va=0x%lx'' [pid, PLong va] (fault s)))"

definition vmfault_seg ::
  "addr \<Rightarrow> seginfo \<Rightarrow> u64 \<Rightarrow> bool \<Rightarrow> 'a fsys_scheme \<Rightarrow> (addr \<times> 'a fsys_scheme) res" where
  "vmfault_seg pagetable seg va write s =
     rbind (kalloc_evict True s) (\<lambda>(pa, s).
       if pa = 0 then Ret (0, s)
       else
         rbind (load_seg_page seg va write pa (s\<lparr>mem := memset (mem s) pa 0 4096\<rparr>)) (\<lambda>(ok, s).
           if \<not> ok then Ret (0, s)
           else
             let perm = seg_perm seg in
             rbind (mappages pagetable va PGSIZE pa perm s) (\<lambda>(r, s).
               if r \<noteq> 0 then rbind (kfree pa s) (\<lambda>s. Ret (0, s))
               else
                 rbind (add_resident_page va s) (\<lambda>s.
                 Ret (pa, if perm AND PTE_W \<noteq> 0 then mark_page_dirty va s else s)))))"

text \<open>A zero-filled page for the stack or the heap.\<close>

definition vmfault_zero ::
  "addr \<Rightarrow> string \<Rightarrow> u64 \<Rightarrow> bool \<Rightarrow> 'a fsys_scheme \<Rightarrow> (addr \<times> 'a fsys_scheme) res" where
  "vmfault_zero pagetable fmt va write s =
     rbind (kalloc_evict True s) (\<lambda>(pa, s).
       if pa = 0 then Ret (0, s)
       else
         let pid = PInt (p_pid (myproc s));
             s = s\<lparr>mem := memset (mem s) pa 0 4096\<rparr>;
             s = kprintf fmt [pid, PLong va, access_str write] s;
             s = kprintf ''[pid %d] ALLOC va=0x%lx'' [pid, PLong va] s
         in
         rbind (mappages pagetable va PGSIZE pa (PTE_U OR PTE_R OR PTE_W) s) (\<lambda>(r, s).
           if r \<noteq> 0 then rbind (kfree pa s) (\<lambda>s. Ret (0, s))
           else
             rbind (add_resident_page va s) (\<lambda>s. Ret (pa, mark_page_dirty va s))))"

definition vmfault_stack ::
  "addr \<Rightarrow> u64 \<Rightarrow> bool \<Rightarrow> 'a fsys_scheme \<Rightarrow> (addr \<times> 'a fsys_scheme) res" where
  "vmfault_stack pagetable va write s =
     vmfault_zero pagetable ''[pid %d] PAGEFAULT va=0x%lx access=%s cause=stack'' va write s"

text \<open>The heap case looks for the page in the whole resident array first.  \<open>Inl pa\<close> is an early
  return of \<open>pa\<close>, \<open>Inr\<close> the swap slot and the index of the entry.\<close>

definition heap_lookup ::
  "addr \<Rightarrow> u64 \<Rightarrow> 'a fsys_scheme \<Rightarrow> ((addr + (int \<times> nat) option) \<times> 'a fsys_scheme) res" where
  "heap_lookup pagetable va s =
     (case find (\<lambda>i. rp_va (res s i) = va) [0..<MAX_RESIDENT_PAGES] of
        None \<Rightarrow> Ret (Inr None, s)
      | Some i \<Rightarrow>
          if rp_swap_offset (res s i) \<ge> 0 \<and> \<not> rp_in_memory (res s i)
          then Ret (Inr (Some (rp_swap_offset (res s i), i)), s)
          else if rp_in_memory (res s i)
          then
            let s = kprintf ''WARNING: Page fault on in-memory page va=0x%lx'' [PLong va] s in
            rbind (walk pagetable va False s) (\<lambda>(pte, s).
              if pte \<noteq> 0 \<and> load64 (mem s) pte AND PTE_V \<noteq> 0
              then Ret (Inl (PTE2PA (load64 (mem s) pte)), s)
              else Ret (Inr None, s))
          else Ret (Inr None, s))"

definition heap_swap_in ::
  "addr \<Rightarrow> u64 \<Rightarrow> bool \<Rightarrow> int \<Rightarrow> nat \<Rightarrow> 'a fsys_scheme \<Rightarrow> (addr \<times> 'a fsys_scheme) res" where
  "heap_swap_in pagetable va write swap_slot i s =
     (let s = kprintf ''SWAPIN pid=%d va=0x%lx slot=%d''
                [PInt (p_pid (myproc s)), PLong va, PInt swap_slot] s in
      rbind (swap_in va swap_slot s) (\<lambda>(r, s).
        if r = 0
        then
          let s = myproc_upd (\<lambda>p. (res_upd i (\<lambda>r. r\<lparr>rp_in_memory := True,
                    rp_seq := p_next_seq p, rp_dirty := write, rp_swap_offset := - 1,
                    rp_ref_bit := True\<rparr>) p)\<lparr>p_next_seq := p_next_seq p + 1\<rparr>) s in
          rbind (walk pagetable va False s) (\<lambda>(pte, s).
            if pte \<noteq> 0 \<and> load64 (mem s) pte AND PTE_V \<noteq> 0
            then Ret (PTE2PA (load64 (mem s) pte), s)
            else Ret (0, s))
        else Ret (0, s)))"

definition vmfault_heap ::
  "addr \<Rightarrow> u64 \<Rightarrow> bool \<Rightarrow> 'a fsys_scheme \<Rightarrow> (addr \<times> 'a fsys_scheme) res" where
  "vmfault_heap pagetable va write s =
     rbind (heap_lookup pagetable va s) (\<lambda>(r, s).
       case r of
         Inl pa \<Rightarrow> Ret (pa, s)
       | Inr (Some (swap_slot, i)) \<Rightarrow>
           if swap_slot \<ge> 0 then heap_swap_in pagetable va write swap_slot i s
           else vmfault_zero pagetable ''[pid %d] PAGEFAULT va=0x%lx access=%s cause=heap''
                  va write s
       | Inr None \<Rightarrow>
           vmfault_zero pagetable ''[pid %d] PAGEFAULT va=0x%lx access=%s cause=heap'' va write s)"

definition find_segment :: "u64 \<Rightarrow> proc \<Rightarrow> seginfo option" where
  "find_segment va p =
     find (\<lambda>seg. va \<ge> seg_vaddr seg \<and> va < seg_vaddr seg + seg_memsz seg)
       (take (p_nsegments p) (p_segments p))"

definition vmfault_swapin :: "u64 \<Rightarrow> int \<Rightarrow> 'a fsys_scheme \<Rightarrow> (addr \<times> 'a fsys_scheme) res" where
  "vmfault_swapin va swap_slot s =
     (let s = kprintf ''[pid %d] SWAPIN va=0x%lx slot=%d''
                [PInt (p_pid (myproc s)), PLong va, PInt swap_slot] s in
      rbind (swap_in va swap_slot s) (\<lambda>(r, s).
        if r < 0 then Ret (0, s)
        else rbind (add_resident_page va s) (\<lambda>s. Ret (va, s))))"

definition vmfault :: "addr \<Rightarrow> u64 \<Rightarrow> bool \<Rightarrow> 'a fsys_scheme \<Rightarrow> (addr \<times> 'a fsys_scheme) res" where
  "vmfault pagetable va write s =
     (let p = myproc s; va_aligned = PGROUNDDOWN va in
      if va_aligned \<ge> MAXVA then Ret (0, s)
      else
        rbind (ismapped pagetable va_aligned s) (\<lambda>mapped.
          if mapped then Ret (0, s)
          else
            let swap_slot = (case find (\<lambda>e. sw_va e = va_aligned) (p_swap_map p) of
                               Some e \<Rightarrow> sw_slot e | None \<Rightarrow> - 1)
            in
            if swap_slot \<ge> 0 then vmfault_swapin va_aligned swap_slot s
            else
              case find_segment va_aligned p of
                Some seg \<Rightarrow> vmfault_seg pagetable seg va_aligned write s
              | None \<Rightarrow>
                  let sp = tf_sp s; sp_aligned = PGROUNDDOWN sp in
                  if va < sp then Ret (0, s)
                  else if va_aligned \<ge> sp_aligned \<and> va_aligned < p_sz p
                  then vmfault_stack pagetable va_aligned write s
                  else
                    let stackbase = (if p_sz p \<ge> USERSTACK * PGSIZE
                                     then p_sz p - USERSTACK * PGSIZE else 0)
                    in
                    if stackbase \<noteq> 0 \<and> va_aligned \<ge> p_data_end p \<and> va_aligned < stackbase
                    then vmfault_heap pagetable va_aligned write s
                    else Ret (0, s)))"

end
