(* ===== verification/Frame.thy ===== *)
theory Frame
  imports Dir
begin

text \<open>
  What the file system leaves alone.  Every operation of the buffer cache, the log, the inode
  layer, directories and path names keeps memory, the free list and the process table, except
  that it may wake sleeping processes other than the running one (\<open>fs_frame\<close>).  The paging
  code relies on this when it calls the file system in the middle of a change to the page
  table or the resident set.

  \<open>post m Q\<close> says that \<open>m\<close>, if it returns, returns a result with \<open>Q\<close>; the rules of the
  collection \<open>frame_rules\<close> are the frame property of each operation in that form.
\<close>

section \<open>Results\<close>

text \<open>\<open>post m Q\<close>: a result of \<open>m\<close> satisfies \<open>Q\<close>.\<close>

definition post :: "'a res \<Rightarrow> ('a \<Rightarrow> bool) \<Rightarrow> bool" where
  "post m Q \<longleftrightarrow> (\<forall>x. m = Ret x \<longrightarrow> Q x)"

lemma post_simps [simp]:
  "post (Ret x) Q = Q x" "post (Panic e) Q" "post (Blocked e) Q"
  by (auto simp: post_def)

lemma post_bind:
  "post m P \<Longrightarrow> (\<And>x. P x \<Longrightarrow> post (f x) Q) \<Longrightarrow> post (rbind m f) Q"
  by (auto simp: post_def)

lemma postD: "post m Q \<Longrightarrow> m = Ret x \<Longrightarrow> Q x"
  by (simp add: post_def)

lemma post_mono: "post m P \<Longrightarrow> (\<And>x. P x \<Longrightarrow> Q x) \<Longrightarrow> post m Q"
  by (auto simp: post_def)

section \<open>The frame\<close>

definition woken :: "proc \<Rightarrow> proc \<Rightarrow> bool" where
  "woken p p' \<longleftrightarrow> p' = p \<or> p_state p = SLEEPING \<and> p' = p\<lparr>p_state := RUNNABLE\<rparr>"

definition fs_frame :: "'a mach_scheme \<Rightarrow> 'a mach_scheme \<Rightarrow> bool" where
  "fs_frame s s' \<longleftrightarrow> mem s' = mem s \<and> freelist s' = freelist s \<and> kend s' = kend s \<and>
     cur s' = cur s \<and> nextpid s' = nextpid s \<and> length (procs s') = length (procs s) \<and>
     (\<forall>i < length (procs s). woken (procs s ! i) (procs s' ! i)) \<and>
     procs s' ! cur s = procs s ! cur s"

lemma woken_refl [simp]: "woken p p"
  by (simp add: woken_def)

lemma woken_trans: "woken p q \<Longrightarrow> woken q r \<Longrightarrow> woken p r"
  by (auto simp: woken_def)

lemma fs_frame_refl [simp]: "fs_frame s s"
  by (simp add: fs_frame_def)

lemma fs_frame_trans: "fs_frame s s' \<Longrightarrow> fs_frame s' s'' \<Longrightarrow> fs_frame s s''"
  by (auto simp: fs_frame_def intro: woken_trans)

lemma fs_frame_myproc: "fs_frame s s' \<Longrightarrow> myproc s' = myproc s"
  by (simp add: fs_frame_def myproc_def)



lemma fs_frame_upd [simp]:
  "fs_frame s0 (s\<lparr>disk := d\<rparr>) = fs_frame s0 s" "fs_frame s0 (s\<lparr>dwrites := w\<rparr>) = fs_frame s0 s"
  "fs_frame s0 (s\<lparr>bufs := b\<rparr>) = fs_frame s0 s" "fs_frame s0 (s\<lparr>lru := l\<rparr>) = fs_frame s0 s"
  "fs_frame s0 (s\<lparr>logs := g\<rparr>) = fs_frame s0 s"
  by (simp_all add: fs_frame_def)

lemma fs_frame_fs_upd [simp]:
  "fs_frame s0 (s\<lparr>sb := x\<rparr>) = fs_frame s0 s" "fs_frame s0 (s\<lparr>itable := y\<rparr>) = fs_frame s0 s"
  by (simp_all add: fs_frame_def)

lemma fs_frame_ops [simp]:
  "fs_frame s0 (kprintf fmt args s) = fs_frame s0 s"
  "fs_frame s0 (buf_upd i f s') = fs_frame s0 s'"
  "fs_frame s0 (bpin b s') = fs_frame s0 s'"
  "fs_frame s0 (bunpin b s') = fs_frame s0 s'"
  "fs_frame s0 (disk_rw b w s') = fs_frame s0 s'"
  by (simp_all add: kprintf_def buf_upd_def bpin_def bunpin_def disk_rw_def Let_def fs_frame_def)

lemma fs_frame_ino [simp]:
  "fs_frame s0 (inode_upd ip g s) = fs_frame s0 s"
  "fs_frame s0 (idup ip s) = fs_frame s0 s"
  by (simp_all add: inode_upd_def idup_def)

lemma nth_same_length: "length xs = length ys \<Longrightarrow> \<not> i < length xs \<Longrightarrow> xs ! i = ys ! i"
  using nth_append [of xs "[]" i] nth_append [of ys "[]" i] by simp

lemma fs_frame_wakeup [simp]:
  assumes "fs_frame s0 s"
  shows "fs_frame s0 (wakeup c s)"
proof (rule fs_frame_trans [OF assms])
  have "nextpid (wakeup c s) = nextpid s" by (simp add: wakeup_def)
  moreover have "woken (procs s ! i) (procs (wakeup c s) ! i)" if "i < length (procs s)" for i
    using that by (simp add: nth_wakeup wake_def woken_def)
  moreover have "procs (wakeup c s) ! cur s = procs s ! cur s"
    by (cases "cur s < length (procs s)") (simp add: nth_wakeup, rule nth_same_length, simp_all)
  ultimately show "fs_frame s (wakeup c s)" by (simp add: fs_frame_def)
qed

section \<open>Rules\<close>

text \<open>\<open>frm s pr m\<close>: the state that \<open>pr\<close> selects from a result of \<open>m\<close> is in the frame
  of \<open>s\<close>.\<close>

definition frm :: "'a mach_scheme \<Rightarrow> ('x \<Rightarrow> 'a mach_scheme) \<Rightarrow> 'x res \<Rightarrow> bool" where
  "frm s pr m \<longleftrightarrow> post m (\<lambda>x. fs_frame s (pr x))"

named_theorems frame_rules

lemma frm_Ret [simp]: "frm s pr (Ret x) = fs_frame s (pr x)"
  by (simp add: frm_def)

lemma frm_stop [simp]: "frm s pr (Panic e)" "frm s pr (Blocked e)"
  by (simp_all add: frm_def)

lemma frm_bind:
  assumes "frm s pr m" "\<And>x. frm (pr x) pr' (f x)"
  shows "frm s pr' (rbind m f)"
  using assms unfolding frm_def by (auto elim!: post_bind intro: post_mono fs_frame_trans)

lemma frm_bind_state [frame_rules]:
  "frm s id m \<Longrightarrow> (\<And>s'. frm s' pr (f s')) \<Longrightarrow> frm s pr (rbind m f)"
  using frm_bind [where pr = id and pr' = pr] by (metis id_apply)

lemma frm_bind_pair [frame_rules]:
  "frm s snd m \<Longrightarrow> (\<And>a s'. frm s' pr (f (a, s'))) \<Longrightarrow> frm s pr (rbind m f)"
  by (rule frm_bind) auto

lemma frm_bind_triple [frame_rules]:
  "frm s (snd \<circ> snd) m \<Longrightarrow> (\<And>a b s'. frm s' pr (f (a, b, s'))) \<Longrightarrow> frm s pr (rbind m f)"
  by (rule frm_bind) auto

lemma frm_bind_lock [frame_rules]:
  "(\<And>lk. frm s pr (f lk)) \<Longrightarrow> frm s pr (rbind (acquiresleep l s') f)"
  by (auto simp: frm_def post_def)

lemma frm_case [frame_rules]:
  "(\<And>a b. x = (a, b) \<Longrightarrow> frm s pr (g a b)) \<Longrightarrow> frm s pr (case x of (a, b) \<Rightarrow> g a b)"
  by (cases x) simp

lemma frm_if [frame_rules]: "frm s pr m \<Longrightarrow> frm s pr n \<Longrightarrow> frm s pr (if c then m else n)"
  by simp

lemma frm_option [frame_rules]:
  "frm s pr m \<Longrightarrow> (\<And>y. frm s pr (n y)) \<Longrightarrow> frm s pr (case x of None \<Rightarrow> m | Some y \<Rightarrow> n y)"
  by (cases x) auto

lemma frm_rfold:
  assumes f: "\<And>x s. frm s id (f x s)" and "fs_frame s0 s"
  shows "frm s0 id (rfold f xs s)"
  using assms(2)
proof (induction xs arbitrary: s0 s)
  case (Cons x xs)
  have "frm s0 id (f x s)"
    using f [of s x] fs_frame_trans [OF Cons.prems] by (auto simp: frm_def post_def)
  then show ?case using Cons.IH by (auto intro!: frm_bind)
qed simp

section \<open>The buffer cache and the log\<close>

lemma lock_buf_frame [frame_rules]: "fs_frame s0 s \<Longrightarrow> frm s0 snd (lock_buf b s)"
  unfolding lock_buf_def by (intro frame_rules) simp

lemma bget_frame [frame_rules]: "fs_frame s0 s \<Longrightarrow> frm s0 snd (bget dev b s)"
  unfolding bget_def by (intro frame_rules) simp_all

lemma bread_frame [frame_rules]: "fs_frame s0 s \<Longrightarrow> frm s0 snd (bread dev b s)"
  unfolding bread_def by (intro frame_rules) simp_all

lemma bwrite_frame [frame_rules]: "fs_frame s0 s \<Longrightarrow> frm s0 id (bwrite b s)"
  by (simp add: bwrite_def)

lemma brelse_frame [frame_rules]: "fs_frame s0 s \<Longrightarrow> frm s0 id (brelse b s)"
  by (simp add: brelse_def releasesleep_def Let_def)

lemma log_write_frame [frame_rules]: "fs_frame s0 s \<Longrightarrow> frm s0 id (log_write b s)"
  by (simp add: log_write_def Let_def)

lemma begin_op_frame [frame_rules]: "fs_frame s0 s \<Longrightarrow> frm s0 id (begin_op s)"
  by (simp add: begin_op_def)

lemma install_one_frame [frame_rules]: "fs_frame s0 s \<Longrightarrow> frm s0 id (install_one r t s)"
  unfolding install_one_def Let_def by (intro frame_rules) simp_all

lemma install_trans_frame [frame_rules]: "fs_frame s0 s \<Longrightarrow> frm s0 id (install_trans r s)"
  unfolding install_trans_def by (rule frm_rfold) (auto intro: install_one_frame)

lemma read_head_frame [frame_rules]: "fs_frame s0 s \<Longrightarrow> frm s0 id (read_head s)"
  unfolding read_head_def Let_def by (intro frame_rules) simp_all

lemma write_head_frame [frame_rules]: "fs_frame s0 s \<Longrightarrow> frm s0 id (write_head s)"
  unfolding write_head_def Let_def by (intro frame_rules) simp_all

lemma recover_frame [frame_rules]: "fs_frame s0 s \<Longrightarrow> frm s0 id (recover_from_log s)"
  unfolding recover_from_log_def by (intro frame_rules) simp_all

lemma write_log_one_frame [frame_rules]: "fs_frame s0 s \<Longrightarrow> frm s0 id (write_log_one t s)"
  unfolding write_log_one_def Let_def by (intro frame_rules) simp_all

lemma write_log_frame [frame_rules]: "fs_frame s0 s \<Longrightarrow> frm s0 id (write_log s)"
  unfolding write_log_def by (rule frm_rfold) (auto intro: write_log_one_frame)

lemma commit_frame [frame_rules]: "fs_frame s0 s \<Longrightarrow> frm s0 id (commit s)"
  unfolding commit_def by (intro frame_rules) simp_all

lemma end_op_frame [frame_rules]: "fs_frame s0 s \<Longrightarrow> frm s0 id (end_op s)"
  unfolding end_op_def Let_def by (intro frame_rules) simp_all

section \<open>Inodes\<close>

lemma readsb_frame [frame_rules]: "fs_frame s0 s \<Longrightarrow> frm s0 id (readsb dev s)"
  unfolding readsb_def by (intro frame_rules) simp_all

lemma bzero_frame [frame_rules]: "fs_frame s0 s \<Longrightarrow> frm s0 id (bzero dev b s)"
  unfolding bzero_def by (intro frame_rules) simp_all

lemma balloc_loop_frame [frame_rules]:
  "fs_frame s0 s \<Longrightarrow> frm s0 snd (balloc_loop dev b n s)"
proof (induction "n - b" arbitrary: b s0 s rule: less_induct)
  case less
  have ih: "frm s0 snd (balloc_loop dev (b + BPB) n s)" if "b < n" "fs_frame s0 s"
    for s0 s :: "'a fsys_scheme"
    using that by (intro less.hyps) simp_all
  show ?case
  proof (cases "b < n")
    case True
    then show ?thesis
      unfolding balloc_loop.simps [of dev b n s] if_P [OF True]
      by (intro frame_rules ih) (use less.prems in simp_all)
  qed (use less.prems in \<open>simp add: balloc_loop.simps [of dev b]\<close>)
qed

lemma balloc_frame [frame_rules]: "fs_frame s0 s \<Longrightarrow> frm s0 snd (balloc dev s)"
  unfolding balloc_def by (intro frame_rules) simp_all

lemma bfree_frame [frame_rules]: "fs_frame s0 s \<Longrightarrow> frm s0 id (bfree dev b s)"
  unfolding bfree_def Let_def by (intro frame_rules) simp_all

lemma iget_frame [frame_rules]: "fs_frame s0 s \<Longrightarrow> frm s0 snd (iget dev inum s)"
  unfolding iget_def by (intro frame_rules) simp_all

lemma ialloc_loop_frame [frame_rules]:
  "fs_frame s0 s \<Longrightarrow> frm s0 snd (ialloc_loop dev type i n s)"
proof (induction "n - i" arbitrary: i s0 s rule: less_induct)
  case less
  have ih: "frm s0 snd (ialloc_loop dev type (i + 1) n s)" if "i < n" "fs_frame s0 s"
    for s0 s :: "'a fsys_scheme"
    using that by (intro less.hyps) simp_all
  show ?case
  proof (cases "i < n")
    case True
    then show ?thesis
      unfolding ialloc_loop.simps [of dev type i n s] if_P [OF True] Let_def
      by (intro frame_rules ih) (use less.prems in simp_all)
  qed (use less.prems in \<open>simp add: ialloc_loop.simps [of dev type i]\<close>)
qed

lemma ialloc_frame [frame_rules]: "fs_frame s0 s \<Longrightarrow> frm s0 snd (ialloc dev type s)"
  unfolding ialloc_def by (intro frame_rules) simp_all

lemma iupdate_frame [frame_rules]: "fs_frame s0 s \<Longrightarrow> frm s0 id (iupdate ip s)"
  unfolding iupdate_def Let_def by (intro frame_rules) simp_all

lemma ilock_frame [frame_rules]: "fs_frame s0 s \<Longrightarrow> frm s0 id (ilock ipo s)"
  unfolding ilock_def Let_def by (intro frame_rules) simp_all

lemma iunlock_frame [frame_rules]: "fs_frame s0 s \<Longrightarrow> frm s0 id (iunlock ipo s)"
  unfolding iunlock_def releasesleep_def Let_def by (intro frame_rules) simp_all

lemma bmap_indirect_frame [frame_rules]: "fs_frame s0 s \<Longrightarrow> frm s0 snd (bmap_indirect ip bn a s)"
  unfolding bmap_indirect_def Let_def by (intro frame_rules) simp_all

lemma bmap_frame [frame_rules]: "fs_frame s0 s \<Longrightarrow> frm s0 snd (bmap ip bn s)"
  unfolding bmap_def Let_def by (intro frame_rules) simp_all

lemma itrunc_direct_frame [frame_rules]: "fs_frame s0 s \<Longrightarrow> frm s0 id (itrunc_direct ip i s)"
  unfolding itrunc_direct_def by (intro frame_rules) simp_all

lemma itrunc_free_frame:
  "fs_frame s0 s \<Longrightarrow> frm s0 id (rfold (\<lambda>j s. let a = get32 (bdata bp s) (4 * j) in
     if a \<noteq> 0 then bfree (i_dev (ino ip s)) a s else Ret s) js s)"
  unfolding Let_def by (rule frm_rfold) (auto intro!: frame_rules)

lemma itrunc_indirect_frame [frame_rules]:
  "fs_frame s0 s \<Longrightarrow> frm s0 id (itrunc_indirect ip s)"
  unfolding itrunc_indirect_def by (intro frame_rules itrunc_free_frame) simp_all

lemma itrunc_frame [frame_rules]: "fs_frame s0 s \<Longrightarrow> frm s0 id (itrunc ip s)"
  unfolding itrunc_def
  by (intro frame_rules frm_rfold itrunc_direct_frame) simp_all

lemma iput_frame [frame_rules]: "fs_frame s0 s \<Longrightarrow> frm s0 id (iput ip s)"
  unfolding iput_def releasesleep_def Let_def by (intro frame_rules) simp_all

lemma iunlockput_frame [frame_rules]: "fs_frame s0 s \<Longrightarrow> frm s0 id (iunlockput ip s)"
  unfolding iunlockput_def by (intro frame_rules) simp_all

lemma ireclaim_one_frame [frame_rules]: "fs_frame s0 s \<Longrightarrow> frm s0 id (ireclaim_one dev i s)"
  unfolding ireclaim_one_def Let_def by (intro frame_rules) simp_all

lemma ireclaim_frame [frame_rules]: "fs_frame s0 s \<Longrightarrow> frm s0 id (ireclaim dev s)"
  unfolding ireclaim_def by (rule frm_rfold) (auto intro: ireclaim_one_frame)

lemma initlog_frame [frame_rules]: "fs_frame s0 s \<Longrightarrow> frm s0 id (initlog dev super s)"
  unfolding initlog_def by (intro frame_rules) simp_all

lemma fsinit_frame [frame_rules]: "fs_frame s0 s \<Longrightarrow> frm s0 id (fsinit dev s)"
  unfolding fsinit_def by (intro frame_rules) simp_all

section \<open>Content\<close>

text \<open>\<open>readi\<close> keeps every transitive relation that contains the frame and that its copy
  routine keeps; the copy routine is called on the ranges of the destination.\<close>

lemma readi_loop_rel:
  assumes R: "\<And>s s'. fs_frame s s' \<Longrightarrow> R s s'" "\<And>s s' s''. R s s' \<Longrightarrow> R s' s'' \<Longrightarrow> R s s''"
    and copy: "\<And>k bs d s r d' s'. k + length bs \<le> n \<Longrightarrow>
      copy (dst + of_nat k) bs d s = Ret (r, d', s') \<Longrightarrow> R s s'"
  shows "tot \<le> n \<Longrightarrow> readi_loop copy ip (dst + of_nat tot) off tot n d s = Ret (r, d', s') \<Longrightarrow> R s s'"
proof (induction "n - tot" arbitrary: tot off d s rule: less_induct)
  case less
  show ?case
  proof (cases "tot < n")
    case False
    then show ?thesis using less.prems R(1) by (simp add: readi_loop.simps [of copy ip])
  next
    case True
    let ?m = "min (n - tot) (BSIZE - off mod BSIZE)"
    obtain addr s1 where b: "bmap ip (off div BSIZE) s = Ret (addr, s1)"
      using less.prems(2) True by (auto simp: readi_loop.simps [of copy ip])
    have f1: "R s s1" using postD [OF bmap_frame [of s s, unfolded frm_def] b] R(1) by simp
    show ?thesis
    proof (cases "addr = 0")
      case True
      then show ?thesis using less.prems(2) b f1 R(1) fs_frame_refl \<open>tot < n\<close>
        by (auto simp: readi_loop.simps [of copy ip])
    next
      case False
      obtain bp s2 r1 d1 s3 s4 where br: "bread (i_dev (ino ip s1)) addr s1 = Ret (bp, s2)"
        and cp: "copy (dst + of_nat tot) (get_bytes (bdata bp s2) (off mod BSIZE) ?m) d s2 =
          Ret (r1, d1, s3)" and rl: "brelse bp s3 = Ret s4"
        and k: "if r1 = - 1 then s' = s4 else
          readi_loop copy ip (dst + of_nat tot + of_nat ?m) (off + ?m) (tot + ?m) n d1 s4 =
            Ret (r, d', s')"
        using less.prems(2) True False b
        by (auto simp: readi_loop.simps [of copy ip _ off] Let_def split: if_splits)
      have "fs_frame s1 s2" using postD [OF bread_frame [of s1 s1, unfolded frm_def] br] by simp
      moreover have "fs_frame s3 s4" using postD [OF brelse_frame [of s3 s3, unfolded frm_def] rl] by simp
      moreover have "R s2 s3"
      proof (rule copy [OF _ cp])
        have "length (get_bytes (bdata bp s2) (off mod BSIZE) ?m) \<le> n - tot"
          by (simp add: get_bytes_def)
        then show "tot + length (get_bytes (bdata bp s2) (off mod BSIZE) ?m) \<le> n"
          using True by linarith
      qed
      ultimately have f4: "R s s4" using f1 R by meson
      show ?thesis
      proof (cases "r1 = - 1")
        case False
        have "R s4 s'"
        proof (rule less.hyps)
          show "n - (tot + ?m) < n - tot" by (rule chunk_decreases [OF True])
          show "tot + ?m \<le> n" using True by simp
          show "readi_loop copy ip (dst + of_nat (tot + ?m)) (off + ?m) (tot + ?m) n d1 s4 =
              Ret (r, d', s')"
            using k False by (simp add: add.assoc)
        qed
        then show ?thesis using f4 R(2) by blast
      qed (use k f4 in simp)
    qed
  qed
qed

lemma readi_rel:
  assumes R: "\<And>s s'. fs_frame s s' \<Longrightarrow> R s s'" "\<And>s s' s''. R s s' \<Longrightarrow> R s' s'' \<Longrightarrow> R s s''"
    and copy: "\<And>k bs d s r d' s'. k + length bs \<le> unat n \<Longrightarrow>
      copy (dst + of_nat k) bs d s = Ret (r, d', s') \<Longrightarrow> R s s'"
    and r: "readi copy ip dst off n d s = Ret (r, d', s')"
  shows "R s s'"
proof -
  define n' where "n' = (if off + n > i_size (ino ip s) then i_size (ino ip s) - off else n)"
  show ?thesis
  proof (cases "off > i_size (ino ip s) \<or> off + n < off")
    case True
    then show ?thesis using r R(1) by (simp add: readi_def)
  next
    case False
    have le: "unat n' \<le> unat n"
    proof (cases "off + n > i_size (ino ip s)")
      case True
      have "i_size (ino ip s) - off \<le> n"
        using True False by (simp add: not_less word_le_nat_alt word_less_nat_alt unat_sub_if'
            unat_word_ariths split: if_splits)
      then show ?thesis using True by (simp add: n'_def word_le_nat_alt)
    qed (simp add: n'_def)
    have cp: "R s s'" if "k + length bs \<le> unat n'" "copy (dst + of_nat k) bs d s = Ret (r, d', s')"
      for k bs d s r d' s'
      using that le by (intro copy [of k bs]) simp_all
    have "readi_loop copy ip (dst + of_nat 0) (unat off) 0 (unat n') d s = Ret (r, d', s')"
      using r False by (auto simp: readi_def n'_def Let_def)
    then show ?thesis
      by (rule readi_loop_rel [where R = R and n = "unat n'" and tot = 0, rotated 4])
        (use R cp in blast)+
  qed
qed

lemma readi_frame [frame_rules]:
  assumes "fs_frame s0 s"
  shows "frm s0 (snd \<circ> snd) (readi to_local ip dst off n d s)"
proof -
  have "fs_frame s s'" if "readi to_local ip dst off n d s = Ret (r, d', s')" for r d' s'
    using that
    by (rule readi_rel [where R = fs_frame, rotated 3]) (auto intro: fs_frame_trans simp: to_local_def)
  then show ?thesis using fs_frame_trans [OF assms] by (auto simp: frm_def post_def)
qed

text \<open>Reading into memory changes the page of the destination and nothing else.\<close>

definition read_frame :: "u64 set \<Rightarrow> 'a mach_scheme \<Rightarrow> 'a mach_scheme \<Rightarrow> bool" where
  "read_frame P s s' \<longleftrightarrow> fs_frame s (s'\<lparr>mem := mem s\<rparr>) \<and> same_off P (mem s) (mem s')"

lemma read_frame_fs: "fs_frame s s' \<Longrightarrow> read_frame P s s'"
  by (auto simp: read_frame_def fs_frame_def)

lemma read_frame_trans: "read_frame P s s' \<Longrightarrow> read_frame P s' s'' \<Longrightarrow> read_frame P s s''"
  by (auto simp: read_frame_def fs_frame_def intro: woken_trans same_off_trans)

lemma readi_mem_frame:
  assumes "page_aligned pa" "unat n \<le> 4096"
    and r: "readi to_mem ip pa off n d s = Ret (r, d', s')"
  shows "read_frame {pn pa} s s'"
proof (rule readi_rel [where R = "read_frame {pn pa}", OF read_frame_fs read_frame_trans _ r])
  fix k bs d r d' and s s' :: "'a fsys_scheme"
  assume k: "k + length bs \<le> unat n" and c: "to_mem (pa + of_nat k) bs d s = Ret (r, d', s')"
  have "same_off {pn pa} (mem s) (write_bytes (mem s) (pa + of_nat k) bs)"
    using k assms(1,2) by (intro same_off_write_bytes) auto
  then show "read_frame {pn pa} s s'" using c by (auto simp: to_mem_def read_frame_def fs_frame_def)
qed

text \<open>A copy routine that keeps the frame.\<close>

definition copy_from_frame :: "'a fsys_scheme copy_from \<Rightarrow> bool" where
  "copy_from_frame copy \<longleftrightarrow> (\<forall>src n s r bs s'. copy src n s = Ret (r, bs, s') \<longrightarrow> fs_frame s s')"

lemma copy_from_frame_kernel [simp]:
  "copy_from_frame (from_local d)" "copy_from_frame from_mem"
  by (auto simp: copy_from_frame_def from_local_def from_mem_def)

lemma copy_from_frameD:
  "copy_from_frame copy \<Longrightarrow> fs_frame s0 s \<Longrightarrow> frm s0 (snd \<circ> snd) (copy src n s)"
  by (auto simp: copy_from_frame_def frm_def post_def intro: fs_frame_trans)

lemma writei_loop_frame:
  assumes c: "copy_from_frame copy"
  shows "fs_frame s0 s \<Longrightarrow> frm s0 (snd \<circ> snd) (writei_loop copy ip src off tot n s)"
proof (induction "n - tot" arbitrary: tot off src s0 s rule: less_induct)
  case less
  let ?m = "min (n - tot) (BSIZE - off mod BSIZE)"
  have ih: "frm s0 (snd \<circ> snd) (writei_loop copy ip src off' (tot + ?m) n s)"
    if "tot < n" "fs_frame s0 s" for s0 s :: "'a fsys_scheme" and src off'
    using that by (intro less.hyps chunk_decreases)
  show ?case
  proof (cases "tot < n")
    case True
    show ?thesis
      unfolding writei_loop.simps [of copy ip src off tot n s] if_P [OF True] Let_def
      by (intro frame_rules ih copy_from_frameD [OF c]) (use True less.prems in simp_all)
  qed (use less.prems in \<open>simp add: writei_loop.simps [of copy ip]\<close>)
qed

lemma writei_frame:
  "copy_from_frame copy \<Longrightarrow> fs_frame s0 s \<Longrightarrow> frm s0 snd (writei copy ip src off n s)"
  unfolding writei_def Let_def
  by (intro frame_rules writei_loop_frame) simp_all

lemmas writei_kernel_frame [frame_rules] =
  writei_frame [OF copy_from_frame_kernel(1)] writei_frame [OF copy_from_frame_kernel(2)]

section \<open>Directories and paths\<close>

lemma read_dirent_frame [frame_rules]:
  "fs_frame s0 s \<Longrightarrow> frm s0 snd (read_dirent msg dp off s)"
  unfolding read_dirent_def by (intro frame_rules) simp_all

lemma dirlookup_loop_frame [frame_rules]:
  "fs_frame s0 s \<Longrightarrow> frm s0 snd (dirlookup_loop dp name off sz s)"
proof (induction "sz - off" arbitrary: off s0 s rule: less_induct)
  case less
  have ih: "frm s0 snd (dirlookup_loop dp name (off + 16) sz s)" if "off < sz" "fs_frame s0 s"
    for s0 s :: "'a fsys_scheme"
    using that by (intro less.hyps) simp_all
  show ?case
  proof (cases "off < sz")
    case True
    show ?thesis
      unfolding dirlookup_loop.simps [of dp name off sz s] if_P [OF True]
      by (intro frame_rules ih) (use True less.prems in simp_all)
  qed (use less.prems in \<open>simp add: dirlookup_loop.simps [of dp name]\<close>)
qed

lemma dirlookup_frame [frame_rules]: "fs_frame s0 s \<Longrightarrow> frm s0 snd (dirlookup dp name s)"
  unfolding dirlookup_def by (intro frame_rules) simp_all

lemma dirlink_loop_frame [frame_rules]: "fs_frame s0 s \<Longrightarrow> frm s0 snd (dirlink_loop dp off sz s)"
proof (induction "sz - off" arbitrary: off s0 s rule: less_induct)
  case less
  have ih: "frm s0 snd (dirlink_loop dp (off + 16) sz s)" if "off < sz" "fs_frame s0 s"
    for s0 s :: "'a fsys_scheme"
    using that by (intro less.hyps) simp_all
  show ?case
  proof (cases "off < sz")
    case True
    show ?thesis
      unfolding dirlink_loop.simps [of dp off sz s] if_P [OF True]
      by (intro frame_rules ih) (use True less.prems in simp_all)
  qed (use less.prems in \<open>simp add: dirlink_loop.simps [of dp]\<close>)
qed

lemma dirlink_frame [frame_rules]: "fs_frame s0 s \<Longrightarrow> frm s0 snd (dirlink dp name inum s)"
  unfolding dirlink_def Let_def by (intro frame_rules) simp_all

lemma namex_loop_frame [frame_rules]:
  "fs_frame s0 s \<Longrightarrow> frm s0 (snd \<circ> snd) (namex_loop path parent name ip s)"
proof (induction "length path" arbitrary: path name ip s0 s rule: less_induct)
  case less
  show ?case
  proof (cases "skipelem path name")
    case None
    show ?thesis
      unfolding namex_loop.simps [of path parent name ip s] None option.case
      by (intro frame_rules) (use less.prems in simp_all)
  next
    case (Some pn)
    obtain path' name' where pn: "pn = (path', name')" by (cases pn)
    have ih: "frm s0 (snd \<circ> snd) (namex_loop path' parent name' ip s)" if "fs_frame s0 s"
      for s0 s :: "'a fsys_scheme" and ip
      using that skipelem_shorter [OF Some [unfolded pn]] by (intro less.hyps)
    show ?thesis
      unfolding namex_loop.simps [of path parent name ip s] Some pn option.case prod.case
      by (intro frame_rules ih) (use less.prems in simp_all)
  qed
qed

lemma deref_frame [frame_rules]:
  "(\<And>v. frm s pr (f v)) \<Longrightarrow> frm s pr (rbind (deref x) f)"
  by (cases x) (auto simp: deref_def)

lemma namex_frame [frame_rules]: "fs_frame s0 s \<Longrightarrow> frm s0 (snd \<circ> snd) (namex path par name s)"
  unfolding namex_def by (intro frame_rules) simp_all

lemma namei_frame [frame_rules]: "fs_frame s0 s \<Longrightarrow> frm s0 snd (namei path s)"
  unfolding namei_def by (intro frame_rules) simp_all

lemma nameiparent_frame [frame_rules]: "fs_frame s0 s \<Longrightarrow> frm s0 (snd \<circ> snd) (nameiparent path s)"
  unfolding nameiparent_def by (intro frame_rules)

lemma create_frame [frame_rules]:
  "fs_frame s0 s \<Longrightarrow> frm s0 snd (create path type major minor s)"
  unfolding create_def create_link_def create_fail_def by (intro frame_rules) simp_all

end
