(* ===== verification/Resident.thy ===== *)
theory Resident
  imports Paging Frame
begin

text \<open>
  The resident set as a queue.  \<open>active p\<close> is the part of the array that is in use.  The
  invariant \<open>rs_inv\<close> says that its pages are distinct, in memory and in the order of their
  sequence numbers, so that FIFO replacement takes the head and a new page goes to the tail.

  The interface \<open>victim_policy\<close> states what eviction needs of a replacement policy; the two
  policies of the code are its instances.
\<close>

section \<open>The array as a list\<close>

definition active :: "proc \<Rightarrow> resident_page list" where
  "active p = take (p_nresident p) (p_resident p)"

definition rs_inv :: "proc \<Rightarrow> bool" where
  "rs_inv p \<longleftrightarrow> length (p_resident p) = MAX_RESIDENT_PAGES \<and>
     p_nresident p \<le> MAX_RESIDENT_PAGES \<and> distinct (map rp_va (active p)) \<and>
     sorted_wrt (<) (map rp_seq (active p)) \<and>
     (\<forall>r \<in> set (active p). rp_in_memory r \<and> rp_seq r < p_next_seq p)"

lemma rs_inv_length: "rs_inv p \<Longrightarrow> length (active p) = p_nresident p"
  by (simp add: rs_inv_def active_def)

lemma nth_active: "i < p_nresident p \<Longrightarrow> active p ! i = p_resident p ! i"
  by (simp add: active_def)

lemma rs_inv_mem: "rs_inv p \<Longrightarrow> i < p_nresident p \<Longrightarrow> p_resident p ! i \<in> set (active p)"
  using nth_mem [of i "active p"] rs_inv_length [of p] by (simp add: nth_active)

lemma shift_down:
  assumes "i \<le> n" "n < length xs"
  shows "foldl (\<lambda>r i. r[i := r ! (i + 1)]) xs [i..<n] =
    take i xs @ drop (Suc i) (take (Suc n) xs) @ drop n xs"
  using assms
proof (induction n)
  case 0
  then show ?case by simp
next
  case (Suc n)
  show ?case
  proof (cases "i = Suc n")
    case True
    then show ?thesis using Suc.prems by simp
  next
    case False
    then have i: "i \<le> n" using Suc.prems by simp
    let ?ys = "take i xs @ drop (Suc i) (take (Suc n) xs) @ drop n xs"
    have ih: "foldl (\<lambda>r i. r[i := r ! (i + 1)]) xs [i..<n] = ?ys"
      using Suc i by simp
    have len: "length (take i xs @ drop (Suc i) (take (Suc n) xs)) = n"
      using Suc.prems i by simp
    have "?ys ! Suc n = xs ! Suc n"
      using len Suc.prems by (simp add: nth_append append_assoc [symmetric] del: append_assoc)
    moreover have "drop n xs = xs ! n # drop (Suc n) xs"
      using Suc.prems by (simp add: Cons_nth_drop_Suc)
    then have "?ys[n := v] = take i xs @ drop (Suc i) (take (Suc n) xs) @ v # drop (Suc n) xs" for v
      using len by (simp add: list_update_append append_assoc [symmetric] del: append_assoc)
    moreover have "drop (Suc i) (take (Suc (Suc n)) xs) =
        drop (Suc i) (take (Suc n) xs) @ [xs ! Suc n]"
    proof -
      have "take (Suc (Suc n)) xs = take (Suc n) xs @ [xs ! Suc n]"
        using Suc.prems by (intro take_Suc_conv_app_nth) simp
      moreover have "Suc i \<le> length (take (Suc n) xs)" using Suc.prems i by simp
      ultimately show ?thesis by (simp del: take_Suc_conv_app_nth)
    qed
    ultimately show ?thesis using i ih by simp
  qed
qed

lemma active_remove:
  assumes "idx < p_nresident p" "p_nresident p \<le> length (p_resident p)"
  shows "active (remove_resident idx p) = take idx (active p) @ drop (Suc idx) (active p)"
    and "p_nresident (remove_resident idx p) = p_nresident p - 1"
    and "length (p_resident (remove_resident idx p)) = length (p_resident p)"
proof -
  let ?n = "p_nresident p - 1"
  have n: "Suc ?n = p_nresident p" using assms by simp
  have f: "foldl (\<lambda>r i. r[i := r ! (i + 1)]) (p_resident p) [idx..<?n] =
      take idx (p_resident p) @ drop (Suc idx) (take (p_nresident p) (p_resident p)) @
      drop ?n (p_resident p)"
    using shift_down [of idx ?n "p_resident p"] assms n by simp
  have r: "p_resident (remove_resident idx p) =
      foldl (\<lambda>r i. r[i := r ! (i + 1)]) (p_resident p) [idx..<?n]"
    by (simp add: remove_resident_def Let_def)
  show nr: "p_nresident (remove_resident idx p) = ?n"
    by (simp add: remove_resident_def Let_def)
  show "active (remove_resident idx p) = take idx (active p) @ drop (Suc idx) (active p)"
    using assms unfolding active_def nr r f by (simp add: take_append)
  show "length (p_resident (remove_resident idx p)) = length (p_resident p)"
    using assms unfolding r f by simp
qed

lemma remove_resident_fields [simp]:
  "p_next_seq (remove_resident idx p) = p_next_seq p"
  "p_pid (remove_resident idx p) = p_pid p" "p_pagetable (remove_resident idx p) = p_pagetable p"
  "p_swapfile (remove_resident idx p) = p_swapfile p" "p_sz (remove_resident idx p) = p_sz p"
  by (simp_all add: remove_resident_def Let_def)

lemma rs_inv_remove:
  assumes "rs_inv p" "idx < p_nresident p"
  shows "rs_inv (remove_resident idx p)"
proof -
  have len: "p_nresident p \<le> length (p_resident p)" using assms(1) by (simp add: rs_inv_def)
  let ?a = "active p"
  have sub: "set (take idx ?a @ drop (Suc idx) ?a) \<subseteq> set ?a"
    using set_take_subset set_drop_subset by fastforce
  have split: "?a = take idx ?a @ [?a ! idx] @ drop (Suc idx) ?a"
    using assms rs_inv_length by (simp add: id_take_nth_drop)
  have inv: "length (p_resident p) = MAX_RESIDENT_PAGES" "p_nresident p \<le> MAX_RESIDENT_PAGES"
    "distinct (map rp_va ?a)" "sorted_wrt (<) (map rp_seq ?a)"
    "\<forall>r \<in> set ?a. rp_in_memory r \<and> rp_seq r < p_next_seq p"
    using assms(1) by (auto simp: rs_inv_def)
  have "distinct (map rp_va (take idx ?a @ drop (Suc idx) ?a))"
    using inv(3) by (subst (asm) split) auto
  moreover have "sorted_wrt (<) (map rp_seq (take idx ?a @ drop (Suc idx) ?a))"
    using inv(4) by (subst (asm) split) (simp add: sorted_wrt_append)
  ultimately show ?thesis
    using inv(1,2,5) sub unfolding rs_inv_def active_remove [OF assms(2) len] by auto
qed

section \<open>What a replacement policy may change\<close>

text \<open>The reference bits and the clock hand of the current process, and the log, but no other part
  of the state.\<close>

definition bits_off :: "resident_page \<Rightarrow> resident_page" where
  "bits_off r = r\<lparr>rp_ref_bit := False\<rparr>"

definition same_pages :: "'a mach_scheme \<Rightarrow> 'a mach_scheme \<Rightarrow> bool" where
  "same_pages s s' \<longleftrightarrow> (\<exists>R c l. s' = s\<lparr>procs := (procs s)[cur s :=
       (procs s ! cur s)\<lparr>p_resident := R, p_clock_hand := c\<rparr>], klog := l\<rparr> \<and>
     map bits_off R = map bits_off (p_resident (procs s ! cur s)))"

lemma same_pages_refl [simp]: "same_pages s s"
  unfolding same_pages_def
  by (intro exI [of _ "p_resident (procs s ! cur s)"] exI [of _ "p_clock_hand (procs s ! cur s)"]
      exI [of _ "klog s"]) simp

lemma same_pages_trans:
  assumes "same_pages s s'" "same_pages s' s''"
  shows "same_pages s s''"
proof -
  obtain R c l where a: "s' = s\<lparr>procs := (procs s)[cur s :=
      (procs s ! cur s)\<lparr>p_resident := R, p_clock_hand := c\<rparr>], klog := l\<rparr>"
    "map bits_off R = map bits_off (p_resident (procs s ! cur s))"
    using assms(1) unfolding same_pages_def by blast
  obtain R' c' l' where b: "s'' = s'\<lparr>procs := (procs s')[cur s' :=
      (procs s' ! cur s')\<lparr>p_resident := R', p_clock_hand := c'\<rparr>], klog := l'\<rparr>"
    "map bits_off R' = map bits_off (p_resident (procs s' ! cur s'))"
    using assms(2) unfolding same_pages_def by blast
  have "s'' = s\<lparr>procs := (procs s)[cur s :=
      (procs s ! cur s)\<lparr>p_resident := R', p_clock_hand := c'\<rparr>], klog := l'\<rparr>"
    "map bits_off R' = map bits_off (p_resident (procs s ! cur s))"
    using a b by (cases "cur s < length (procs s)"; simp add: list_update_beyond)+
  then show ?thesis unfolding same_pages_def by blast
qed

lemma same_pagesD:
  assumes "same_pages s s'"
  shows "mem s' = mem s" "freelist s' = freelist s" "kend s' = kend s" "cur s' = cur s"
    "length (procs s') = length (procs s)" "i \<noteq> cur s \<Longrightarrow> procs s' ! i = procs s ! i"
    "\<exists>R c. myproc s' = (myproc s)\<lparr>p_resident := R, p_clock_hand := c\<rparr> \<and>
       map bits_off R = map bits_off (p_resident (myproc s))"
proof -
  obtain R c l where a: "s' = s\<lparr>procs := (procs s)[cur s :=
      (procs s ! cur s)\<lparr>p_resident := R, p_clock_hand := c\<rparr>], klog := l\<rparr>"
    "map bits_off R = map bits_off (p_resident (procs s ! cur s))"
    using assms unfolding same_pages_def by blast
  show "mem s' = mem s" "freelist s' = freelist s" "kend s' = kend s" "cur s' = cur s"
    "length (procs s') = length (procs s)" "i \<noteq> cur s \<Longrightarrow> procs s' ! i = procs s ! i"
    by (simp_all add: a(1))
  show "\<exists>R c. myproc s' = (myproc s)\<lparr>p_resident := R, p_clock_hand := c\<rparr> \<and>
       map bits_off R = map bits_off (p_resident (myproc s))"
  proof (cases "cur s < length (procs s)")
    case True
    then show ?thesis using a by (intro exI [of _ R] exI [of _ c]) (simp add: myproc_def)
  next
    case False
    then show ?thesis using a(1)
      by (intro exI [of _ "p_resident (myproc s)"] exI [of _ "p_clock_hand (myproc s)"])
        (simp add: myproc_def list_update_beyond)
  qed
qed

lemma same_pages_kprintf [simp]: "same_pages s (kprintf fmt args s)"
  unfolding same_pages_def
  by (intro exI [of _ "p_resident (procs s ! cur s)"] exI [of _ "p_clock_hand (procs s ! cur s)"]
      exI [of _ "klog s @ [(fmt, args)]"]) (simp add: kprintf_def)

lemma nth_proc_upd:
  "procs (proc_upd i f s) ! j =
     (if j = i \<and> i < length (procs s) then f (procs s ! i) else procs s ! j)"
  by (cases "i < length (procs s)") (simp_all add: proc_upd_def nth_list_update list_update_beyond)

lemma myproc_upd_at [simp]:
  "cur s = i \<Longrightarrow> i < length (procs s) \<Longrightarrow> myproc (proc_upd i f s) = f (myproc s)"
  by (auto simp: myproc_def nth_proc_upd)

lemma same_pages_upd:
  assumes "f (myproc s) = (myproc s)\<lparr>p_resident := R, p_clock_hand := c\<rparr>"
    and "map bits_off R = map bits_off (p_resident (myproc s))"
  shows "same_pages s (myproc_upd f s)"
  unfolding same_pages_def using assms
  by (intro exI [of _ R] exI [of _ c] exI [of _ "klog s"]) (simp add: proc_upd_def myproc_def)

lemma bits_off_map:
  assumes "map bits_off R = map bits_off R'" "\<And>r. f (bits_off r) = f r"
  shows "map f R = map f R'"
proof -
  have "map f R = map f (map bits_off R)" by (simp add: assms(2))
  also have "\<dots> = map f R'" by (simp add: assms)
  finally show ?thesis .
qed

lemma bits_off_fields:
  assumes "map bits_off R = map bits_off R'"
  shows "map rp_va R = map rp_va R'" "map rp_seq R = map rp_seq R'"
    "map rp_in_memory R = map rp_in_memory R'" "map rp_dirty R = map rp_dirty R'"
    "length R = length R'"
  using assms map_eq_imp_length_eq [OF assms] by (auto intro!: bits_off_map simp: bits_off_def)

text \<open>The fields of the resident set that a policy leaves alone.\<close>

lemma same_pages_proc:
  assumes "same_pages s s'"
  shows "p_nresident (myproc s') = p_nresident (myproc s)"
    and "p_next_seq (myproc s') = p_next_seq (myproc s)"
    and "p_pagetable (myproc s') = p_pagetable (myproc s)"
    and "p_pid (myproc s') = p_pid (myproc s)"
    and "map rp_va (active (myproc s')) = map rp_va (active (myproc s))"
    and "map rp_seq (active (myproc s')) = map rp_seq (active (myproc s))"
    and "map rp_in_memory (active (myproc s')) = map rp_in_memory (active (myproc s))"
    and "length (p_resident (myproc s')) = length (p_resident (myproc s))"
proof -
  obtain R c where a: "myproc s' = (myproc s)\<lparr>p_resident := R, p_clock_hand := c\<rparr>"
    "map bits_off R = map bits_off (p_resident (myproc s))"
    using same_pagesD(7) [OF assms] by blast
  then show "p_nresident (myproc s') = p_nresident (myproc s)"
    "p_next_seq (myproc s') = p_next_seq (myproc s)"
    "p_pagetable (myproc s') = p_pagetable (myproc s)" "p_pid (myproc s') = p_pid (myproc s)"
    by simp_all
  show "map rp_va (active (myproc s')) = map rp_va (active (myproc s))"
    "map rp_seq (active (myproc s')) = map rp_seq (active (myproc s))"
    "map rp_in_memory (active (myproc s')) = map rp_in_memory (active (myproc s))"
    "length (p_resident (myproc s')) = length (p_resident (myproc s))"
    using a bits_off_fields [OF a(2)] by (simp_all add: active_def flip: take_map)
qed

lemma rs_inv_cong:
  assumes "rs_inv p" "p_nresident p' = p_nresident p" "p_next_seq p' = p_next_seq p"
    "length (p_resident p') = length (p_resident p)"
    "map rp_va (active p') = map rp_va (active p)" "map rp_seq (active p') = map rp_seq (active p)"
    "map rp_in_memory (active p') = map rp_in_memory (active p)"
  shows "rs_inv p'"
proof -
  have len: "length (active p') = length (active p)" using assms(5) by (metis length_map)
  have f: "rp_in_memory (active p' ! i) = rp_in_memory (active p ! i)"
    "rp_seq (active p' ! i) = rp_seq (active p ! i)" if "i < length (active p)" for i
    using arg_cong [OF assms(7), of "\<lambda>l. l ! i"] arg_cong [OF assms(6), of "\<lambda>l. l ! i"] that len
    by simp_all
  show ?thesis
    using assms f len unfolding rs_inv_def by (auto simp: all_set_conv_all_nth)
qed

lemma same_pages_rs_inv: "same_pages s s' \<Longrightarrow> rs_inv (myproc s) \<Longrightarrow> rs_inv (myproc s')"
  by (rule rs_inv_cong) (simp_all add: same_pages_proc)

section \<open>FIFO\<close>

lemma fifo_scan_inv:
  "foldl (\<lambda>(v, m) i. if rp_in_memory (p_resident p ! i) \<and> rp_seq (p_resident p ! i) < m
       then (int i, rp_seq (p_resident p ! i)) else (v, m)) (- 1, 0xFFFFFFFFFFFFFFFF) [0..<k] = (v, m)
   \<Longrightarrow> (\<forall>j<k. rp_in_memory (p_resident p ! j) \<longrightarrow> m \<le> rp_seq (p_resident p ! j)) \<and>
      (v = - 1 \<and> m = 0xFFFFFFFFFFFFFFFF \<or>
       (\<exists>i<k. v = int i \<and> rp_in_memory (p_resident p ! i) \<and> m = rp_seq (p_resident p ! i)))"
proof (induction k arbitrary: v m)
  case (Suc k)
  obtain v' m' where f: "foldl (\<lambda>(v, m) i. if rp_in_memory (p_resident p ! i) \<and>
      rp_seq (p_resident p ! i) < m then (int i, rp_seq (p_resident p ! i)) else (v, m))
      (- 1, 0xFFFFFFFFFFFFFFFF) [0..<k] = (v', m')"
    by (rule prod.exhaust)
  note ih = Suc.IH [OF f]
  show ?case
  proof (cases "rp_in_memory (p_resident p ! k) \<and> rp_seq (p_resident p ! k) < m'")
    case True
    then have "v = int k" "m = rp_seq (p_resident p ! k)" using Suc.prems f by simp_all
    then show ?thesis using ih True by (auto simp: less_Suc_eq)
  next
    case False
    then have "v = v'" "m = m'" using Suc.prems f by auto
    then show ?thesis using ih False by (auto simp: less_Suc_eq)
  qed
qed simp

lemma fifo_scan_spec:
  assumes "fifo_scan p = (v, m)"
  shows "\<forall>j<p_nresident p. rp_in_memory (p_resident p ! j) \<longrightarrow> m \<le> rp_seq (p_resident p ! j)"
    and "v = - 1 \<and> m = 0xFFFFFFFFFFFFFFFF \<or> (\<exists>i<p_nresident p. v = int i \<and>
      rp_in_memory (p_resident p ! i) \<and> m = rp_seq (p_resident p ! i))"
  using fifo_scan_inv [OF assms [unfolded fifo_scan_def]] by blast+

lemma find_victim_fifo_same: "\<exists>l. snd (find_victim_fifo s) = s\<lparr>klog := klog s @ l\<rparr>"
proof -
  have "\<exists>l. s = s\<lparr>klog := klog s @ l\<rparr>" by (rule exI [of _ "[]"]) simp
  then show ?thesis unfolding find_victim_fifo_def Let_def kprintf_def by auto
qed

lemma same_pages_klog [simp]: "same_pages s (s\<lparr>klog := l\<rparr>)"
  unfolding same_pages_def
  by (intro exI [of _ "p_resident (procs s ! cur s)"] exI [of _ "p_clock_hand (procs s ! cur s)"]
      exI [of _ l]) simp

lemma find_victim_fifo_spec:
  assumes "find_victim_fifo s = (v, s')"
  shows "v = - 1 \<and> (\<forall>i<p_nresident (myproc s). rp_in_memory (res s i) \<longrightarrow>
        rp_seq (res s i) = 0xFFFFFFFFFFFFFFFF) \<or>
    (\<exists>i<p_nresident (myproc s). v = int i \<and> rp_in_memory (res s i) \<and>
      (\<forall>j<p_nresident (myproc s). rp_in_memory (res s j) \<longrightarrow> rp_seq (res s i) \<le> rp_seq (res s j)))"
proof -
  obtain w m where f: "fifo_scan (myproc s) = (w, m)" by (rule prod.exhaust)
  note sp = fifo_scan_spec [OF f]
  have top: "x = 0xFFFFFFFFFFFFFFFF" if "0xFFFFFFFFFFFFFFFF \<le> x" for x :: u64
    using that unsigned_less [where ?'b = 64 and ?'a = nat and w = x]
    by (simp add: word_le_nat_alt word_unat_eq_iff)
  show ?thesis
  proof (cases "w = - 1 \<or> p_nresident (myproc s) = 0")
    case True
    then have "v = - 1"
      using assms f by (auto simp: find_victim_fifo_def Let_def split: if_splits)
    then show ?thesis using sp True top by auto
  next
    case False
    then have "v = w" using assms f sp by (auto simp: find_victim_fifo_def Let_def split: if_splits)
    then show ?thesis using sp False by auto
  qed
qed

section \<open>Second chance\<close>

text \<open>The page at an index has no valid entry in the page table.\<close>

definition unmapped :: "'a mach_scheme \<Rightarrow> u64 \<Rightarrow> bool" where
  "unmapped s va \<longleftrightarrow> (let pte = wl (mem s) 2 (p_pagetable (myproc s)) va in
     pte = 0 \<or> load64 (mem s) pte AND PTE_V = 0)"

text \<open>The state in which the sweep starts: the hand points into the resident set.\<close>

definition clock_ready :: "'a mach_scheme \<Rightarrow> nat \<Rightarrow> bool" where
  "clock_ready s h \<longleftrightarrow> cur s < length (procs s) \<and> rs_inv (myproc s) \<and> h < p_nresident (myproc s) \<and>
     p_clock_hand (myproc s) = int h \<and> (\<forall>i<p_nresident (myproc s). rp_va (res s i) < MAXVA)"

definition bits_set :: "'a mach_scheme \<Rightarrow> nat set" where
  "bits_set s = {i. i < p_nresident (myproc s) \<and> rp_ref_bit (res s i)}"

lemma finite_bits_set [simp]: "finite (bits_set s)"
  by (simp add: bits_set_def)

abbreviation clock_advance :: "nat \<Rightarrow> proc \<Rightarrow> proc" where
  "clock_advance h \<equiv> (\<lambda>p. p\<lparr>p_clock_hand := (p_clock_hand p + 1) mod int (p_nresident p)\<rparr>) \<circ>
     res_upd h (\<lambda>r. r\<lparr>rp_ref_bit := False\<rparr>)"

text \<open>One step of the sweep over a page whose bit is set.\<close>

lemma clock_step:
  assumes ready: "clock_ready s h" and set: "rp_ref_bit (res s h)"
    and s1_def: "s1 = myproc_upd (clock_advance h) s"
  shows "same_pages s s1" "clock_ready s1 (Suc h mod p_nresident (myproc s))"
    "p_nresident (myproc s1) = p_nresident (myproc s)"
    "i < p_nresident (myproc s) \<Longrightarrow> rp_ref_bit (res s1 i) = (rp_ref_bit (res s i) \<and> i \<noteq> h)"
    "i < p_nresident (myproc s) \<Longrightarrow> rp_va (res s1 i) = rp_va (res s i)"
    "bits_set s1 = bits_set s - {h}" "unmapped s1 va = unmapped s va"
proof -
  let ?p = "myproc s" and ?n = "p_nresident (myproc s)"
  let ?R = "(p_resident ?p)[h := (res s h)\<lparr>rp_ref_bit := False\<rparr>]"
  have r: "cur s < length (procs s)" "rs_inv ?p" "h < ?n" "p_clock_hand ?p = int h"
    "\<forall>i<?n. rp_va (res s i) < MAXVA"
    using ready by (auto simp: clock_ready_def)
  have n: "?n \<le> length (p_resident ?p)" using r(2) by (simp add: rs_inv_def)
  have my: "myproc s1 = ?p\<lparr>p_resident := ?R, p_clock_hand := (int h + 1) mod int ?n\<rparr>"
    using r(1,4) by (simp add: s1_def res_upd_def)
  have f: "clock_advance h ?p = ?p\<lparr>p_resident := ?R, p_clock_hand := (int h + 1) mod int ?n\<rparr>"
    using r(4) by (simp add: res_upd_def)
  have off: "map bits_off ?R = map bits_off (p_resident ?p)"
    using r(3) n by (simp add: map_update bits_off_def list_update_same_conv nth_map)
  show sp: "same_pages s s1" unfolding s1_def by (rule same_pages_upd [where f = "clock_advance h", OF f off])
  show bit: "rp_ref_bit (res s1 i) = (rp_ref_bit (res s i) \<and> i \<noteq> h)" if "i < ?n" for i
    using that r(3) n my by (simp add: nth_list_update)
  show va: "rp_va (res s1 i) = rp_va (res s i)" if "i < ?n" for i
    using that r(3) n my by (simp add: nth_list_update)
  show nr: "p_nresident (myproc s1) = ?n" using my by simp
  show "clock_ready s1 (Suc h mod ?n)"
    using r my va nr same_pages_rs_inv [OF sp] unfolding clock_ready_def
    by (simp add: s1_def zmod_int add.commute)
  show "bits_set s1 = bits_set s - {h}" using bit nr by (auto simp: bits_set_def)
  show "unmapped s1 va = unmapped s va" using my by (simp add: unmapped_def s1_def)
qed

lemma Suc_mod_add: "(Suc h mod n + e) mod n = (h + Suc e) mod (n :: nat)"
  by (simp add: mod_add_left_eq)

lemma clock_sweep_spec:
  assumes "clock_ready s h" "card (bits_set s) < k"
  shows "\<exists>d s'. clock_sweep k s = Ret (int ((h + d) mod p_nresident (myproc s)), s') \<and>
    same_pages s s' \<and> d \<le> p_nresident (myproc s) \<and>
    p_clock_hand (myproc s') = int ((h + d) mod p_nresident (myproc s)) \<and>
    (\<forall>e<d. rp_ref_bit (res s ((h + e) mod p_nresident (myproc s))) \<and>
       \<not> unmapped s (rp_va (res s ((h + e) mod p_nresident (myproc s))))) \<and>
    (\<forall>i<p_nresident (myproc s). rp_ref_bit (res s' i) =
       (rp_ref_bit (res s i) \<and> (\<forall>e<d. i \<noteq> (h + e) mod p_nresident (myproc s)))) \<and>
    (unmapped s (rp_va (res s ((h + d) mod p_nresident (myproc s)))) \<or>
     \<not> rp_ref_bit (res s' ((h + d) mod p_nresident (myproc s))))"
  using assms
proof (induction k arbitrary: s h)
  case (Suc k)
  let ?n = "p_nresident (myproc s)"
  have r: "rs_inv (myproc s)" "h < ?n" "p_clock_hand (myproc s) = int h" "rp_va (res s h) < MAXVA"
    using Suc.prems(1) by (auto simp: clock_ready_def)
  have mem_h: "rp_in_memory (res s h)"
    using rs_inv_mem [OF r(1,2)] r(1) by (simp add: rs_inv_def)
  have w: "walk (p_pagetable (myproc s)) (rp_va (res s h)) False s =
      Ret (wl (mem s) 2 (p_pagetable (myproc s)) (rp_va (res s h)), s)"
    using r(4) by (rule walk_noalloc)
  show ?case
  proof (cases "unmapped s (rp_va (res s h)) \<or> \<not> rp_ref_bit (res s h)")
    case True
    then have "clock_sweep (Suc k) s = Ret (int ((h + 0) mod ?n), s)"
      using r mem_h w by (auto simp: Let_def unmapped_def)
    then show ?thesis using True r by (intro exI [of _ 0] exI [of _ s]) auto
  next
    case False
    define s1 where "s1 = myproc_upd (clock_advance h) s"
    have set: "rp_ref_bit (res s h)" using False by simp
    note st = clock_step [OF Suc.prems(1) set s1_def]
    have step: "clock_sweep (Suc k) s = clock_sweep k s1"
      using False r mem_h w by (simp add: Let_def unmapped_def s1_def)
    have "h \<in> bits_set s" using set r(2) by (simp add: bits_set_def)
    then have "card (bits_set s1) < k"
      using Suc.prems(2) st(6) card_Diff1_less [OF finite_bits_set, of h s] by simp
    from Suc.IH [OF st(2) this] obtain d s' where
      ih: "clock_sweep k s1 = Ret (int ((h + Suc d) mod ?n), s')" "same_pages s1 s'"
      "p_clock_hand (myproc s') = int ((h + Suc d) mod ?n)"
      "\<forall>e<d. rp_ref_bit (res s1 ((h + Suc e) mod ?n)) \<and> \<not> unmapped s1 (rp_va (res s1 ((h + Suc e) mod ?n)))"
      "\<forall>i<?n. rp_ref_bit (res s' i) = (rp_ref_bit (res s1 i) \<and> (\<forall>e<d. i \<noteq> (h + Suc e) mod ?n))"
      "unmapped s1 (rp_va (res s1 ((h + Suc d) mod ?n))) \<or>
       \<not> rp_ref_bit (res s' ((h + Suc d) mod ?n))"
      unfolding st(3) Suc_mod_add by blast
    have lt: "x mod ?n < ?n" for x using r(2) by simp
    have "d < ?n"
    proof (rule ccontr)
      assume "\<not> d < ?n"
      then have "?n - 1 < d" using r(2) by simp
      then have "rp_ref_bit (res s1 ((h + Suc (?n - 1)) mod ?n))" using ih(4) by blast
      moreover have "(h + Suc (?n - 1)) mod ?n = h" using r(2) by simp
      ultimately show False using st(4) [OF r(2)] by simp
    qed
    moreover have "\<forall>e<Suc d. rp_ref_bit (res s ((h + e) mod ?n)) \<and> \<not> unmapped s (rp_va (res s ((h + e) mod ?n)))"
      using ih(4) st(4,5) [OF lt] st(7) set r(2) False by (auto simp: less_Suc_eq_0_disj)
    moreover have "\<forall>i<?n. rp_ref_bit (res s' i) =
        (rp_ref_bit (res s i) \<and> (\<forall>e<Suc d. i \<noteq> (h + e) mod ?n))"
      using ih(5) st(4) r(2) by (auto simp: less_Suc_eq_0_disj)
    moreover have "unmapped s (rp_va (res s ((h + Suc d) mod ?n))) \<or>
        \<not> rp_ref_bit (res s' ((h + Suc d) mod ?n))"
      using ih(6) st(5) [OF lt] st(7) by simp
    ultimately show ?thesis
      using step ih(1,3) same_pages_trans [OF st(1) ih(2)]
      by (intro exI [of _ "Suc d"] exI [of _ s']) simp
  qed
qed simp

lemma card_bits_set: "card (bits_set s) \<le> p_nresident (myproc s)"
proof -
  have "bits_set s \<subseteq> {..<p_nresident (myproc s)}" by (auto simp: bits_set_def)
  then show ?thesis using card_mono [of "{..<p_nresident (myproc s)}"] by simp
qed

text \<open>The whole policy: the hand is brought into range, swept to the victim and moved on.\<close>

definition start_hand :: "proc \<Rightarrow> nat" where
  "start_hand p =
     (if p_clock_hand p < 0 \<or> p_clock_hand p \<ge> int (p_nresident p) then 0 else nat (p_clock_hand p))"

definition evictable :: "'a mach_scheme \<Rightarrow> bool" where
  "evictable s \<longleftrightarrow> cur s < length (procs s) \<and> rs_inv (myproc s) \<and> 0 < p_nresident (myproc s) \<and>
     (\<forall>i<p_nresident (myproc s). rp_va (res s i) < MAXVA)"

lemma evictable_in_memory:
  "evictable s \<Longrightarrow> i < p_nresident (myproc s) \<Longrightarrow>
     rp_in_memory (res s i) \<and> rp_seq (res s i) < p_next_seq (myproc s)"
  using rs_inv_mem [of "myproc s" i] by (simp add: evictable_def rs_inv_def)

lemma same_pages_hand [simp]: "same_pages s (myproc_upd (\<lambda>p. p\<lparr>p_clock_hand := f p\<rparr>) s)"
  by (rule same_pages_upd [where R = "p_resident (myproc s)"]) simp_all

lemma same_pages_cur: "same_pages s s' \<Longrightarrow> cur s' = cur s \<and> length (procs s') = length (procs s)"
  by (simp add: same_pagesD)

lemma second_chance_spec:
  assumes "evictable s"
  defines "h \<equiv> start_hand (myproc s)" and "n \<equiv> p_nresident (myproc s)"
  shows "\<exists>d s'. find_victim_second_chance s = Ret (int ((h + d) mod n), s') \<and> same_pages s s' \<and> d \<le> n \<and>
    p_clock_hand (myproc s') = int ((h + d + 1) mod n) \<and>
    (\<forall>e<d. rp_ref_bit (res s ((h + e) mod n)) \<and> \<not> unmapped s (rp_va (res s ((h + e) mod n)))) \<and>
    (\<forall>i<n. rp_ref_bit (res s' i) = (rp_ref_bit (res s i) \<and> (\<forall>e<d. i \<noteq> (h + e) mod n))) \<and>
    (unmapped s (rp_va (res s ((h + d) mod n))) \<or> \<not> rp_ref_bit (res s' ((h + d) mod n)))"
proof -
  have c: "cur s < length (procs s)" and rs: "rs_inv (myproc s)" and pos: "0 < n"
    and va: "\<forall>i<n. rp_va (res s i) < MAXVA"
    using assms by (auto simp: evictable_def)
  define s0 where "s0 = (if p_clock_hand (myproc s) < 0 \<or> p_clock_hand (myproc s) \<ge> int n
    then myproc_upd (\<lambda>p. p\<lparr>p_clock_hand := 0\<rparr>) s else s)"
  have my0: "myproc s0 = (myproc s)\<lparr>p_clock_hand := int h\<rparr>"
    using c by (auto simp: s0_def h_def start_hand_def n_def)
  have sp0: "same_pages s s0" by (simp add: s0_def)
  have cur0: "cur s0 < length (procs s0)" "mem s0 = mem s"
    using c same_pagesD [OF sp0] by simp_all
  have un: "unmapped s0 x = unmapped s x" for x using my0 cur0 by (simp add: unmapped_def)
  have "clock_ready s0 h"
    unfolding clock_ready_def using cur0 my0 va pos same_pages_rs_inv [OF sp0 rs]
    by (auto simp: h_def start_hand_def n_def)
  moreover have "card (bits_set s0) < 2 * n"
    using card_bits_set [of s0] my0 pos by (simp add: n_def)
  ultimately obtain d s1 where d: "clock_sweep (2 * n) s0 = Ret (int ((h + d) mod n), s1)"
    "same_pages s0 s1" "d \<le> n" "p_clock_hand (myproc s1) = int ((h + d) mod n)"
    "\<forall>e<d. rp_ref_bit (res s ((h + e) mod n)) \<and> \<not> unmapped s (rp_va (res s ((h + e) mod n)))"
    "\<forall>i<n. rp_ref_bit (res s1 i) = (rp_ref_bit (res s i) \<and> (\<forall>e<d. i \<noteq> (h + e) mod n))"
    "unmapped s (rp_va (res s ((h + d) mod n))) \<or> \<not> rp_ref_bit (res s1 ((h + d) mod n))"
    using clock_sweep_spec [of s0 h "2 * n"] my0 un by (auto simp: n_def)
  have "rp_in_memory (res s 0)" using evictable_in_memory [OF assms(1)] pos by (simp add: n_def)
  then have some: "length (filter (\<lambda>i. rp_in_memory (res s i)) [0..<n]) \<noteq> 0"
    using pos by (auto simp: filter_empty_conv)
  define s2 where "s2 = kprintf ''[pid %d] VICTIM va=0x%lx seq=%ld algo=SecondChance clock_pos=%d''
    [PInt (p_pid (myproc s1)), PLong (rp_va (res s1 ((h + d) mod n))),
     PLong (rp_seq (res s1 ((h + d) mod n))), PInt (p_clock_hand (myproc s1))] s1"
  define s3 where "s3 = myproc_upd (\<lambda>p. p\<lparr>p_clock_hand := (p_clock_hand p + 1) mod int n\<rparr>) s2"
  define s4 where "s4 = (if n = 1 then myproc_upd (\<lambda>p. p\<lparr>p_clock_hand := 0\<rparr>) s3 else s3)"
  have res: "find_victim_second_chance s = Ret (int ((h + d) mod n), s4)"
    unfolding find_victim_second_chance_def Let_def
    using pos some d(1) by (simp add: s0_def s2_def s3_def s4_def n_def)
  have c2: "cur s2 < length (procs s2)"
    using cur0 same_pages_cur [OF d(2)] by (simp add: s2_def)
  have c3: "cur s3 < length (procs s3)" using c2 by (simp add: s3_def)
  have "same_pages s1 s2" by (simp add: s2_def)
  moreover have "same_pages s2 s3" by (simp add: s3_def)
  moreover have "same_pages s3 s4" by (simp add: s4_def)
  ultimately have sp: "same_pages s s4" using sp0 d(2) same_pages_trans by blast
  have "p_resident (myproc s4) = p_resident (myproc s1)"
    using c2 c3 by (simp add: s4_def s3_def s2_def)
  moreover have "p_clock_hand (myproc s4) = int ((h + d + 1) mod n)"
    using c2 c3 d(4) pos by (simp add: s4_def s3_def s2_def zmod_int mod_add_right_eq add.commute)
  ultimately show ?thesis using res sp d(3,5-7) by (intro exI [of _ d] exI [of _ s4]) simp
qed

section \<open>The interface of a replacement policy\<close>

locale victim_policy =
  fixes victim :: "'a mach_scheme \<Rightarrow> (int \<times> 'a mach_scheme) res"
  assumes victim_none: "p_nresident (myproc s) = 0 \<Longrightarrow> victim s = Ret (- 1, s)"
    and victim_some: "evictable s \<Longrightarrow>
      \<exists>i s'. victim s = Ret (int i, s') \<and> i < p_nresident (myproc s) \<and> same_pages s s'"
begin

text \<open>Taking the victim out of the resident set leaves a resident set with one page less.\<close>

lemma victim_removed:
  assumes "evictable s"
  shows "\<exists>i s'. victim s = Ret (int i, s') \<and> same_pages s s' \<and> rs_inv (remove_resident i (myproc s')) \<and>
    p_nresident (remove_resident i (myproc s')) = p_nresident (myproc s) - 1"
proof -
  obtain i s' where v: "victim s = Ret (int i, s')" "i < p_nresident (myproc s)" "same_pages s s'"
    using victim_some [OF assms] by blast
  have rs: "rs_inv (myproc s')" using assms same_pages_rs_inv [OF v(3)] by (simp add: evictable_def)
  have i: "i < p_nresident (myproc s')" using v(2,3) same_pages_proc(1) by metis
  have "p_nresident (myproc s') \<le> length (p_resident (myproc s'))" using rs by (simp add: rs_inv_def)
  then have "p_nresident (remove_resident i (myproc s')) = p_nresident (myproc s) - 1"
    using active_remove(2) [OF i] same_pages_proc(1) [OF v(3)] by simp
  then show ?thesis using v(1,3) rs_inv_remove [OF rs i] by blast
qed

end

lemma fifo_picks_page:
  assumes "evictable s"
  shows "\<exists>i s'. find_victim_fifo s = (int i, s') \<and> i < p_nresident (myproc s) \<and> same_pages s s'"
proof -
  obtain v s' where f: "find_victim_fifo s = (v, s')" by (rule prod.exhaust)
  have "rp_in_memory (res s 0)" "rp_seq (res s 0) < p_next_seq (myproc s)"
    using evictable_in_memory [OF assms, of 0] assms by (auto simp: evictable_def)
  then have "rp_seq (res s 0) \<noteq> 0xFFFFFFFFFFFFFFFF"
    using unsigned_less [where ?'b = 64 and ?'a = nat and w = "p_next_seq (myproc s)"]
    by (auto simp: word_less_nat_alt)
  then obtain i where "i < p_nresident (myproc s)" "v = int i"
    using find_victim_fifo_spec [OF f] assms \<open>rp_in_memory (res s 0)\<close> by (auto simp: evictable_def)
  moreover have "same_pages s s'" using f find_victim_fifo_same [of s] by auto
  ultimately show ?thesis using f by blast
qed

interpretation fifo: victim_policy "\<lambda>s. Ret (find_victim_fifo s)"
  using fifo_picks_page by unfold_locales (auto simp: find_victim_fifo_def)

interpretation second_chance: victim_policy find_victim_second_chance
proof
  show "find_victim_second_chance s = Ret (- 1, s)" if "p_nresident (myproc s) = 0"
    for s :: "'a mach_scheme"
    using that by (simp add: find_victim_second_chance_def)
  show "\<exists>i s'. find_victim_second_chance s = Ret (int i, s') \<and> i < p_nresident (myproc s) \<and>
      same_pages s s'" if "evictable s" for s :: "'a mach_scheme"
  proof -
    have "x mod p_nresident (myproc s) < p_nresident (myproc s)" for x
      using that by (simp add: evictable_def)
    then show ?thesis using second_chance_spec [OF that] by blast
  qed
qed

interpretation configured: victim_policy find_victim
proof
  show "find_victim s = Ret (- 1, s)" if "p_nresident (myproc s) = 0" for s :: "'a mach_scheme"
    using fifo.victim_none [OF that] second_chance.victim_none [OF that]
    by (simp add: find_victim_def)
  show "\<exists>i s'. find_victim s = Ret (int i, s') \<and> i < p_nresident (myproc s) \<and> same_pages s s'"
    if "evictable s" for s :: "'a mach_scheme"
    using fifo.victim_some [OF that] second_chance.victim_some [OF that]
    by (simp add: find_victim_def)
qed

section \<open>Properties\<close>

text \<open>A process with three resident pages, of which the first is the oldest, and the hand of
  the clock at the third.\<close>

definition demo_page :: "u64 \<Rightarrow> u64 \<Rightarrow> bool \<Rightarrow> resident_page" where
  "demo_page va seq ref = \<lparr>rp_va = va, rp_seq = seq, rp_dirty = False, rp_swap_offset = - 1,
     rp_in_memory = True, rp_ref_bit = ref\<rparr>"

definition demo_proc :: proc where
  "demo_proc = \<lparr>p_state = RUNNING, p_chan = ChNone, p_killed = False, p_xstate = 0, p_pid = 7,
     p_parent = None, p_kstack = 0, p_sz = 0x8000, p_pagetable = root_page, p_trapframe = 0,
     p_ofile = replicate NOFILE None, p_cwd = None, p_name = replicate 16 0, p_execfile = None,
     p_segments = [], p_nsegments = 0, p_text_start = 0, p_text_end = 0, p_data_end = 0,
     p_resident = [demo_page 0x1000 4 True, demo_page 0x2000 5 False, demo_page 0x3000 6 True] @
       replicate 5 (demo_page 0 0 False),
     p_nresident = 3, p_next_seq = 7, p_clock_hand = 2, p_swapfile = None,
     p_swapname = replicate 16 0, p_swap_bitmap = replicate 32 0, p_nswapped = 0,
     p_swap_map = replicate MAX_SWAP_PAGES \<lparr>sw_va = - 1, sw_slot = - 1\<rparr>\<rparr>"

definition demo_mach :: mach where
  "demo_mach = \<lparr>mem = mem two_pages, freelist = freelist two_pages, kend = kend two_pages,
     procs = [demo_proc], cur = 0, nextpid = 8, initproc = 0, kernel_pagetable = 0, etext = 0,
     trampoline = 0, ticks = 0, klog = []\<rparr>"

lemma demo_myproc [simp]: "myproc demo_mach = demo_proc" "cur demo_mach = 0"
  "procs demo_mach = [demo_proc]" "mem demo_mach = mem two_pages"
  by (simp_all add: demo_mach_def myproc_def)

lemma all_less_3: "(\<forall>i<3. P i) \<longleftrightarrow> P 0 \<and> P 1 \<and> P (2 :: nat)"
  by (simp add: numeral_3_eq_3 numeral_2_eq_2 less_Suc_eq all_conj_distrib)

lemma demo_evictable: "evictable demo_mach"
  by (simp add: evictable_def rs_inv_def active_def demo_proc_def demo_page_def all_less_3 MAXVA_def)

text \<open>C20: FIFO replacement picks the page that became resident first: the victim of
  \<^verbatim>\<open>find_victim_fifo\<close> is a resident page in memory whose sequence number is the lowest of all
  such pages, the call changes nothing of the state but adds to the log, and it finds no victim only if every page
  in memory has the largest sequence number there is.\<close>

theorem fifo_victim_oldest:
  assumes "find_victim_fifo s = (v, s')"
  shows "(\<exists>l. s' = s\<lparr>klog := klog s @ l\<rparr>) \<and> (\<forall>i. v = int i \<longrightarrow> i < p_nresident (myproc s) \<and> rp_in_memory (res s i) \<and>
      (\<forall>j<p_nresident (myproc s). rp_in_memory (res s j) \<longrightarrow> rp_seq (res s i) \<le> rp_seq (res s j))) \<and>
    (v < 0 \<longrightarrow> (\<forall>i<p_nresident (myproc s). rp_in_memory (res s i) \<longrightarrow>
      rp_seq (res s i) = 0xFFFFFFFFFFFFFFFF))"
  using find_victim_fifo_spec [OF assms] find_victim_fifo_same [of s] assms by auto

theorem fifo_victim_oldest_witness:
  "\<exists>v s'. find_victim_fifo demo_mach = (v, s') \<and> v = 0 \<and> (\<exists>l. s' = demo_mach\<lparr>klog := l\<rparr>)"
proof -
  obtain v s' where f: "find_victim_fifo demo_mach = (v, s')" by (rule prod.exhaust)
  have "v = 0"
    using f by (simp add: find_victim_fifo_def fifo_scan_def demo_proc_def demo_page_def upt_rec
        split: if_splits)
  then show ?thesis using f fifo_victim_oldest [OF f] by blast
qed

text \<open>C21: second-chance replacement ends within two rounds of the clock.  Starting at the hand it
  passes over mapped pages whose reference bit is set and clears these bits and no others; the
  victim is the first page that is not mapped or whose bit is clear, after at most one full round,
  and the hand ends at the page after it.  Nothing else of the state changes but the log.\<close>

theorem second_chance_victim:
  assumes "evictable s"
  shows "\<exists>d s'. find_victim_second_chance s =
      Ret (int ((start_hand (myproc s) + d) mod p_nresident (myproc s)), s') \<and>
    same_pages s s' \<and> d \<le> p_nresident (myproc s) \<and>
    p_clock_hand (myproc s') = int ((start_hand (myproc s) + d + 1) mod p_nresident (myproc s)) \<and>
    (\<forall>e<d. rp_ref_bit (res s ((start_hand (myproc s) + e) mod p_nresident (myproc s))) \<and>
       \<not> unmapped s (rp_va (res s ((start_hand (myproc s) + e) mod p_nresident (myproc s))))) \<and>
    (\<forall>i<p_nresident (myproc s). rp_ref_bit (res s' i) = (rp_ref_bit (res s i) \<and>
       (\<forall>e<d. i \<noteq> (start_hand (myproc s) + e) mod p_nresident (myproc s)))) \<and>
    (unmapped s (rp_va (res s ((start_hand (myproc s) + d) mod p_nresident (myproc s)))) \<or>
     \<not> rp_ref_bit (res s' ((start_hand (myproc s) + d) mod p_nresident (myproc s))))"
  by (rule second_chance_spec [OF assms])

theorem second_chance_victim_witness:
  "\<exists>d s'. find_victim_second_chance demo_mach = Ret (int ((2 + d) mod 3), s') \<and> d \<le> 3 \<and>
     same_pages demo_mach s'"
proof -
  have "start_hand demo_proc = 2" "p_nresident demo_proc = 3"
    by (simp_all add: start_hand_def demo_proc_def)
  then show ?thesis using second_chance_victim [OF demo_evictable] by auto
qed

end
