(* ===== verification/Aspace.thy ===== *)
theory Aspace
  imports Resident
begin

text \<open>
  The memory of a process as a whole: its page table, the user pages mapped there, the pages
  that the kernel holds for it at the moment (\<open>H\<close>) and the free list.  \<open>us_ok\<close> says that these
  are disjoint and that no user page is mapped twice.  A step \<open>us_step\<close> neither loses nor
  creates a page and writes to no page outside.

  The second half lifts this to a process with its resident set, \<open>as_ok\<close> and \<open>as_step\<close>.
\<close>

section \<open>User pages\<close>

text \<open>The page table as a function, with no entries beyond \<^verbatim>\<open>MAXVA\<close>.\<close>

definition uptes :: "'a kmem_scheme \<Rightarrow> addr \<Rightarrow> u64 \<Rightarrow> u64" where
  "uptes s pt = (\<lambda>va. if va < MAXVA then pte_of s pt va else 0)"

definition user_at :: "(u64 \<Rightarrow> u64) \<Rightarrow> u64 \<Rightarrow> bool" where
  "user_at f va \<longleftrightarrow> bit (f va) 0 \<and> bit (f va) 4"

definition upages :: "(u64 \<Rightarrow> u64) \<Rightarrow> addr set" where
  "upages f = (\<lambda>va. PTE2PA (f va)) ` {va. user_at f va}"

definition pages_inj :: "(u64 \<Rightarrow> u64) \<Rightarrow> bool" where
  "pages_inj f \<longleftrightarrow> (\<forall>a b. user_at f a \<longrightarrow> user_at f b \<longrightarrow> PTE2PA (f a) = PTE2PA (f b) \<longrightarrow> pn a = pn b)"

lemma pages_injD:
  "pages_inj f \<Longrightarrow> user_at f a \<Longrightarrow> user_at f b \<Longrightarrow> PTE2PA (f a) = PTE2PA (f b) \<Longrightarrow> pn a = pn b"
  unfolding pages_inj_def by blast

definition us_ok :: "'a kmem_scheme \<Rightarrow> addr \<Rightarrow> addr set \<Rightarrow> addr list \<Rightarrow> bool" where
  "us_ok s pt H xs \<longleftrightarrow> pt_inv s pt xs \<and> pages_inj (uptes s pt) \<and>
     (\<forall>p \<in> H \<union> upages (uptes s pt). kpage s p \<and> p \<notin> set xs \<and> p \<notin> tabs (mem s) 2 pt) \<and>
     H \<inter> upages (uptes s pt) = {}"

text \<open>All pages of the process, and the free ones.\<close>

definition own :: "'a kmem_scheme \<Rightarrow> addr \<Rightarrow> addr set \<Rightarrow> addr list \<Rightarrow> addr set" where
  "own s pt H xs = set xs \<union> tabs (mem s) 2 pt \<union> upages (uptes s pt) \<union> H"

definition us_step :: "'a kmem_scheme \<Rightarrow> addr \<Rightarrow> addr set \<Rightarrow> addr list \<Rightarrow>
    'a kmem_scheme \<Rightarrow> addr set \<Rightarrow> addr list \<Rightarrow> bool" where
  "us_step s pt H xs s' H' xs' \<longleftrightarrow> us_ok s' pt H' xs' \<and> mem_only s s' \<and>
     own s' pt H' xs' = own s pt H xs \<and> same_off (pn ` own s pt H xs) (mem s) (mem s')"

lemma us_step_refl: "us_ok s pt H xs \<Longrightarrow> us_step s pt H xs s H xs"
  by (simp add: us_step_def)

lemma us_step_trans:
  "us_step s pt H xs s' H' xs' \<Longrightarrow> us_step s' pt H' xs' s'' H'' xs'' \<Longrightarrow> us_step s pt H xs s'' H'' xs''"
  unfolding us_step_def by (auto intro: mem_only_trans same_off_trans)

lemma us_okD:
  assumes "us_ok s pt H xs"
  shows "pt_inv s pt xs" "pages_inj (uptes s pt)" "kinv s xs" "ptwf (kpage s) (mem s) 2 pt"
    "tabs (mem s) 2 pt \<inter> set xs = {}"
    "p \<in> H \<Longrightarrow> kpage s p \<and> p \<notin> set xs \<and> p \<notin> tabs (mem s) 2 pt \<and> p \<notin> upages (uptes s pt)"
    "p \<in> upages (uptes s pt) \<Longrightarrow> kpage s p \<and> p \<notin> set xs \<and> p \<notin> tabs (mem s) 2 pt \<and> p \<notin> H"
    "p \<in> set xs \<Longrightarrow> kpage s p" "t \<in> tabs (mem s) 2 pt \<Longrightarrow> kpage s t"
proof -
  show i: "pt_inv s pt xs" "pages_inj (uptes s pt)" using assms by (simp_all add: us_ok_def)
  then show k: "kinv s xs" "ptwf (kpage s) (mem s) 2 pt" "tabs (mem s) 2 pt \<inter> set xs = {}"
    by (simp_all add: pt_inv_def)
  show "p \<in> H \<Longrightarrow> kpage s p \<and> p \<notin> set xs \<and> p \<notin> tabs (mem s) 2 pt \<and> p \<notin> upages (uptes s pt)"
    "p \<in> upages (uptes s pt) \<Longrightarrow> kpage s p \<and> p \<notin> set xs \<and> p \<notin> tabs (mem s) 2 pt \<and> p \<notin> H"
    using assms unfolding us_ok_def by blast+
  show "p \<in> set xs \<Longrightarrow> kpage s p" using k(1) by (simp add: kinv_def)
  show "t \<in> tabs (mem s) 2 pt \<Longrightarrow> kpage s t" using ptwf_tabs_K [OF k(2)] .
qed

lemma us_okI:
  assumes "pt_inv s pt xs" "pages_inj (uptes s pt)"
    and "\<And>p. p \<in> H \<Longrightarrow> kpage s p \<and> p \<notin> set xs \<and> p \<notin> tabs (mem s) 2 pt"
    and "\<And>p. p \<in> upages (uptes s pt) \<Longrightarrow>
      kpage s p \<and> p \<notin> set xs \<and> p \<notin> tabs (mem s) 2 pt \<and> p \<notin> H"
  shows "us_ok s pt H xs"
  using assms unfolding us_ok_def by (simp add: ball_Un disjoint_iff) blast

lemma in_upages: "user_at f va \<Longrightarrow> PTE2PA (f va) \<in> upages f"
  by (simp add: upages_def)

lemma uptes_cong:
  "(\<And>x. x < MAXVA \<Longrightarrow> pte_of s' pt x = pte_of s pt x) \<Longrightarrow> uptes s' pt = uptes s pt"
  by (simp add: uptes_def fun_eq_iff)

lemma mem_only_pt_inv_kpage: "mem_only s s' \<Longrightarrow> kpage s' p = kpage s p"
  using mem_only_kpage by metis

text \<open>A step that leaves every entry of the page table as it is.\<close>

lemma us_same_ptes:
  assumes ok: "us_ok s pt H xs" and inv: "pt_inv s' pt xs'" and mo: "mem_only s s'"
    and ptes: "uptes s' pt = uptes s pt"
    and all: "set xs' \<union> tabs (mem s') 2 pt \<union> H' = set xs \<union> tabs (mem s) 2 pt \<union> H"
    and dis: "H' \<inter> (set xs' \<union> tabs (mem s') 2 pt) = {}"
    and so: "same_off (pn ` own s pt H xs) (mem s) (mem s')"
  shows "us_step s pt H xs s' H' xs'"
proof -
  have k: "kpage s' p = kpage s p" for p using mo by (rule mem_only_pt_inv_kpage)
  have un: "p \<in> set xs' \<or> p \<in> tabs (mem s') 2 pt \<or> p \<in> H' \<longleftrightarrow> p \<in> set xs \<or> p \<in> tabs (mem s) 2 pt \<or> p \<in> H" for p
    using all [unfolded set_eq_iff, rule_format, of p] by simp
  have eq: "own s' pt H' xs' = own s pt H xs"
    unfolding own_def ptes set_eq_iff Un_iff using un by metis
  have "us_ok s' pt H' xs'"
  proof (rule us_okI)
    show "pages_inj (uptes s' pt)" using us_okD(2) [OF ok] ptes by simp
    show "kpage s' p \<and> p \<notin> set xs' \<and> p \<notin> tabs (mem s') 2 pt" if "p \<in> H'" for p
      using un [of p] us_okD(6) [OF ok, of p] us_okD(8) [OF ok, of p] us_okD(9) [OF ok, of p]
        dis [unfolded disjoint_iff, rule_format, of p] that by (auto simp: k)
    show "kpage s' p \<and> p \<notin> set xs' \<and> p \<notin> tabs (mem s') 2 pt \<and> p \<notin> H'"
      if "p \<in> upages (uptes s' pt)" for p
      using us_okD(7) [OF ok, of p] un [of p] that by (simp add: k ptes)
  qed (rule inv)
  then show ?thesis using mo eq so by (simp add: us_step_def)
qed

lemma pn_notin:
  assumes "kpage s p" "\<And>t. t \<in> T \<Longrightarrow> kpage s t" "p \<notin> T"
  shows "\<forall>t\<in>T. pn t \<notin> {pn p}"
proof
  fix t assume t: "t \<in> T"
  have "page_aligned t" "page_aligned p" using assms(1,2) t by (simp_all add: kpage_def)
  then have "pn t = pn p \<Longrightarrow> t = p" by (rule page_aligned_pn_inj)
  then show "pn t \<notin> {pn p}" using t assms(3) by blast
qed

section \<open>Steps\<close>

lemma us_write:
  assumes ok: "us_ok s pt H xs" and p: "p \<in> H" and so: "same_off {pn p} (mem s) m"
  shows "us_step s pt H xs (s\<lparr>mem := m\<rparr>) H xs" "uptes (s\<lparr>mem := m\<rparr>) pt = uptes s pt"
proof -
  note d = us_okD [OF ok]
  have K: "\<And>q. kpage s q \<Longrightarrow> page_aligned q" by (simp add: kpage_def)
  have np: "\<forall>t\<in>tabs (mem s) 2 pt. pn t \<notin> {pn p}" "\<forall>a\<in>set xs. pn a \<notin> {pn p}"
    using pn_notin [of s p] d(6) [OF p] d(8,9) by blast+
  note f = pt_frame [OF K d(4) so np(1)]
  have "kinv (s\<lparr>mem := m\<rparr>) xs" using kinv_cong [OF d(3) so np(2)] .
  moreover have "kpage (s\<lparr>mem := m\<rparr>) = kpage s" by (simp add: fun_eq_iff)
  ultimately have inv: "pt_inv (s\<lparr>mem := m\<rparr>) pt xs"
    using f(1,2) d(5) by (simp add: pt_inv_def)
  show pte: "uptes (s\<lparr>mem := m\<rparr>) pt = uptes s pt" using f(4) by (intro uptes_cong) simp
  show "us_step s pt H xs (s\<lparr>mem := m\<rparr>) H xs"
  proof (rule us_same_ptes [OF ok inv _ pte])
    show "same_off (pn ` own s pt H xs) (mem s) (mem (s\<lparr>mem := m\<rparr>))"
      using same_off_mono [OF so] p by (simp add: own_def)
    show "H \<inter> (set xs \<union> tabs (mem (s\<lparr>mem := m\<rparr>)) 2 pt) = {}"
      using d(6) f(1) by (simp add: disjoint_iff)
  qed (simp_all add: f(1))
qed

lemma us_kalloc:
  assumes ok: "us_ok s pt H xs" and ka: "kalloc s = (a, s')"
  shows "a = 0 \<and> s' = s \<or>
    (\<exists>zs. a \<noteq> 0 \<and> xs = a # zs \<and> a \<notin> H \<and> us_step s pt H xs s' (insert a H) zs \<and>
      uptes s' pt = uptes s pt)"
proof (cases xs)
  case Nil
  then have "kalloc s = (0, s)" using kalloc_Nil us_okD(3) [OF ok] by simp
  then show ?thesis using ka by simp
next
  case (Cons b zs)
  note d = us_okD [OF ok]
  have kv: "kinv s (b # zs)" using d(3) Cons by simp
  note k = kalloc_Cons [OF kv]
  have a: "a = b" and s': "s' = s\<lparr>freelist := load64 (mem s) b, mem := memset (mem s) b 5 4096\<rparr>"
    using ka k(1) by auto
  have b: "b \<notin> tabs (mem s) 2 pt" "b \<notin> H" "b \<notin> set zs" "b \<notin> upages (uptes s pt)"
    using d(5) d(6,7) [of b] kv Cons by (auto simp: kinv_def)
  have so: "same_off {pn b} (mem s) (mem s')"
    using same_off_memset [of b] k(3) by (simp add: s' kpage_def)
  have K: "\<And>q. kpage s q \<Longrightarrow> page_aligned q" by (simp add: kpage_def)
  note f = pt_frame [OF K d(4) so pn_notin [OF k(3) d(9) b(1)]]
  have "kpage s' = kpage s" by (simp add: s' fun_eq_iff)
  then have inv: "pt_inv s' pt zs" using k(2) ka f(1,2) d(5) Cons by (simp add: pt_inv_def)
  have pte: "uptes s' pt = uptes s pt" using f(4) by (intro uptes_cong) simp
  have "us_step s pt H xs s' (insert b H) zs"
  proof (rule us_same_ptes [OF ok inv _ pte])
    show "mem_only s s'" by (simp add: s')
    show "same_off (pn ` own s pt H xs) (mem s) (mem s')"
      using same_off_mono [OF so] Cons by (simp add: own_def)
    show "set zs \<union> tabs (mem s') 2 pt \<union> insert b H = set xs \<union> tabs (mem s) 2 pt \<union> H"
      using f(1) Cons by auto
    show "insert b H \<inter> (set zs \<union> tabs (mem s') 2 pt) = {}"
      using f(1) b d(6) Cons by auto
  qed
  then show ?thesis using a b k(4) Cons pte by simp
qed

lemma us_kfree:
  assumes ok: "us_ok s pt H xs" and p: "p \<in> H"
  shows "\<exists>s'. kfree p s = Ret s' \<and> us_step s pt H xs s' (H - {p}) (p # xs) \<and>
    uptes s' pt = uptes s pt \<and> (\<forall>x. wl (mem s') 2 pt x = wl (mem s) 2 pt x)"
proof -
  note d = us_okD [OF ok]
  have kp: "kpage s p" "p \<notin> set xs" "p \<notin> tabs (mem s) 2 pt" using d(6) [OF p] by auto
  obtain m where m: "kfree p s = Ret (s\<lparr>mem := m, freelist := p\<rparr>)"
    "pt_inv (s\<lparr>mem := m, freelist := p\<rparr>) pt (p # xs)" "same_off {pn p} (mem s) m"
    "tabs m 2 pt = tabs (mem s) 2 pt" "\<forall>x. pte_val m 2 pt x = pte_of s pt x"
    "\<forall>x. wl m 2 pt x = wl (mem s) 2 pt x"
    using pt_kfree [OF d(1) kp] by (elim exE conjE) (rule that)
  let ?s = "s\<lparr>mem := m, freelist := p\<rparr>"
  have pte: "uptes ?s pt = uptes s pt" using m(5) by (intro uptes_cong) simp
  have "us_step s pt H xs ?s (H - {p}) (p # xs)"
  proof (rule us_same_ptes [OF ok m(2) _ pte])
    show "same_off (pn ` own s pt H xs) (mem s) (mem ?s)"
      using same_off_mono [OF m(3)] p by (simp add: own_def)
    show "(H - {p}) \<inter> (set (p # xs) \<union> tabs (mem ?s) 2 pt) = {}"
      using d(6) m(4) by auto
    show "set (p # xs) \<union> tabs (mem ?s) 2 pt \<union> (H - {p}) = set xs \<union> tabs (mem s) 2 pt \<union> H"
      using m(4) p by auto
  qed simp
  then show ?thesis using m(1,6) pte by (intro exI [of _ ?s]) simp
qed

section \<open>Mapping and unmapping\<close>

definition pt_upd :: "(u64 \<Rightarrow> u64) \<Rightarrow> u64 \<Rightarrow> u64 \<Rightarrow> u64 \<Rightarrow> u64" where
  "pt_upd f va v = (\<lambda>x. if x < MAXVA \<and> pn x = pn va then v else f x)"

text \<open>Page tables map pages: an entry depends on the page number only.\<close>

definition paged :: "(u64 \<Rightarrow> u64) \<Rightarrow> bool" where
  "paged f \<longleftrightarrow> (\<forall>x y. x < MAXVA \<longrightarrow> y < MAXVA \<longrightarrow> pn x = pn y \<longrightarrow> f x = f y) \<and> (\<forall>x. \<not> x < MAXVA \<longrightarrow> f x = 0)"

lemma paged_uptes [simp]: "paged (uptes s pt)"
  unfolding paged_def uptes_def by (intro conjI allI impI) (simp_all, rule pte_val_cong)

lemma user_at_MAXVA: "paged f \<Longrightarrow> user_at f x \<Longrightarrow> x < MAXVA"
  by (auto simp: paged_def user_at_def)

lemma upages_map:
  assumes f: "paged f" and va: "va < MAXVA" "\<not> user_at f va" and v: "bit v 0" "bit v 4"
  shows "upages (pt_upd f va v) = insert (PTE2PA v) (upages f)"
    and "pages_inj f \<Longrightarrow> PTE2PA v \<notin> upages f \<Longrightarrow> pages_inj (pt_upd f va v)"
proof -
  have no: "\<not> (x < MAXVA \<and> pn x = pn va)" if "user_at f x" for x
    using that f va unfolding paged_def user_at_def by metis
  have u: "user_at (pt_upd f va v) x \<longleftrightarrow> x < MAXVA \<and> pn x = pn va \<or> user_at f x" for x
    using v no [of x] by (auto simp: user_at_def pt_upd_def)
  have at: "user_at f x \<Longrightarrow> pt_upd f va v x = f x" for x using no [of x] by (auto simp: pt_upd_def)
  show "upages (pt_upd f va v) = insert (PTE2PA v) (upages f)"
  proof (rule set_eqI)
    fix p
    have "p \<in> upages (pt_upd f va v) \<longleftrightarrow> (\<exists>x. user_at (pt_upd f va v) x \<and> p = PTE2PA (pt_upd f va v x))"
      by (auto simp: upages_def)
    also have "\<dots> \<longleftrightarrow> (\<exists>x. x < MAXVA \<and> pn x = pn va \<and> p = PTE2PA v) \<or> (\<exists>x. user_at f x \<and> p = PTE2PA (f x))"
      unfolding u using at by (metis pt_upd_def)
    also have "\<dots> \<longleftrightarrow> p \<in> insert (PTE2PA v) (upages f)" using va(1) by (auto simp: upages_def)
    finally show "p \<in> upages (pt_upd f va v) \<longleftrightarrow> p \<in> insert (PTE2PA v) (upages f)" .
  qed
  assume inj: "pages_inj f" and new: "PTE2PA v \<notin> upages f"
  have ne: "user_at f x \<Longrightarrow> PTE2PA (f x) \<noteq> PTE2PA v" for x using new in_upages [of f x] by auto
  have val: "x < MAXVA \<and> pn x = pn va \<Longrightarrow> pt_upd f va v x = v" for x by (simp add: pt_upd_def)
  show "pages_inj (pt_upd f va v)"
    unfolding pages_inj_def u
  proof (intro allI impI)
    fix a b
    assume "a < MAXVA \<and> pn a = pn va \<or> user_at f a" "b < MAXVA \<and> pn b = pn va \<or> user_at f b"
      and eq: "PTE2PA (pt_upd f va v a) = PTE2PA (pt_upd f va v b)"
    then consider "pn a = pn va" "pn b = pn va" | "user_at f a" "user_at f b"
      | "user_at f a" "b < MAXVA \<and> pn b = pn va" | "user_at f b" "a < MAXVA \<and> pn a = pn va" by blast
    then show "pn a = pn b"
    proof cases
      case 2
      then show ?thesis using eq at by (intro pages_injD [OF inj]) simp_all
    next
      case 3
      then show ?thesis using eq at [of a] val [of b] ne [of a] by simp
    next
      case 4
      then show ?thesis using eq at [of b] val [of a] ne [of b] by simp
    qed simp
  qed
qed

lemma upages_unmap:
  assumes f: "paged f" and va: "va < MAXVA" "user_at f va" and inj: "pages_inj f"
  shows "upages (pt_upd f va 0) = upages f - {PTE2PA (f va)}" "pages_inj (pt_upd f va 0)"
proof -
  have pg: "f x = f va" if "x < MAXVA" "pn x = pn va" for x using that f va(1) unfolding paged_def by blast
  have u: "user_at (pt_upd f va 0) x \<longleftrightarrow> user_at f x \<and> pn x \<noteq> pn va" for x
    using user_at_MAXVA [OF f, of x] by (auto simp: user_at_def pt_upd_def)
  have at: "pn x \<noteq> pn va \<Longrightarrow> pt_upd f va 0 x = f x" for x by (simp add: pt_upd_def)
  have eqn: "PTE2PA (f x) = PTE2PA (f va) \<longleftrightarrow> pn x = pn va" if "user_at f x" for x
    using pages_injD [OF inj that va(2)] pg [OF user_at_MAXVA [OF f that]] by auto
  show "upages (pt_upd f va 0) = upages f - {PTE2PA (f va)}"
  proof (rule set_eqI)
    fix p
    have "p \<in> upages (pt_upd f va 0) \<longleftrightarrow> (\<exists>x. user_at (pt_upd f va 0) x \<and> p = PTE2PA (pt_upd f va 0 x))"
      by (auto simp: upages_def)
    also have "\<dots> \<longleftrightarrow> (\<exists>x. user_at f x \<and> pn x \<noteq> pn va \<and> p = PTE2PA (f x))"
      unfolding u using at by metis
    also have "\<dots> \<longleftrightarrow> (\<exists>x. user_at f x \<and> p = PTE2PA (f x)) \<and> p \<noteq> PTE2PA (f va)" using eqn by metis
    also have "\<dots> \<longleftrightarrow> p \<in> upages f - {PTE2PA (f va)}" by (auto simp: upages_def)
    finally show "p \<in> upages (pt_upd f va 0) \<longleftrightarrow> p \<in> upages f - {PTE2PA (f va)}" .
  qed
  show "pages_inj (pt_upd f va 0)"
    unfolding pages_inj_def u
  proof (intro allI impI)
    fix a b
    assume a: "user_at f a \<and> pn a \<noteq> pn va" and b: "user_at f b \<and> pn b \<noteq> pn va"
      and eq: "PTE2PA (pt_upd f va 0 a) = PTE2PA (pt_upd f va 0 b)"
    show "pn a = pn b" using pages_injD [OF inj, of a b] a b eq at [of a] at [of b] by simp
  qed
qed

lemma uptes_upd:
  "(\<And>x. x < MAXVA \<Longrightarrow> pte_of s' pt x = (if pn x = pn va then v else pte_of s pt x)) \<Longrightarrow>
   uptes s' pt = pt_upd (uptes s pt) va v"
  by (auto simp: uptes_def pt_upd_def fun_eq_iff)

lemma pt_step_mem_only: "pt_step s pt xs s' ys zs \<Longrightarrow> mem_only s s'"
  by (auto simp: pt_step_def)

lemma pt_step_own:
  "pt_step s pt xs s' ys zs \<Longrightarrow> same_off (pn ` own s pt H xs) (mem s) (mem s')"
  by (auto simp: pt_step_def own_def elim: same_off_mono)

text \<open>The changes of the page table keep the pages apart if they keep the table and take the new
  pages from the pages held.\<close>

lemma us_change:
  assumes ok: "us_ok s pt H xs" and inv: "pt_inv s' pt xs'" and mo: "mem_only s s'"
    and inj: "pages_inj (uptes s' pt)"
    and all: "own s' pt H' xs' = own s pt H xs"
    and dis: "H' \<inter> (set xs' \<union> tabs (mem s') 2 pt) = {}"
      "upages (uptes s' pt) \<inter> (H' \<union> set xs' \<union> tabs (mem s') 2 pt) = {}"
    and so: "same_off (pn ` own s pt H xs) (mem s) (mem s')"
  shows "us_step s pt H xs s' H' xs'"
proof -
  have k: "kpage s' p = kpage s p" for p using mo by (rule mem_only_pt_inv_kpage)
  have kp: "kpage s p" if "p \<in> own s' pt H' xs'" for p
    using that [unfolded all, unfolded own_def] us_okD(6) [OF ok, of p] us_okD(7) [OF ok, of p]
      us_okD(8) [OF ok, of p] us_okD(9) [OF ok, of p] by blast
  have "us_ok s' pt H' xs'"
  proof (rule us_okI [OF inv inj])
    show "kpage s' p \<and> p \<notin> set xs' \<and> p \<notin> tabs (mem s') 2 pt" if "p \<in> H'" for p
      using that kp [of p] dis(1) unfolding own_def k by blast
    show "kpage s' p \<and> p \<notin> set xs' \<and> p \<notin> tabs (mem s') 2 pt \<and> p \<notin> H'"
      if "p \<in> upages (uptes s' pt)" for p
      using that kp [of p] dis(2) unfolding own_def k by blast
  qed
  then show ?thesis using mo all so by (simp add: us_step_def)
qed

lemma us_map:
  assumes ok: "us_ok s pt H xs" and p: "p \<in> H" and va: "va < MAXVA" "page_aligned va"
    and free: "\<not> bit (pte_of s pt va) 0" and perm: "bit perm 4" "unat (perm OR PTE_V) < 1024"
  shows "\<exists>r s'. mappages pt va PGSIZE p perm s = Ret (r, s') \<and>
    (r = - 1 \<and> length xs < 2 \<and> us_step s pt H xs s' H [] \<and> uptes s' pt = uptes s pt \<or>
     r = 0 \<and> (\<exists>zs. us_step s pt H xs s' (H - {p}) zs \<and>
       uptes s' pt = pt_upd (uptes s pt) va (PA2PTE p OR perm OR PTE_V)))"
proof -
  note d = us_okD [OF ok]
  have m: "mappages pt va PGSIZE p perm s = mappages_loop pt va va p perm s"
    using va(2) by (simp add: mappages_def page_aligned_def PGSIZE_def)
  let ?v = "PA2PTE p OR perm OR PTE_V"
  have pH: "kpage s p" "p \<notin> set xs" "p \<notin> tabs (mem s) 2 pt" "p \<notin> upages (uptes s pt)"
    using d(6) [OF p] by auto
  have v: "PTE2PA ?v = p" "bit ?v 0" "bit ?v 4"
    using PTE2PA_PA2PTE [of p "perm OR PTE_V"] pH(1) perm
    by (simp_all add: kpage_def or.assoc bit_or_iff PTE_V_def)
  from mappages_step [OF d(1) va(1) free, of va p perm] show ?thesis
  proof (elim disjE exE conjE)
    fix s' ys
    assume st: "pt_step s pt xs s' ys []" and few: "length xs < 2" and same: "\<forall>x. pte_of s' pt x = pte_of s pt x"
      and l: "mappages_loop pt va va p perm s = Ret (- 1, s')"
    have pte: "uptes s' pt = uptes s pt" using same by (intro uptes_cong) simp
    have "us_step s pt H xs s' H []"
    proof (rule us_same_ptes [OF ok _ pt_step_mem_only [OF st] pte _ _ pt_step_own [OF st]])
      show "pt_inv s' pt []" using st by (simp add: pt_step_def)
      show "set [] \<union> tabs (mem s') 2 pt \<union> H = set xs \<union> tabs (mem s) 2 pt \<union> H"
        using st by (auto simp: pt_step_def)
      show "H \<inter> (set [] \<union> tabs (mem s') 2 pt) = {}"
        using st d(6) by (auto simp: pt_step_def)
    qed
    then show ?thesis using l m pte few by auto
  next
    fix s' ys zs
    assume st: "pt_step s pt xs s' ys zs"
      and val: "\<forall>x<MAXVA. pte_of s' pt x = (if pn x = pn va then ?v else pte_of s pt x)"
      and l: "mappages_loop pt va va p perm s =
        (if va = va then Ret (0, s') else mappages_loop pt (va + PGSIZE) va (p + PGSIZE) perm s')"
    have pte: "uptes s' pt = pt_upd (uptes s pt) va ?v" using val by (intro uptes_upd) simp
    have nu: "\<not> user_at (uptes s pt) va" using free va(1) by (simp add: user_at_def uptes_def)
    note u = upages_map [OF paged_uptes va(1) nu v(2,3), unfolded v(1)]
    have ys: "xs = ys @ zs" "tabs (mem s') 2 pt = tabs (mem s) 2 pt \<union> set ys" "pt_inv s' pt zs"
      using st by (simp_all add: pt_step_def)
    have tz: "tabs (mem s') 2 pt \<inter> set zs = {}" using ys(3) by (simp add: pt_inv_def)
    have "us_step s pt H xs s' (H - {p}) zs"
    proof (rule us_change [OF ok ys(3) pt_step_mem_only [OF st] _ _ _ _ pt_step_own [OF st]])
      show "pages_inj (uptes s' pt)" unfolding pte by (rule u(2) [OF d(2) pH(4)])
      show "own s' pt (H - {p}) zs = own s pt H xs"
        unfolding own_def pte u(1) ys(2) ys(1) using p by auto
      show "(H - {p}) \<inter> (set zs \<union> tabs (mem s') 2 pt) = {}"
        using d(6) ys(1,2) by auto
      show "upages (uptes s' pt) \<inter> (H - {p} \<union> set zs \<union> tabs (mem s') 2 pt) = {}"
        unfolding pte u(1) using d(7) ys(1,2) pH by auto
    qed
    then show ?thesis using l m pte by auto
  qed
qed

lemma us_unmap:
  assumes ok: "us_ok s pt H xs" and va: "va < MAXVA" "user_at (uptes s pt) va"
    and p: "p = PTE2PA (pte_of s pt va)" and w: "wl (mem s) 2 pt va \<noteq> 0"
  shows "\<exists>s1. kfree p s = Ret s1 \<and>
    us_step s pt H xs (s1\<lparr>mem := store64 (mem s1) (wl (mem s) 2 pt va) 0\<rparr>) H (p # xs) \<and>
    uptes (s1\<lparr>mem := store64 (mem s1) (wl (mem s) 2 pt va) 0\<rparr>) pt = pt_upd (uptes s pt) va 0"
proof -
  note d = us_okD [OF ok]
  have pv: "p = PTE2PA (uptes s pt va)" using p va(1) by (simp add: uptes_def)
  have pu: "p \<in> upages (uptes s pt)" unfolding pv by (rule in_upages [OF va(2)])
  have kp: "kpage s p" "p \<notin> set xs" "p \<notin> tabs (mem s) 2 pt" "p \<notin> H" using d(7) [OF pu] by auto
  obtain m where m: "kfree p s = Ret (s\<lparr>mem := m, freelist := p\<rparr>)"
    "pt_inv (s\<lparr>mem := m, freelist := p\<rparr>) pt (p # xs)" "same_off {pn p} (mem s) m"
    "tabs m 2 pt = tabs (mem s) 2 pt" "\<forall>x. pte_val m 2 pt x = pte_of s pt x"
    "\<forall>x. wl m 2 pt x = wl (mem s) 2 pt x"
    using pt_kfree [OF d(1) kp(1-3)] by (elim exE conjE) (rule that)
  let ?s1 = "s\<lparr>mem := m, freelist := p\<rparr>"
  let ?s2 = "?s1\<lparr>mem := store64 (mem ?s1) (wl (mem s) 2 pt va) 0\<rparr>"
  have w1: "wl (mem ?s1) 2 pt va \<noteq> 0" using w m(6) by simp
  have s2: "?s2 = ?s1\<lparr>mem := store64 (mem ?s1) (wl (mem ?s1) 2 pt va) 0\<rparr>" using m(6) by simp
  note ps = pte_store [OF m(2) va(1) w1 s2]
  have pte: "uptes ?s2 pt = pt_upd (uptes s pt) va 0"
    using ps(2) m(5) by (intro uptes_upd) simp
  note u = upages_unmap [OF paged_uptes va d(2), folded pv]
  have tb: "tabs (mem ?s2) 2 pt = tabs (mem s) 2 pt" using ps(1) m(4) by (simp add: pt_step_def)
  have so: "same_off (pn ` own s pt H xs) (mem s) (mem ?s2)"
  proof (rule same_off_trans)
    show "same_off (pn ` own s pt H xs) (mem s) (mem ?s1)"
      using same_off_mono [OF m(3)] pu by (simp add: own_def)
    have "same_off (pn ` (tabs (mem s) 2 pt)) (mem ?s1) (mem ?s2)"
      using ps(1) m(4) by (simp add: pt_step_def)
    then show "same_off (pn ` own s pt H xs) (mem ?s1) (mem ?s2)"
      by (rule same_off_mono) (auto simp: own_def)
  qed
  have "us_step s pt H xs ?s2 H (p # xs)"
  proof (rule us_change [OF ok _ _ _ _ _ _ so])
    show "pt_inv ?s2 pt (p # xs)" using ps(1) by (simp add: pt_step_def)
    show "pages_inj (uptes ?s2 pt)" unfolding pte by (rule u(2))
    show "own ?s2 pt H (p # xs) = own s pt H xs" unfolding own_def pte u(1) tb using pu by auto
    show "H \<inter> (set (p # xs) \<union> tabs (mem ?s2) 2 pt) = {}" unfolding tb using d(6) kp(4) by auto
    show "upages (uptes ?s2 pt) \<inter> (H \<union> set (p # xs) \<union> tabs (mem ?s2) 2 pt) = {}"
      unfolding pte u(1) tb using d(7) by auto
  qed simp
  then show ?thesis using m(1) pte by (intro exI [of _ ?s1]) simp
qed

end
