(* ===== verification/Evict.thy ===== *)
theory Evict
  imports Aspace
begin

text \<open>
  Eviction and the address space.  The invariant \<open>as_ok\<close> of the running process joins the
  page-level invariant \<open>us_ok\<close> of its page table with the invariant \<open>rs_inv\<close> of its resident
  set.  A step that is \<open>quiet\<close> leaves both alone: choosing a victim and writing a page to the
  swap file are.  \<open>as_step\<close> says that a step keeps the invariant, changes no memory but the pages
  of the process, its page table and the free list, and loses no page among these; the lemmas
  show it of \<^verbatim>\<open>evict_page\<close>, of allocation with eviction and of mapping, filling and releasing
  a page.
\<close>

section \<open>Steps that leave the address space alone\<close>

text \<open>A process is at most woken, as \<^verbatim>\<open>wakeup\<close> does, or killed, as \<^verbatim>\<open>kkill\<close> does: a
  sleeping process may become runnable, and the kill flag may be set.\<close>

definition touched :: "proc \<Rightarrow> proc \<Rightarrow> bool" where
  "touched p p' \<longleftrightarrow> p' = p\<lparr>p_state := p_state p', p_killed := p_killed p'\<rparr> \<and>
     (p_state p' = p_state p \<or> p_state p = SLEEPING \<and> p_state p' = RUNNABLE) \<and>
     (p_killed p \<longrightarrow> p_killed p')"

text \<open>The processes other than the running one are at most woken or killed.\<close>

definition others_kept :: "'a mach_scheme \<Rightarrow> 'a mach_scheme \<Rightarrow> bool" where
  "others_kept s s' \<longleftrightarrow> cur s' = cur s \<and> length (procs s') = length (procs s) \<and>
     (\<forall>i<length (procs s). i \<noteq> cur s \<longrightarrow> touched (procs s ! i) (procs s' ! i))"

text \<open>What the invariant reads of a process.\<close>

definition rview :: "proc \<Rightarrow> addr \<times> nat \<times> u64 \<times> (u64 \<times> u64 \<times> bool) list" where
  "rview p = (p_pagetable p, p_nresident p, p_next_seq p,
     map (\<lambda>r. (rp_va r, rp_seq r, rp_in_memory r)) (p_resident p))"

definition quiet :: "'a mach_scheme \<Rightarrow> 'a mach_scheme \<Rightarrow> bool" where
  "quiet s s' \<longleftrightarrow> mem s' = mem s \<and> freelist s' = freelist s \<and> kend s' = kend s \<and>
     others_kept s s' \<and> rview (myproc s') = rview (myproc s)"

lemma touched_refl [simp]: "touched p p"
  by (simp add: touched_def)

lemma touched_trans: "touched p q \<Longrightarrow> touched q r \<Longrightarrow> touched p r"
  unfolding touched_def by (cases p; cases q; cases r) auto

lemma touched_woken: "woken p q \<Longrightarrow> touched p q"
  by (auto simp: woken_def touched_def)

lemma others_kept_refl [simp]: "others_kept s s"
  by (simp add: others_kept_def)

lemma others_kept_trans: "others_kept s s' \<Longrightarrow> others_kept s' s'' \<Longrightarrow> others_kept s s''"
  by (auto simp: others_kept_def intro: touched_trans)

lemma others_kept_same:
  "cur s' = cur s \<Longrightarrow> length (procs s') = length (procs s) \<Longrightarrow>
   (\<And>i. i < length (procs s) \<Longrightarrow> i \<noteq> cur s \<Longrightarrow> procs s' ! i = procs s ! i) \<Longrightarrow> others_kept s s'"
  using others_kept_refl [of s] unfolding others_kept_def by simp

lemma others_kept_upd: "others_kept s (proc_upd (cur s) f s)"
  by (rule others_kept_same) (simp_all add: nth_proc_upd)

lemma others_kept_procs [simp]:
  "procs s' = procs s \<Longrightarrow> cur s' = cur s \<Longrightarrow> others_kept s s'"
  by (rule others_kept_same) simp_all

lemma others_kept_frame: "fs_frame s s' \<Longrightarrow> others_kept s s'"
  by (simp add: fs_frame_def others_kept_def touched_woken)

lemma quiet_refl [simp]: "quiet s s"
  by (simp add: quiet_def)

lemma quiet_trans: "quiet s s' \<Longrightarrow> quiet s' s'' \<Longrightarrow> quiet s s''"
  by (simp add: quiet_def) (blast intro: others_kept_trans)

lemma quiet_kprintf [simp]: "quiet s (kprintf fmt args s') = quiet s s'"
  by (simp add: quiet_def others_kept_def)

lemma quiet_frame: "fs_frame s s' \<Longrightarrow> quiet s s'"
  using others_kept_frame [of s s'] fs_frame_myproc [of s s'] by (simp add: quiet_def fs_frame_def)

lemma quiet_cur: "quiet s s' \<Longrightarrow> cur s' = cur s \<and> length (procs s') = length (procs s)"
  by (simp add: quiet_def others_kept_def)

lemma quiet_upd:
  assumes "quiet s s'" "cur s < length (procs s)" "rview (f (myproc s')) = rview (myproc s')"
  shows "quiet s (proc_upd (cur s) f s')"
proof -
  have c: "cur s' = cur s" "length (procs s') = length (procs s)" using quiet_cur [OF assms(1)] by auto
  have "quiet s' (proc_upd (cur s') f s')"
    using assms(2,3) others_kept_upd [of s' f] c by (simp add: quiet_def)
  then show ?thesis using quiet_trans [OF assms(1)] c by simp
qed

lemma rview_bits_off: "map bits_off R = map bits_off R' \<Longrightarrow>
  map (\<lambda>r. (rp_va r, rp_seq r, rp_in_memory r)) R = map (\<lambda>r. (rp_va r, rp_seq r, rp_in_memory r)) R'"
  by (rule bits_off_map) (simp_all add: bits_off_def)

lemma quiet_same_pages:
  assumes "same_pages s s'"
  shows "quiet s s'"
proof -
  note sp = same_pagesD [OF assms]
  have "others_kept s s'" by (rule others_kept_same) (simp_all add: sp)
  moreover obtain R c where "myproc s' = (myproc s)\<lparr>p_resident := R, p_clock_hand := c\<rparr>"
    "map bits_off R = map bits_off (p_resident (myproc s))"
    using sp(7) by blast
  then have "rview (myproc s') = rview (myproc s)"
    using rview_bits_off [of R "p_resident (myproc s)"] by (simp add: rview_def)
  ultimately show ?thesis by (simp add: quiet_def sp)
qed

lemma touched_rview: "touched p p' \<Longrightarrow> rview p' = rview p"
  by (cases p; cases p') (simp add: touched_def rview_def)

lemma touched_kill: "touched p (let p = p\<lparr>p_killed := True\<rparr> in
    if p_state p = SLEEPING then p\<lparr>p_state := RUNNABLE\<rparr> else p)"
  by (simp add: touched_def Let_def)

lemma quiet_touched:
  assumes "\<And>p. touched p (f p)"
  shows "quiet s (proc_upd i f s)"
proof -
  have "touched (procs s ! j) (procs (proc_upd i f s) ! j)" for j
    using assms by (simp add: nth_proc_upd)
  then have "others_kept s (proc_upd i f s)" "rview (myproc (proc_upd i f s)) = rview (myproc s)"
    by (simp_all add: others_kept_def touched_rview myproc_def)
  then show ?thesis by (simp add: quiet_def)
qed

lemma quiet_kkill: "quiet s (snd (kkill pid s))"
proof (cases "find (\<lambda>i. p_pid (procs s ! i) = pid) [0..<length (procs s)]")
  case (Some i)
  show ?thesis
    unfolding kkill_def Some option.case snd_conv by (rule quiet_touched) (rule touched_kill)
qed (simp add: kkill_def)

section \<open>Swapping out\<close>

text \<open>\<open>qt s pr m\<close>: the state that \<open>pr\<close> selects from a result of \<open>m\<close> is \<open>quiet\<close> with
  respect to \<open>s\<close>.\<close>

definition qt :: "'a mach_scheme \<Rightarrow> ('x \<Rightarrow> 'a mach_scheme) \<Rightarrow> 'x res \<Rightarrow> bool" where
  "qt s pr m \<longleftrightarrow> post m (\<lambda>x. quiet s (pr x))"

lemma qt_Ret [simp]: "qt s pr (Ret x) = quiet s (pr x)"
  by (simp add: qt_def)

lemma qt_frm: "frm s' pr m \<Longrightarrow> quiet s s' \<Longrightarrow> qt s pr m"
  by (auto simp: qt_def frm_def post_def intro: quiet_trans quiet_frame)

lemma qt_bind:
  assumes "qt s pr m" "\<And>x. quiet s (pr x) \<Longrightarrow> qt s pr' (f x)"
  shows "qt s pr' (rbind m f)"
  using assms unfolding qt_def by (rule post_bind)

named_theorems quiet_rules

lemma qt_bind_state [quiet_rules]:
  assumes "qt s id m" "\<And>x. quiet s x \<Longrightarrow> qt s pr (f x)"
  shows "qt s pr (rbind m f)"
  by (rule qt_bind [OF assms(1)]) (simp add: assms(2))

lemma qt_bind_pair [quiet_rules]:
  "qt s snd m \<Longrightarrow> (\<And>a x. quiet s x \<Longrightarrow> qt s pr (f (a, x))) \<Longrightarrow> qt s pr (rbind m f)"
  by (rule qt_bind) auto

lemma qt_case [quiet_rules]:
  "(\<And>a b. x = (a, b) \<Longrightarrow> qt s pr (g a b)) \<Longrightarrow> qt s pr (case x of (a, b) \<Rightarrow> g a b)"
  by (cases x) simp

lemma qt_if [quiet_rules]: "qt s pr m \<Longrightarrow> qt s pr n \<Longrightarrow> qt s pr (if c then m else n)"
  by simp

lemma qt_option [quiet_rules]:
  "qt s pr m \<Longrightarrow> (\<And>y. qt s pr (n y)) \<Longrightarrow> qt s pr (case x of None \<Rightarrow> m | Some y \<Rightarrow> n y)"
  by (cases x) auto

lemmas quiet_ops [quiet_rules] =
  begin_op_frame [OF fs_frame_refl, THEN qt_frm] end_op_frame [OF fs_frame_refl, THEN qt_frm]
  ilock_frame [OF fs_frame_refl, THEN qt_frm] iunlock_frame [OF fs_frame_refl, THEN qt_frm]
  create_frame [OF fs_frame_refl, THEN qt_frm]
  writei_kernel_frame(2) [OF fs_frame_refl, THEN qt_frm]

lemma walk_same: "post (walk pt va False s) (\<lambda>(a, s'). s' = s)"
  by (cases "va < MAXVA") (simp_all add: walk_noalloc, simp add: walk_def)

lemma rview_res_upd:
  assumes "\<And>r. rp_va (g r) = rp_va r" "\<And>r. rp_seq (g r) = rp_seq r"
    "\<And>r. rp_in_memory (g r) = rp_in_memory r"
  shows "rview (res_upd i g p) = rview p"
proof -
  have "map (\<lambda>r. (rp_va r, rp_seq r, rp_in_memory r)) ((p_resident p)[i := g (p_resident p ! i)]) =
      map (\<lambda>r. (rp_va r, rp_seq r, rp_in_memory r)) (p_resident p)"
  proof (rule nth_equalityI, simp)
    fix j assume "j < length (map (\<lambda>r. (rp_va r, rp_seq r, rp_in_memory r))
      ((p_resident p)[i := g (p_resident p ! i)]))"
    then show "map (\<lambda>r. (rp_va r, rp_seq r, rp_in_memory r))
        ((p_resident p)[i := g (p_resident p ! i)]) ! j =
      map (\<lambda>r. (rp_va r, rp_seq r, rp_in_memory r)) (p_resident p) ! j"
      by (cases "i = j") (simp_all add: assms)
  qed
  then show ?thesis by (simp add: res_upd_def rview_def)
qed

lemma quiet_alloc_swap_slot:
  assumes "quiet s s'" "cur s < length (procs s)"
  shows "quiet s (snd (alloc_swap_slot s'))"
proof -
  have "quiet s (proc_upd (cur s') (\<lambda>p. p\<lparr>p_swap_bitmap := g p\<rparr>) s')" for g
    using quiet_upd [OF assms] quiet_cur [OF assms(1)] by (simp add: rview_def)
  then show ?thesis using assms(1) by (simp add: alloc_swap_slot_def split: option.split)
qed

lemma quiet_free_swap_slot:
  assumes "quiet s s'" "cur s < length (procs s)"
  shows "quiet s (free_swap_slot slot s')"
proof -
  have "quiet s (proc_upd (cur s') (\<lambda>p. p\<lparr>p_swap_bitmap := g p\<rparr>) s')" for g
    using quiet_upd [OF assms] quiet_cur [OF assms(1)] by (simp add: rview_def)
  then show ?thesis using assms(1) by (simp add: free_swap_slot_def Let_def)
qed

lemma quiet_my_upd:
  assumes "quiet s s'" "cur s < length (procs s)" "\<And>p. rview (f p) = rview p"
  shows "quiet s (proc_upd (cur s') f s')"
  using quiet_upd [OF assms(1,2), of f] assms(3) quiet_cur [OF assms(1)] by simp

lemma quiet_idup [simp]: "quiet s (idup ip s') = quiet s s'"
  by (simp add: idup_def inode_upd_def quiet_def others_kept_def myproc_def)

lemma qt_walk [quiet_rules]: "quiet s s' \<Longrightarrow> qt s snd (walk pt va False s')"
  using walk_same [of pt va s'] by (auto simp: qt_def post_def)

lemma create_swapfile_quiet:
  assumes q: "quiet s s'" and c: "cur s < length (procs s)"
  shows "qt s snd (create_swapfile s')"
proof -
  have u: "quiet s (proc_upd k f x)" if "quiet s x" "cur x = k" "\<And>p. rview (f p) = rview p" for k x f
    using quiet_my_upd [OF that(1) c that(3)] that(2) by simp
  show ?thesis
    unfolding create_swapfile_def Let_def
    by (intro quiet_rules) (simp_all add: u q rview_def comp_def)
qed

lemma swap_out_quiet:
  assumes q: "quiet s s'" and c: "cur s < length (procs s)"
  shows "qt s snd (swap_out va i s')"
proof -
  have u: "quiet s (proc_upd k f x)" if "quiet s x" "cur x = k" "\<And>p. rview (f p) = rview p" for k x f
    using quiet_my_upd [OF that(1) c that(3)] that(2) by simp
  have al: "quiet s x'" if "quiet s x" "alloc_swap_slot x = (a, x')" for x a x'
    using quiet_alloc_swap_slot [OF that(1) c] that(2) by simp
  note fr = quiet_free_swap_slot [OF _ c]
  have rs: "rview (res_upd j (\<lambda>r. r\<lparr>rp_swap_offset := n\<rparr>) p) = rview p" for j n p
    by (rule rview_res_upd) simp_all
  have sm: "rview (p\<lparr>p_nswapped := a, p_swap_map := b\<rparr>) = rview p" for p a b
    by (simp add: rview_def)
  show ?thesis
    unfolding swap_out_def Let_def
    by (intro quiet_rules create_swapfile_quiet [OF _ c])
      (simp_all add: u q fr al rs sm)
qed

section \<open>The address space of the running process\<close>

abbreviation aspt :: "'a mach_scheme \<Rightarrow> u64 \<Rightarrow> u64" where
  "aspt s \<equiv> uptes s (p_pagetable (myproc s))"

text \<open>An address that may be in the resident set: a page below \<^verbatim>\<open>MAXVA\<close> which is a user
  page if it is mapped.\<close>

definition va_ok :: "(u64 \<Rightarrow> u64) \<Rightarrow> u64 \<Rightarrow> bool" where
  "va_ok f va \<longleftrightarrow> va < MAXVA \<and> page_aligned va \<and> (bit (f va) 0 \<longrightarrow> bit (f va) 4)"

definition as_ok :: "'a mach_scheme \<Rightarrow> addr set \<Rightarrow> addr list \<Rightarrow> bool" where
  "as_ok s H xs \<longleftrightarrow> cur s < length (procs s) \<and> us_ok s (p_pagetable (myproc s)) H xs \<and>
     rs_inv (myproc s) \<and> (\<forall>va \<in> set (map rp_va (active (myproc s))). va_ok (aspt s) va)"

abbreviation as_own :: "'a mach_scheme \<Rightarrow> addr set \<Rightarrow> addr list \<Rightarrow> addr set" where
  "as_own s H xs \<equiv> own s (p_pagetable (myproc s)) H xs"

definition as_move ::
  "'a mach_scheme \<Rightarrow> addr set \<Rightarrow> addr list \<Rightarrow> 'a mach_scheme \<Rightarrow> addr set \<Rightarrow> addr list \<Rightarrow> bool" where
  "as_move s H xs s' H' xs' \<longleftrightarrow> as_ok s' H' xs' \<and> as_own s' H' xs' = as_own s H xs \<and>
     same_off (pn ` as_own s H xs) (mem s) (mem s') \<and> kend s' = kend s \<and> others_kept s s' \<and>
     p_pagetable (myproc s') = p_pagetable (myproc s)"

text \<open>A step that does not add to the resident set.\<close>

definition as_step ::
  "'a mach_scheme \<Rightarrow> addr set \<Rightarrow> addr list \<Rightarrow> 'a mach_scheme \<Rightarrow> addr set \<Rightarrow> addr list \<Rightarrow> bool" where
  "as_step s H xs s' H' xs' \<longleftrightarrow> as_move s H xs s' H' xs' \<and>
     p_next_seq (myproc s') = p_next_seq (myproc s)"

lemma as_move_trans:
  "as_move s H xs s' H' xs' \<Longrightarrow> as_move s' H' xs' s'' H'' xs'' \<Longrightarrow> as_move s H xs s'' H'' xs''"
  unfolding as_move_def by (auto intro: same_off_trans others_kept_trans)

lemma as_step_trans:
  "as_step s H xs s' H' xs' \<Longrightarrow> as_step s' H' xs' s'' H'' xs'' \<Longrightarrow> as_step s H xs s'' H'' xs''"
  unfolding as_step_def
  by (elim conjE, intro conjI, erule (1) as_move_trans) simp

lemma as_stepD:
  assumes "as_step s H xs s' H' xs'"
  shows "as_move s H xs s' H' xs'" "as_ok s' H' xs'" "p_pagetable (myproc s') = p_pagetable (myproc s)"
    "p_next_seq (myproc s') = p_next_seq (myproc s)"
proof -
  show m: "as_move s H xs s' H' xs'" and "p_next_seq (myproc s') = p_next_seq (myproc s)"
    using assms by (simp_all add: as_step_def)
  show "as_ok s' H' xs'" "p_pagetable (myproc s') = p_pagetable (myproc s)"
    using m by (simp_all add: as_move_def)
qed

lemma as_okD:
  assumes "as_ok s H xs"
  shows "cur s < length (procs s)" "us_ok s (p_pagetable (myproc s)) H xs" "rs_inv (myproc s)"
    "va \<in> set (map rp_va (active (myproc s))) \<Longrightarrow> va_ok (aspt s) va"
  using assms unfolding as_ok_def by blast+

lemma as_ok_res: "as_ok s H xs \<Longrightarrow> i < p_nresident (myproc s) \<Longrightarrow> va_ok (aspt s) (rp_va (res s i))"
proof -
  assume ok: "as_ok s H xs" and i: "i < p_nresident (myproc s)"
  have "rp_va (res s i) \<in> set (map rp_va (active (myproc s)))"
    unfolding set_map by (rule imageI) (rule rs_inv_mem [OF as_okD(3) [OF ok] i])
  then show ?thesis by (rule as_okD(4) [OF ok])
qed

lemma rview_active:
  assumes "rview p' = rview p"
  shows "map rp_va (active p') = map rp_va (active p)" "map rp_seq (active p') = map rp_seq (active p)"
    "map rp_in_memory (active p') = map rp_in_memory (active p)"
    "length (p_resident p') = length (p_resident p)" "p_nresident p' = p_nresident p"
    "p_next_seq p' = p_next_seq p" "p_pagetable p' = p_pagetable p"
proof -
  let ?f = "\<lambda>r. (rp_va r, rp_seq r, rp_in_memory r)"
  have m: "map ?f (p_resident p') = map ?f (p_resident p)" and n: "p_nresident p' = p_nresident p"
    using assms by (simp_all add: rview_def)
  have a: "map ?f (active p') = map ?f (active p)"
    unfolding active_def n by (simp add: m flip: take_map)
  show "map rp_va (active p') = map rp_va (active p)"
    using arg_cong [OF a, of "map fst"] by (simp add: comp_def)
  show "map rp_seq (active p') = map rp_seq (active p)"
    using arg_cong [OF a, of "map (fst \<circ> snd)"] by (simp add: comp_def)
  show "map rp_in_memory (active p') = map rp_in_memory (active p)"
    using arg_cong [OF a, of "map (snd \<circ> snd)"] by (simp add: comp_def)
  show "length (p_resident p') = length (p_resident p)" using map_eq_imp_length_eq [OF m] .
  show "p_nresident p' = p_nresident p" "p_next_seq p' = p_next_seq p"
    "p_pagetable p' = p_pagetable p"
    using assms by (simp_all add: rview_def)
qed

lemma rview_rs_inv:
  assumes "rview p' = rview p" "rs_inv p"
  shows "rs_inv p'"
  by (rule rs_inv_cong [OF assms(2)]) (rule rview_active [OF assms(1)])+

lemma us_ok_cong:
  assumes "mem s' = mem s" "freelist s' = freelist s" "kend s' = kend s"
  shows "us_ok s' pt H xs = us_ok s pt H xs" "uptes s' pt = uptes s pt"
    "own s' pt H xs = own s pt H xs"
proof -
  have k: "kpage s' = kpage s" using assms by (simp add: kpage_def fun_eq_iff)
  show u: "uptes s' pt = uptes s pt" unfolding uptes_def assms ..
  show "us_ok s' pt H xs = us_ok s pt H xs"
    unfolding us_ok_def pt_inv_def kinv_def u k assms ..
  show "own s' pt H xs = own s pt H xs" unfolding own_def u assms ..
qed

lemma as_quiet:
  assumes ok: "as_ok s H xs" and q: "quiet s s'"
  shows "as_step s H xs s' H xs" "aspt s' = aspt s"
proof -
  have m: "mem s' = mem s" "freelist s' = freelist s" "kend s' = kend s"
    and ot: "others_kept s s'" and rv: "rview (myproc s') = rview (myproc s)"
    using q by (simp_all add: quiet_def)
  note c = us_ok_cong [OF m] and v = rview_active [OF rv]
  show u: "aspt s' = aspt s" by (simp add: c(2) v(7))
  have "as_ok s' H xs"
    using ok quiet_cur [OF q] rview_rs_inv [OF rv] unfolding as_ok_def v(1) u unfolding v(7) c(1) by simp
  then show "as_step s H xs s' H xs"
    unfolding as_step_def as_move_def v(6,7) c(3) using m ot by simp
qed

lemma as_us:
  assumes ok: "as_ok s H xs" and st: "us_step s (p_pagetable (myproc s)) H xs s' H' xs'"
    and va: "\<And>va. va_ok (aspt s) va \<Longrightarrow> va_ok (uptes s' (p_pagetable (myproc s))) va"
  shows "as_step s H xs s' H' xs'"
proof -
  have mo: "mem_only s s'" using st by (simp add: us_step_def)
  note m = mem_only_mach [OF mo]
  have "as_ok s' H' xs'"
    using ok st va unfolding as_ok_def us_step_def m by simp
  then show ?thesis
    using st mo unfolding as_step_def as_move_def us_step_def m by (simp add: m mem_only_def)
qed

lemma as_mapped_word:
  assumes ok: "us_ok s pt H xs" and va: "va < MAXVA"
  shows "walk pt va False s = Ret (wl (mem s) 2 pt va, s)"
    "(wl (mem s) 2 pt va = 0 \<or> load64 (mem s) (wl (mem s) 2 pt va) AND PTE_V = 0) \<longleftrightarrow> \<not> bit (uptes s pt va) 0"
proof -
  show "walk pt va False s = Ret (wl (mem s) 2 pt va, s)" by (rule walk_noalloc [OF va])
  have kn: "page_aligned q \<and> q \<noteq> 0" if "kpage s q" for q
    using that us_okD(3) [OF ok] by (auto simp: kpage_def kinv_def not_le not_less)
  have "wl (mem s) 2 pt va = 0 \<Longrightarrow> pte_of s pt va = 0"
    using pte_val_no_table [OF _ us_okD(4) [OF ok] kn] .
  then show "(wl (mem s) 2 pt va = 0 \<or> load64 (mem s) (wl (mem s) 2 pt va) AND PTE_V = 0) \<longleftrightarrow> \<not> bit (uptes s pt va) 0"
    using va pte_val_wl [of "mem s" 2 pt va]
    by (cases "wl (mem s) 2 pt va = 0") (simp_all add: uptes_def)
qed

lemma va_ok_upd:
  "(bit v 0 \<Longrightarrow> bit v 4) \<Longrightarrow> va_ok f x \<Longrightarrow> va_ok (pt_upd f va v) x"
  by (auto simp: va_ok_def pt_upd_def)

section \<open>Eviction\<close>

lemma as_remove:
  assumes ok: "as_ok s H xs" and i: "i < p_nresident (myproc s)"
    and s': "s' = myproc_upd (remove_resident i) s"
  shows "as_step s H xs s' H xs" "aspt s' = aspt s"
    "map rp_va (active (myproc s')) =
      take i (map rp_va (active (myproc s))) @ drop (Suc i) (map rp_va (active (myproc s)))"
    "p_nresident (myproc s') = p_nresident (myproc s) - 1"
proof -
  note d = as_okD [OF ok]
  have my: "myproc s' = remove_resident i (myproc s)" using d(1) by (simp add: s')
  have m: "mem s' = mem s" "freelist s' = freelist s" "kend s' = kend s" by (simp_all add: s')
  have len: "p_nresident (myproc s) \<le> length (p_resident (myproc s))" using d(3) by (simp add: rs_inv_def)
  note c = us_ok_cong [OF m] and a = active_remove [OF i len]
  show u: "aspt s' = aspt s" by (simp add: my c(2))
  show va: "map rp_va (active (myproc s')) =
      take i (map rp_va (active (myproc s))) @ drop (Suc i) (map rp_va (active (myproc s)))"
    by (simp add: my a(1) take_map drop_map)
  show "p_nresident (myproc s') = p_nresident (myproc s) - 1" by (simp add: my a(2))
  have "set (map rp_va (active (myproc s'))) \<subseteq> set (map rp_va (active (myproc s)))"
    unfolding va set_append by (intro Un_least set_take_subset set_drop_subset)
  then have "as_ok s' H xs"
    using d rs_inv_remove [OF d(3) i] unfolding as_ok_def u unfolding my c(1) remove_resident_fields
    by (auto simp: s')
  then show "as_step s H xs s' H xs"
    unfolding as_step_def as_move_def my remove_resident_fields c(3) m
    using others_kept_upd [of s] by (simp add: s')
qed

lemma as_unmap:
  assumes ok: "as_ok s H xs" and va: "va_ok (aspt s) va" and m: "bit (aspt s va) 0"
    and w: "w = wl (mem s) 2 (p_pagetable (myproc s)) va"
    and k: "kfree (PTE2PA (load64 (mem s) w)) s = Ret s1"
  shows "\<exists>xs'. as_step s H xs (s1\<lparr>mem := store64 (mem s1) w 0\<rparr>) H xs'"
    "aspt (s1\<lparr>mem := store64 (mem s1) w 0\<rparr>) = pt_upd (aspt s) va 0"
proof -
  let ?pt = "p_pagetable (myproc s)" and ?s = "s1\<lparr>mem := store64 (mem s1) w 0\<rparr>"
  have lt: "va < MAXVA" and u: "user_at (aspt s) va" using va m by (simp_all add: va_ok_def user_at_def)
  note us = as_okD(2) [OF ok]
  have nz: "w \<noteq> 0" "load64 (mem s) w = pte_of s ?pt va"
    using as_mapped_word(2) [OF us lt] m pte_val_wl [of "mem s" 2 ?pt va] by (auto simp: w)
  obtain s2 where s2: "kfree (PTE2PA (pte_of s ?pt va)) s = Ret s2"
    "us_step s ?pt H xs (s2\<lparr>mem := store64 (mem s2) w 0\<rparr>) H (PTE2PA (pte_of s ?pt va) # xs)"
    "uptes (s2\<lparr>mem := store64 (mem s2) w 0\<rparr>) ?pt = pt_upd (aspt s) va 0"
    using us_unmap [OF us lt u refl] nz(1) unfolding w by blast
  have eq: "s2 = s1" using k s2(1) nz(2) by simp
  have st: "us_step s ?pt H xs ?s H (PTE2PA (pte_of s ?pt va) # xs)" using s2(2) eq by simp
  have "mem_only s ?s" using st unfolding us_step_def by blast
  then have my: "myproc ?s = myproc s" by (rule mem_only_mach)
  show u': "aspt ?s = pt_upd (aspt s) va 0" unfolding my using s2(3) eq by simp
  have "as_step s H xs ?s H (PTE2PA (pte_of s ?pt va) # xs)"
    by (rule as_us [OF ok st]) (use u' my va_ok_upd [of 0] in simp)
  then show "\<exists>xs'. as_step s H xs ?s H xs'" by blast
qed

text \<open>Eviction of entry \<open>i\<close>: the process loses this page and no other.\<close>

definition evicted :: "'a mach_scheme \<Rightarrow> nat \<Rightarrow> 'a mach_scheme \<Rightarrow> bool" where
  "evicted s i s' \<longleftrightarrow> i < p_nresident (myproc s) \<and>
     map rp_va (active (myproc s')) =
       take i (map rp_va (active (myproc s))) @ drop (Suc i) (map rp_va (active (myproc s))) \<and>
     p_nresident (myproc s') = p_nresident (myproc s) - 1 \<and>
     aspt s' \<in> {aspt s, pt_upd (aspt s) (rp_va (res s i)) 0} \<and> \<not> bit (aspt s' (rp_va (res s i))) 0"

lemma quiet_res:
  assumes q: "quiet s s'" and i: "i < p_nresident (myproc s)" and rs: "rs_inv (myproc s)"
  shows "rp_va (res s' i) = rp_va (res s i)"
proof -
  have rv: "rview (myproc s') = rview (myproc s)" using q by (simp add: quiet_def)
  have n: "p_nresident (myproc s') = p_nresident (myproc s)" by (rule rview_active(5) [OF rv])
  have "map rp_va (active (myproc s')) ! i = map rp_va (active (myproc s)) ! i"
    using rview_active(1) [OF rv] by simp
  then show ?thesis
    using i n rs_inv_length [OF rs] rs_inv_length [OF rview_rs_inv [OF rv rs]] by (simp add: nth_active)
qed

lemma evict_page_as:
  assumes ok: "as_ok s H xs" and e: "evict_page idx s = Ret (r, s')"
  shows "\<exists>xs'. as_step s H xs s' H xs'" and "r < 0 \<Longrightarrow> quiet s s'"
    and "\<not> r < 0 \<Longrightarrow> evicted s (nat idx) s'"
proof -
  let ?pt = "p_pagetable (myproc s)"
  note d = as_okD [OF ok]
  have "(\<exists>xs'. as_step s H xs s' H xs') \<and> (r < 0 \<longrightarrow> quiet s s') \<and> (\<not> r < 0 \<longrightarrow> evicted s (nat idx) s')"
  proof (cases "idx < 0 \<or> idx \<ge> int (p_nresident (myproc s))")
    case True
    then show ?thesis using e as_quiet(1) [OF ok quiet_refl] by (auto simp: evict_page_def)
  next
    case False
    then obtain i where idx: "idx = int i" using zero_le_imp_eq_int [of idx] by auto
    let ?va = "rp_va (res s i)"
    define w where "w = wl (mem s) 2 ?pt ?va"
    have i: "i < p_nresident (myproc s)" using False idx by simp
    have vo: "va_ok (aspt s) ?va" by (rule as_ok_res [OF ok i])
    then have lt: "?va < MAXVA" by (simp add: va_ok_def)
    note wm = as_mapped_word [OF d(2) lt, folded w_def]
    show ?thesis
    proof (cases "bit (aspt s ?va) 0")
      case unm: False
      then have s': "r = 0" "s' = myproc_upd (remove_resident i) s"
        using e False wm(2) unfolding evict_page_def Let_def
        by (simp_all add: wm(1) idx)
      show ?thesis
        using as_remove [OF ok i s'(2)] s'(1) i unm unfolding evicted_def idx by auto
    next
      case map: True
      obtain r1 s1 where o1: "(if rp_dirty (res s i)
          then swap_out ?va i (kprintf ''[pid %d] EVICT  va=0x%lx state=dirty''
                 [PInt (p_pid (myproc s)), PLong ?va] s)
          else Ret (0, kprintf ''[pid %d] DISCARD va=0x%lx'' [PInt (p_pid (myproc s)), PLong ?va]
                 (kprintf ''[pid %d] EVICT  va=0x%lx state=clean'' [PInt (p_pid (myproc s)), PLong ?va] s))) =
          Ret (r1, s1)"
        and o2: "(if r1 < 0
             then Ret (- 1, kprintf ''[pid %d] KILL swap-exhausted'' [PInt (p_pid (myproc s))]
                    (kprintf ''[pid %d] SWAPFULL'' [PInt (p_pid (myproc s))] s1))
             else rbind (kfree (PTE2PA (load64 (mem s) w)) s1) (\<lambda>s.
               Ret (0, myproc_upd (remove_resident i) (s\<lparr>mem := store64 (mem s) w 0\<rparr>)))) = Ret (r, s')"
        using e False map wm(2) unfolding evict_page_def Let_def idx nat_int
        by (auto simp: wm(1))
      have "qt s snd (swap_out ?va i (kprintf ''[pid %d] EVICT  va=0x%lx state=dirty''
                 [PInt (p_pid (myproc s)), PLong ?va] s))"
        by (rule swap_out_quiet [OF _ d(1)]) simp
      then have q: "quiet s s1" using o1 by (auto simp: qt_def post_def split: if_splits)
      note a1 = as_quiet [OF ok q]
      show ?thesis
      proof (cases "r1 < 0")
        case True
        then have "r = - 1" "quiet s s'" using o2 q by auto
        then show ?thesis using as_quiet(1) [OF ok] by auto
      next
        case False
        then obtain s2 where k: "kfree (PTE2PA (load64 (mem s) w)) s1 = Ret s2"
          and r: "r = 0" and s': "s' = myproc_upd (remove_resident i) (s2\<lparr>mem := store64 (mem s2) w 0\<rparr>)"
          using o2 by auto
        let ?s = "s2\<lparr>mem := store64 (mem s2) w 0\<rparr>"
        have mem1: "mem s1 = mem s" "p_pagetable (myproc s1) = ?pt" "p_nresident (myproc s1) = p_nresident (myproc s)"
          using q rview_active [of "myproc s1" "myproc s"] by (simp_all add: quiet_def)
        note ok1 = as_stepD(2) [OF a1(1)]
        have vo1: "va_ok (aspt s1) ?va" "bit (aspt s1 ?va) 0" unfolding a1(2) by (rule vo, rule map)
        have w1: "w = wl (mem s1) 2 (p_pagetable (myproc s1)) ?va" by (simp add: w_def mem1)
        have k1: "kfree (PTE2PA (load64 (mem s1) w)) s1 = Ret s2" using k mem1 by simp
        obtain xs2 where st2: "as_step s1 H xs ?s H xs2" using as_unmap(1) [OF ok1 vo1 w1 k1] by blast
        note u2 = as_unmap(2) [OF ok1 vo1 w1 k1]
        have my2: "myproc ?s = myproc s1"
          using kfree_frame [OF k] by (metis myproc_frame(2,3))
        note ok2 = as_stepD(2) [OF st2]
        have i2: "i < p_nresident (myproc ?s)" using i mem1 my2 by simp
        note rm = as_remove [OF ok2 i2 s']
        have "as_step s H xs s' H xs2"
          by (rule as_step_trans [OF a1(1) as_step_trans [OF st2 rm(1)]])
        then have fin: "\<exists>xs'. as_step s H xs s' H xs'" by blast
        have "map rp_va (active (myproc s1)) = map rp_va (active (myproc s))"
          using q by (intro rview_active) (simp add: quiet_def)
        moreover have "aspt s' = pt_upd (aspt s) ?va 0" by (simp only: rm(2) u2 a1(2))
        ultimately have "evicted s i s'"
          using rm(3,4) i lt my2 mem1(3) by (simp add: evicted_def pt_upd_def)
        then show ?thesis using r idx fin by simp
      qed
    qed
  qed
  then show "\<exists>xs'. as_step s H xs s' H xs'" "r < 0 \<Longrightarrow> quiet s s'"
    "\<not> r < 0 \<Longrightarrow> evicted s (nat idx) s'" by auto
qed

lemma evicted_fewer: "evicted s i s' \<Longrightarrow> aspt s' x = aspt s x \<or> aspt s' x = 0"
  by (auto simp: evicted_def pt_upd_def)

section \<open>Allocation with eviction\<close>

lemma as_kalloc:
  assumes ok: "as_ok s H xs" and k: "kalloc s = (a, s')"
  shows "\<exists>xs'. as_step s H xs s' (if a = 0 then H else insert a H) xs'" "a \<noteq> 0 \<Longrightarrow> a \<notin> H"
    "aspt s' = aspt s"
proof -
  from us_kalloc [OF as_okD(2) [OF ok] k]
  have "(\<exists>xs'. as_step s H xs s' (if a = 0 then H else insert a H) xs') \<and> (a \<noteq> 0 \<longrightarrow> a \<notin> H) \<and> aspt s' = aspt s"
  proof (elim disjE exE conjE)
    assume "a = 0" "s' = s"
    then show ?thesis using as_quiet(1) [OF ok quiet_refl] by auto
  next
    fix zs
    assume a: "a \<noteq> 0" "a \<notin> H" and st: "us_step s (p_pagetable (myproc s)) H xs s' (insert a H) zs"
      and u: "uptes s' (p_pagetable (myproc s)) = aspt s"
    have "mem_only s s'" using st unfolding us_step_def by blast
    then have "myproc s' = myproc s" by (rule mem_only_mach)
    moreover have "as_step s H xs s' (insert a H) zs" by (rule as_us [OF ok st]) (simp add: u)
    ultimately show ?thesis using a u by auto
  qed
  then show "\<exists>xs'. as_step s H xs s' (if a = 0 then H else insert a H) xs'" "a \<noteq> 0 \<Longrightarrow> a \<notin> H"
    "aspt s' = aspt s" by auto
qed

lemma find_victim_quiet:
  assumes ok: "as_ok s H xs" and v: "find_victim s = Ret (v, s')"
  shows "quiet s s'"
proof (cases "p_nresident (myproc s) = 0")
  case True
  then show ?thesis using configured.victim_none [OF True] v by simp
next
  case False
  then have "evictable s"
    using as_okD [OF ok] as_ok_res [OF ok] by (simp add: evictable_def va_ok_def)
  then obtain i s1 where "find_victim s = Ret (int i, s1)" "same_pages s s1"
    using configured.victim_some by blast
  then show ?thesis using v quiet_same_pages by simp
qed

lemma kalloc_evict_as:
  assumes ok: "as_ok s H xs" and k: "kalloc_evict verb s = Ret (pa, s')"
  shows "\<exists>xs'. as_step s H xs s' (if pa = 0 then H else insert pa H) xs'"
    and "pa \<noteq> 0 \<Longrightarrow> pa \<notin> H" and "aspt s' x = aspt s x \<or> aspt s' x = 0"
proof -
  obtain a s1 where a: "kalloc s = (a, s1)" by (rule prod.exhaust)
  note ka = as_kalloc [OF ok a]
  have "(\<exists>xs'. as_step s H xs s' (if pa = 0 then H else insert pa H) xs') \<and> (pa \<noteq> 0 \<longrightarrow> pa \<notin> H) \<and>
    (\<forall>x. aspt s' x = aspt s x \<or> aspt s' x = 0)"
  proof (cases "a = 0")
    case False
    then have "pa = a" "s' = s1" using k a by (simp_all add: kalloc_evict_def)
    then show ?thesis using ka False by auto
  next
    case True
    define s2 where "s2 = (if verb then kprintf ''MEMFULL pid=%d'' [PInt (p_pid (myproc s1))] s1 else s1)"
    obtain v s3 where v: "find_victim s2 = Ret (v, s3)"
      and rest: "(if v < 0 then Ret (0, s3) else rbind (evict_page v s3) (\<lambda>(r, s).
        if r < 0 then Ret (0, s) else Ret (kalloc s))) = Ret (pa, s')"
      using k a True unfolding kalloc_evict_def Let_def by (auto simp: s2_def)
    obtain xs1 where st1: "as_step s H xs s1 H xs1" using ka(1) True by auto
    have q2: "quiet s1 s2" by (simp add: s2_def)
    note ok1 = as_stepD(2) [OF st1]
    have "quiet s1 s3" using q2 find_victim_quiet [OF as_stepD(2) [OF as_quiet(1) [OF ok1 q2]] v]
      by (rule quiet_trans)
    note st3 = as_quiet [OF ok1 this]
    have u3: "aspt s3 = aspt s" using st3(2) ka(3) by simp
    note s13 = as_step_trans [OF st1 st3(1)]
    note ok3 = as_stepD(2) [OF st3(1)]
    show ?thesis
    proof (cases "v < 0")
      case True
      then show ?thesis using rest s13 u3 by auto
    next
      case False
      then obtain r s4 where e: "evict_page v s3 = Ret (r, s4)"
        and last: "(if r < 0 then Ret (0, s4) else Ret (kalloc s4)) = Ret (pa, s')"
        using rest by auto
      note ev = evict_page_as [OF ok3 e]
      obtain xs4 where st4: "as_step s3 H xs1 s4 H xs4" using ev(1) by blast
      note ok4 = as_stepD(2) [OF st4] and s14 = as_step_trans [OF s13 st4]
      show ?thesis
      proof (cases "r < 0")
        case True
        then have "pa = 0" "s' = s4" "aspt s4 = aspt s3" using last as_quiet(2) [OF ok3 ev(2)] by auto
        then show ?thesis using s14 u3 by auto
      next
        case False
        then have k4: "kalloc s4 = (pa, s')" using last by simp
        note ka4 = as_kalloc [OF ok4 k4]
        have "\<forall>x. aspt s' x = aspt s x \<or> aspt s' x = 0"
          using evicted_fewer [OF ev(3) [OF False]] u3 ka4(3) by simp
        then show ?thesis using ka4(1,2) as_step_trans [OF s14] by blast
      qed
    qed
  qed
  then show "\<exists>xs'. as_step s H xs s' (if pa = 0 then H else insert pa H) xs'"
    "pa \<noteq> 0 \<Longrightarrow> pa \<notin> H" "aspt s' x = aspt s x \<or> aspt s' x = 0" by auto
qed

section \<open>Mapping and releasing a page\<close>

lemma as_map:
  assumes ok: "as_ok s H xs" and p: "p \<in> H" and va: "va < MAXVA" "page_aligned va"
    and free: "\<not> bit (aspt s va) 0" and perm: "bit perm 4" "unat (perm OR PTE_V) < 1024"
    and m: "mappages (p_pagetable (myproc s)) va PGSIZE p perm s = Ret (r, s')"
  shows "\<exists>xs'. as_step s H xs s' (if r = 0 then H - {p} else H) xs'"
    "aspt s' = (if r = 0 then pt_upd (aspt s) va (PA2PTE p OR perm OR PTE_V) else aspt s)"
    "myproc s' = myproc s" "2 \<le> length xs \<Longrightarrow> r = 0"
proof -
  have fr: "\<not> bit (pte_of s (p_pagetable (myproc s)) va) 0" using free va(1) by (simp add: uptes_def)
  have bits: "bit (PA2PTE p OR perm OR PTE_V) 4" using perm(1) by (simp add: bit_or_iff)
  have keep: "myproc s' = myproc s" if "us_step s (p_pagetable (myproc s)) H xs s' H' xs'" for H' xs'
  proof -
    have "mem_only s s'" using that unfolding us_step_def by blast
    then show ?thesis by (rule mem_only_mach)
  qed
  from us_map [OF as_okD(2) [OF ok] p va fr perm] m
  have "(\<exists>xs'. as_step s H xs s' (if r = 0 then H - {p} else H) xs') \<and>
    aspt s' = (if r = 0 then pt_upd (aspt s) va (PA2PTE p OR perm OR PTE_V) else aspt s) \<and>
    myproc s' = myproc s \<and> (2 \<le> length xs \<longrightarrow> r = 0)"
  proof (elim exE conjE disjE, goal_cases)
    case (1 r' s'')
    then have st: "us_step s (p_pagetable (myproc s)) H xs s' H []" "r = - 1" "length xs < 2"
      and u: "uptes s' (p_pagetable (myproc s)) = aspt s" by auto
    have "as_step s H xs s' H []" by (rule as_us [OF ok st(1)]) (simp add: u)
    then show ?case using st(2,3) u keep [OF st(1)] by auto
  next
    case (2 r' s'' zs)
    then have st: "us_step s (p_pagetable (myproc s)) H xs s' (H - {p}) zs" "r = 0"
      and u: "uptes s' (p_pagetable (myproc s)) = pt_upd (aspt s) va (PA2PTE p OR perm OR PTE_V)" by auto
    have "as_step s H xs s' (H - {p}) zs"
      by (rule as_us [OF ok st(1)]) (simp add: u va_ok_upd bits)
    then show ?case using st(2) u keep [OF st(1)] by auto
  qed
  then show "\<exists>xs'. as_step s H xs s' (if r = 0 then H - {p} else H) xs'"
    "aspt s' = (if r = 0 then pt_upd (aspt s) va (PA2PTE p OR perm OR PTE_V) else aspt s)"
    "myproc s' = myproc s" "2 \<le> length xs \<Longrightarrow> r = 0" by auto
qed

lemma as_kfree:
  assumes ok: "as_ok s H xs" and p: "p \<in> H" and k: "kfree p s = Ret s'"
  shows "\<exists>xs'. as_step s H xs s' (H - {p}) xs'" "aspt s' = aspt s"
proof -
  have st: "us_step s (p_pagetable (myproc s)) H xs s' (H - {p}) (p # xs)"
    and u: "uptes s' (p_pagetable (myproc s)) = aspt s"
    using us_kfree [OF as_okD(2) [OF ok] p] k by auto
  have "mem_only s s'" using st unfolding us_step_def by blast
  then have "myproc s' = myproc s" by (rule mem_only_mach)
  then show "aspt s' = aspt s" using u by simp
  have "as_step s H xs s' (H - {p}) (p # xs)" by (rule as_us [OF ok st]) (simp add: u)
  then show "\<exists>xs'. as_step s H xs s' (H - {p}) xs'" by blast
qed

text \<open>Writing to a page that the handler holds, by \<^verbatim>\<open>memset\<close> or by reading a file into it.\<close>

lemma as_write:
  assumes ok: "as_ok s H xs" and p: "p \<in> H" and so: "same_off {pn p} (mem s) m"
  shows "as_step s H xs (s\<lparr>mem := m\<rparr>) H xs" "aspt (s\<lparr>mem := m\<rparr>) = aspt s"
proof -
  note w = us_write [OF as_okD(2) [OF ok] p so]
  show "aspt (s\<lparr>mem := m\<rparr>) = aspt s" using w(2) by simp
  show "as_step s H xs (s\<lparr>mem := m\<rparr>) H xs" by (rule as_us [OF ok w(1)]) (simp add: w(2))
qed

lemma as_read_frame:
  assumes ok: "as_ok s H xs" and p: "p \<in> H" and r: "read_frame {pn p} s s'"
  shows "as_step s H xs s' H xs" "aspt s' = aspt s"
proof -
  have so: "same_off {pn p} (mem s) (mem s')" and f: "fs_frame s (s'\<lparr>mem := mem s\<rparr>)"
    using r by (simp_all add: read_frame_def)
  note w = as_write [OF ok p so]
  have "quiet s (s'\<lparr>mem := mem s\<rparr>)" by (rule quiet_frame [OF f])
  then have "quiet (s\<lparr>mem := mem s'\<rparr>) s'"
    unfolding quiet_def others_kept_def myproc_def by (elim conjE) simp
  note q = as_quiet [OF as_stepD(2) [OF w(1)] this]
  show "as_step s H xs s' H xs" by (rule as_step_trans [OF w(1) q(1)])
  show "aspt s' = aspt s" using q(2) w(2) by (rule trans)
qed

end
