(* ===== verification/Fault.thy ===== *)
theory Fault
  imports Evict
begin

text \<open>
  Page faults keep address spaces apart: \<^verbatim>\<open>swap_in\<close>, \<^verbatim>\<open>add_resident_page\<close> and the
  cases of \<^verbatim>\<open>vmfault\<close> keep the invariant \<open>as_ok\<close>, and a fault that is reported as handled
  leaves the page mapped.
\<close>

section \<open>Extending the resident set\<close>

lemma rs_inv_append:
  assumes rs: "rs_inv p" and n: "p_nresident p < MAX_RESIDENT_PAGES"
    and va: "va \<notin> set (map rp_va (active p))" and sq: "p_next_seq p \<noteq> - 1"
    and r: "rp_va r = va" "rp_seq r = p_next_seq p" "rp_in_memory r"
    and p': "p_resident p' = (p_resident p)[p_nresident p := r]" "p_nresident p' = p_nresident p + 1"
      "p_next_seq p' = p_next_seq p + 1"
  shows "rs_inv p'" "active p' = active p @ [r]"
proof -
  have len: "length (p_resident p) = MAX_RESIDENT_PAGES" using rs by (simp add: rs_inv_def)
  have "1 + p_next_seq p \<noteq> 0" using sq by (simp add: add.commute eq_neg_iff_add_eq_0)
  then have lt: "p_next_seq p < p_next_seq p + 1"
    using unatSuc [of "p_next_seq p"] by (simp add: word_less_nat_alt add.commute)
  show a: "active p' = active p @ [r]"
    using n len by (simp add: active_def p' take_Suc_conv_app_nth)
  have old: "distinct (map rp_va (active p))" "sorted_wrt (<) (map rp_seq (active p))"
    "\<forall>x \<in> set (active p). rp_in_memory x \<and> rp_seq x < p_next_seq p"
    using rs by (simp_all add: rs_inv_def)
  have "\<forall>x \<in> set (active p). rp_seq x < p_next_seq p + 1" using old(3) lt by (meson order.strict_trans)
  then show "rs_inv p'"
    unfolding rs_inv_def a using old va r n len lt by (auto simp: p' sorted_wrt_append)
qed

lemma as_append:
  assumes ok: "as_ok s H xs" and n: "p_nresident (myproc s) < MAX_RESIDENT_PAGES"
    and new: "va \<notin> set (map rp_va (active (myproc s)))" and vo: "va_ok (aspt s) va"
    and sq: "p_next_seq (myproc s) \<noteq> - 1"
  shows "as_move s H xs (append_resident va s) H xs" "aspt (append_resident va s) = aspt s"
proof -
  note d = as_okD [OF ok]
  let ?s = "append_resident va s" and ?p = "myproc s"
  let ?r = "\<lparr>rp_va = va, rp_seq = p_next_seq ?p, rp_dirty = False, rp_swap_offset = - 1,
    rp_in_memory = True, rp_ref_bit = True\<rparr>"
  have my: "myproc ?s = ?p\<lparr>p_resident := (p_resident ?p)[p_nresident ?p := ?r],
      p_nresident := p_nresident ?p + 1, p_next_seq := p_next_seq ?p + 1\<rparr>"
    using d(1) by (simp add: append_resident_def Let_def)
  have m: "mem ?s = mem s" "freelist ?s = freelist s" "kend ?s = kend s" "cur ?s = cur s"
    "length (procs ?s) = length (procs s)"
    by (simp_all add: append_resident_def Let_def)
  have ot: "others_kept s ?s"
    by (rule others_kept_same) (simp_all add: append_resident_def Let_def nth_proc_upd)
  note c = us_ok_cong [OF m(1-3)]
  have pt: "p_pagetable (myproc ?s) = p_pagetable ?p" by (simp add: my)
  show u: "aspt ?s = aspt s" unfolding pt by (rule c(2))
  have "rs_inv (myproc ?s)" and a: "active (myproc ?s) = active ?p @ [?r]"
    using rs_inv_append [OF d(3) n new sq, of ?r "myproc ?s"] by (simp_all add: my)
  then have "as_ok ?s H xs"
    unfolding as_ok_def u unfolding pt c(1) m a using d vo by auto
  then show "as_move s H xs ?s H xs"
    unfolding as_move_def pt c(3) using m ot by simp
qed

lemma evicted_new:
  assumes e: "evicted s i s'" and va: "va \<notin> set (map rp_va (active (myproc s)))"
  shows "va \<notin> set (map rp_va (active (myproc s')))"
proof -
  have "set (map rp_va (active (myproc s'))) \<subseteq> set (map rp_va (active (myproc s)))"
    using e set_take_subset [of i "map rp_va (active (myproc s))"]
      set_drop_subset [of "Suc i" "map rp_va (active (myproc s))"]
    unfolding evicted_def by auto
  then show ?thesis using va by blast
qed

lemma evicted_keeps:
  assumes e: "evicted s i s'" and ok: "as_ok s H xs"
    and va: "va \<notin> set (map rp_va (active (myproc s)))" "page_aligned va"
  shows "aspt s' va = aspt s va"
proof -
  have i: "i < p_nresident (myproc s)" using e by (simp add: evicted_def)
  have "rp_va (res s i) \<in> set (map rp_va (active (myproc s)))"
    unfolding set_map by (rule imageI) (rule rs_inv_mem [OF as_okD(3) [OF ok] i])
  then have "rp_va (res s i) \<noteq> va" using va(1) by blast
  moreover have "page_aligned (rp_va (res s i))" using as_ok_res [OF ok i] by (simp add: va_ok_def)
  ultimately have "pn va \<noteq> pn (rp_va (res s i))" using page_aligned_pn_inj va(2) by metis
  then show ?thesis using e by (auto simp: evicted_def pt_upd_def)
qed

lemma add_resident_page_as:
  assumes ok: "as_ok s H xs" and vo: "va_ok (aspt s) va" and sq: "p_next_seq (myproc s) \<noteq> - 1"
    and a: "add_resident_page va s = Ret s'"
  shows "\<exists>xs'. as_move s H xs s' H xs'" "aspt s' va = aspt s va"
proof -
  let ?p = "myproc s"
  have len: "length (active ?p) = p_nresident ?p" using rs_inv_length [OF as_okD(3) [OF ok]] .
  have ex: "(\<exists>i \<in> {0..<p_nresident ?p}. rp_va (p_resident ?p ! i) = va) \<longleftrightarrow> va \<in> set (map rp_va (active ?p))"
    unfolding in_set_conv_nth by (simp add: len nth_active Bex_def cong: conj_cong)
  have same: "(\<exists>xs'. as_move s H xs s' H xs') \<and> aspt s' va = aspt s va" if "quiet s s'"
    using as_stepD(1) [OF as_quiet(1) [OF ok that]] as_quiet(2) [OF ok that] by auto
  have "(\<exists>xs'. as_move s H xs s' H xs') \<and> aspt s' va = aspt s va"
  proof (cases "va \<in> set (map rp_va (active ?p))")
    case True
    then have "s' = s" using a ex by (simp add: add_resident_page_def)
    then show ?thesis using same by simp
  next
    case new: False
    show ?thesis
    proof (cases "p_nresident ?p < MAX_RESIDENT_PAGES")
      case True
      then have "s' = append_resident va s" using a ex new by (simp add: add_resident_page_def)
      then show ?thesis using as_append [OF ok True new vo sq] by auto
    next
      case full: False
      let ?s1 = "kprintf ''[pid %d] MEMFULL'' [PInt (p_pid ?p)] s"
      obtain v s2 where v: "find_victim ?s1 = Ret (v, s2)"
        and rest: "(if v < 0
          then Ret (snd (kkill (p_pid ?p)
                 (kprintf ''[pid %d] add_resident_page: no victim found, killing process''
                    [PInt (p_pid ?p)] s2)))
          else
            rbind (evict_page v s2) (\<lambda>(r, s).
              if r < 0
              then Ret (snd (kkill (p_pid ?p)
                     (kprintf ''[pid %d] add_resident_page: failed to evict page, killing process''
                        [PInt (p_pid ?p)] s)))
              else Ret (append_resident va s))) = Ret s'"
        using a ex new full unfolding add_resident_page_def Let_def by auto
      have q1: "quiet s ?s1" by simp
      have q2: "quiet s s2"
        using q1 find_victim_quiet [OF as_stepD(2) [OF as_quiet(1) [OF ok q1]] v] by (rule quiet_trans)
      have kill: "quiet s (snd (kkill pid (kprintf f ar x)))" if "quiet s x" for pid f ar x
        by (rule quiet_trans [OF _ quiet_kkill]) (simp add: that)
      note st2 = as_quiet [OF ok q2]
      note ok2 = as_stepD(2) [OF st2(1)]
      have rv2: "rview (myproc s2) = rview ?p" using q2 by (simp add: quiet_def)
      note rv = rview_active [OF rv2]
      show ?thesis
      proof (cases "v < 0")
        case True
        then have "quiet s s'" using rest kill [OF q2] by auto
        then show ?thesis by (rule same)
      next
        case False
        then obtain r s3 where e: "evict_page v s2 = Ret (r, s3)"
          and fin: "(if r < 0
              then Ret (snd (kkill (p_pid ?p)
                     (kprintf ''[pid %d] add_resident_page: failed to evict page, killing process''
                        [PInt (p_pid ?p)] s3)))
              else Ret (append_resident va s3)) = Ret s'"
          using rest by auto
        note ev = evict_page_as [OF ok2 e]
        show ?thesis
        proof (cases "r < 0")
          case True
          then have "quiet s s'" using fin kill [OF quiet_trans [OF q2 ev(2)]] by auto
          then show ?thesis by (rule same)
        next
          case False
          note ev3 = ev(3) [OF False]
          obtain xs3 where st3: "as_step s2 H xs s3 H xs3" using ev(1) by blast
          note ok3 = as_stepD(2) [OF st3]
          have new2: "va \<notin> set (map rp_va (active (myproc s2)))" unfolding rv(1) by (rule new)
          have al: "page_aligned va" using vo by (simp add: va_ok_def)
          have u3: "aspt s3 va = aspt s va"
            using evicted_keeps [OF ev3 ok2 new2 al] st2(2) by simp
          have n3: "p_nresident (myproc s3) < MAX_RESIDENT_PAGES"
            using ev3 as_okD(3) [OF ok2] by (auto simp: evicted_def rs_inv_def)
          have vo3: "va_ok (aspt s3) va" using vo u3 by (simp add: va_ok_def)
          have sq3: "p_next_seq (myproc s3) \<noteq> - 1" using sq as_stepD(4) [OF st3] rv(6) by simp
          note ap = as_append [OF ok3 n3 evicted_new [OF ev3 new2] vo3 sq3]
          have s': "s' = append_resident va s3" using fin False by simp
          have "as_move s H xs s' H xs3"
            unfolding s' by (rule as_move_trans [OF as_stepD(1) [OF as_step_trans [OF st2(1) st3]] ap(1)])
          then show ?thesis using ap(2) u3 s' by auto
        qed
      qed
    qed
  qed
  then show "\<exists>xs'. as_move s H xs s' H xs'" "aspt s' va = aspt s va" by auto
qed

lemma quiet_mark_page_dirty:
  assumes "cur s < length (procs s)"
  shows "quiet s (mark_page_dirty va s)"
proof -
  have "rview (res_upd i (\<lambda>r. r\<lparr>rp_dirty := True, rp_ref_bit := True\<rparr>) p) = rview p" for i p
    by (rule rview_res_upd) simp_all
  then have "quiet s (myproc_upd (res_upd i (\<lambda>r. r\<lparr>rp_dirty := True, rp_ref_bit := True\<rparr>)) s)" for i
    by (intro quiet_my_upd [OF quiet_refl assms])
  then show ?thesis by (simp add: mark_page_dirty_def Let_def split: option.split)
qed

section \<open>Reading and mapping a page\<close>

lemma fs_quiet:
  "begin_op s = Ret s' \<Longrightarrow> quiet s s'" "end_op s = Ret s' \<Longrightarrow> quiet s s'"
  "ilock ipo s = Ret s' \<Longrightarrow> quiet s s'" "iunlock ipo s = Ret s' \<Longrightarrow> quiet s s'"
  using quiet_ops(1-4) [OF quiet_refl] unfolding qt_def post_def id_apply by blast+

text \<open>A page is read from a file into a page that the handler holds.\<close>

lemma read_page_as:
  assumes ok: "as_ok s H xs" and p: "pa \<in> H" and n: "unat n \<le> 4096"
    and r: "ilock ipo s = Ret s1" "readi to_mem ip pa off n () s1 = Ret (r, u, s2)"
      "iunlock ipo s2 = Ret s3"
  shows "as_step s H xs s3 H xs" "aspt s3 = aspt s"
proof -
  have al: "page_aligned pa" using us_okD(6) [OF as_okD(2) [OF ok] p] by (simp add: kpage_def)
  note q1 = as_quiet [OF ok fs_quiet(3) [OF r(1)]]
  note q2 = as_read_frame [OF as_stepD(2) [OF q1(1)] p readi_mem_frame [OF al n r(2)]]
  note q3 = as_quiet [OF as_stepD(2) [OF q2(1)] fs_quiet(4) [OF r(3)]]
  show "as_step s H xs s3 H xs" by (rule as_step_trans [OF q1(1) as_step_trans [OF q2(1) q3(1)]])
  show "aspt s3 = aspt s" using q1(2) q2(2) q3(2) by simp
qed

lemma as_perm:
  "bit (PTE_U OR PTE_R OR PTE_W) 4" "unat ((PTE_U OR PTE_R OR PTE_W) OR PTE_V) < 1024"
  "bit (seg_perm seg) 4" "unat (seg_perm seg OR PTE_V) < 1024"
  by (auto simp: riscv_consts seg_perm_def bit_or_iff)

lemma map_or_free_as:
  assumes ok: "as_ok s (insert pa H) xs" and pa: "pa \<notin> H" and va: "va < MAXVA" "page_aligned va"
    and free: "\<not> bit (aspt s va) 0" and perm: "bit perm 4" "unat (perm OR PTE_V) < 1024"
    and m: "mappages (p_pagetable (myproc s)) va PGSIZE pa perm s = Ret (r, s1)"
    and t: "(if r \<noteq> 0 then rbind (kfree pa s1) (\<lambda>s. Ret (b, s)) else k s1) = Ret (x, s')"
  shows "x = b \<and> (\<exists>xs'. as_step s (insert pa H) xs s' H xs') \<or>
    k s1 = Ret (x, s') \<and> (\<exists>xs'. as_step s (insert pa H) xs s1 H xs') \<and>
    user_at (aspt s1) va \<and> PTE2PA (aspt s1 va) = pa"
proof -
  have H: "insert pa H - {pa} = H" using pa by auto
  note mp = as_map [OF ok insertI1 va free perm m]
  show ?thesis
  proof (cases "r = 0")
    case True
    obtain xs1 where "as_step s (insert pa H) xs s1 H xs1" using mp(1) True H by auto
    moreover have kp: "page_aligned pa" using us_okD(6) [OF as_okD(2) [OF ok], of pa] by (simp add: kpage_def)
    have "aspt s1 va = PA2PTE pa OR perm OR PTE_V" using mp(2) True va(1) by (simp add: pt_upd_def)
    then have "user_at (aspt s1) va" "PTE2PA (aspt s1 va) = pa"
      using PTE2PA_PA2PTE [OF kp perm(2)] perm(1)
      by (simp_all add: user_at_def bit_or_iff or.assoc PTE_V_def)
    ultimately show ?thesis using t True by auto
  next
    case False
    then obtain xs1 where st: "as_step s (insert pa H) xs s1 (insert pa H) xs1" using mp(1) by auto
    have k: "kfree pa s1 = Ret s'" and x: "x = b" using t False by auto
    obtain xs2 where "as_step s1 (insert pa H) xs1 s' H xs2"
      using as_kfree(1) [OF as_stepD(2) [OF st] insertI1 k] H by auto
    then show ?thesis using as_step_trans [OF st] x by blast
  qed
qed

lemma swap_in_as:
  assumes ok: "as_ok s H xs" and va: "va < MAXVA" "page_aligned va" and free: "\<not> bit (aspt s va) 0"
    and s: "swap_in va slot s = Ret (r, s')"
  shows "\<exists>xs'. as_step s H xs s' H xs'" "r \<noteq> - 1 \<Longrightarrow> user_at (aspt s') va"
proof -
  have "(\<exists>xs'. as_step s H xs s' H xs') \<and> (r \<noteq> - 1 \<longrightarrow> user_at (aspt s') va)"
  proof (cases "p_swapfile (myproc s) = None \<or> slot < 0 \<or> slot \<ge> int MAX_SWAP_PAGES")
    case True
    then have "s' = s" "r = - 1"
      using s by (cases "p_swapfile (myproc s)"; auto simp: swap_in_def)+
    then show ?thesis using as_quiet(1) [OF ok quiet_refl] by auto
  next
    case False
    then obtain ip where ip: "p_swapfile (myproc s) = Some ip" "\<not> (slot < 0 \<or> slot \<ge> int MAX_SWAP_PAGES)"
      by auto
    obtain pa s1 where k: "kalloc_evict False s = Ret (pa, s1)"
      using s ip unfolding swap_in_def by auto
    note ka = kalloc_evict_as [OF ok k]
    show ?thesis
    proof (cases "pa = 0")
      case True
      then show ?thesis using s ip k ka(1) unfolding swap_in_def by auto
    next
      case False
      let ?H = "insert pa H"
      obtain s2 s3 s4 s5 s6 n u where b: "begin_op s1 = Ret s2" "ilock (Some ip) s2 = Ret s3"
        "readi to_mem ip pa (of_int (slot * 4096)) 4096 () s3 = Ret (n, u, s4)"
        "iunlock (Some ip) s4 = Ret s5" "end_op s5 = Ret s6"
        and rest: "(if n \<noteq> 4096 then rbind (kfree pa s6) (\<lambda>s. Ret (- 1, s))
          else rbind (mappages (p_pagetable (myproc s6)) (PGROUNDDOWN va) PGSIZE pa
                             (PTE_U OR PTE_R OR PTE_W) s6) (\<lambda>(r, s).
                      if r \<noteq> 0 then rbind (kfree pa s) (\<lambda>s. Ret (- 1, s))
                      else Ret (0, myproc_upd (\<lambda>p. p\<lparr>p_nswapped := p_nswapped p - 1,
                                  p_swap_map := (p_swap_map p)
                                    [nat slot := \<lparr>sw_va = - 1, sw_slot = - 1\<rparr>]\<rparr>) (free_swap_slot slot s)))) = Ret (r, s')"
        using s ip k False unfolding swap_in_def Let_def by (auto split: prod.splits)
      obtain xs1 where st1: "as_step s H xs s1 ?H xs1" and new: "pa \<notin> H" using ka(1,2) False by auto
      note q2 = as_quiet [OF as_stepD(2) [OF st1] fs_quiet(1) [OF b(1)]]
      note q5 = read_page_as [OF as_stepD(2) [OF q2(1)] insertI1 _ b(2-4), simplified]
      note q6 = as_quiet [OF as_stepD(2) [OF q5(1)] fs_quiet(2) [OF b(5)]]
      have st6: "as_step s H xs s6 ?H xs1"
        by (rule as_step_trans [OF st1 as_step_trans [OF q2(1) as_step_trans [OF q5(1) q6(1)]]])
      have free6: "\<not> bit (aspt s6 va) 0" using ka(3) [of va] free q2(2) q5(2) q6(2) by auto
      note ok6 = as_stepD(2) [OF st6]
      show ?thesis
      proof (cases "n = 4096")
        case False
        then have kf: "kfree pa s6 = Ret s'" "r = - 1" using rest by auto
        obtain xs2 where "as_step s6 ?H xs1 s' H xs2" using as_kfree(1) [OF ok6 insertI1 kf(1)] new by auto
        then show ?thesis using as_step_trans [OF st6] kf(2) by blast
      next
        case True
        let ?k = "\<lambda>s. Ret (0, myproc_upd (\<lambda>p. p\<lparr>p_nswapped := p_nswapped p - 1, p_swap_map := (p_swap_map p)
          [nat slot := \<lparr>sw_va = - 1, sw_slot = - 1\<rparr>]\<rparr>) (free_swap_slot slot s))"
        obtain r' s7 where m: "mappages (p_pagetable (myproc s6)) va PGSIZE pa (PTE_U OR PTE_R OR PTE_W) s6 = Ret (r', s7)"
          and t: "(if r' \<noteq> 0 then rbind (kfree pa s7) (\<lambda>s. Ret (- 1, s)) else ?k s7) = Ret (r, s')"
          using rest True va(2) by auto
        from map_or_free_as [OF ok6 new va free6 as_perm(1,2) m, where k = ?k, OF t] show ?thesis
        proof (elim disjE conjE exE)
          fix xs7 assume "r = - 1" "as_step s6 ?H xs1 s' H xs7"
          then show ?thesis using as_step_trans [OF st6] by blast
        next
          fix xs7
          assume f: "?k s7 = Ret (r, s')" and st7: "as_step s6 ?H xs1 s7 H xs7" and u7: "user_at (aspt s7) va"
          note ok7 = as_stepD(2) [OF st7]
          have "quiet s7 (free_swap_slot slot s7)" by (rule quiet_free_swap_slot [OF quiet_refl as_okD(1) [OF ok7]])
          then have "quiet s7 s'"
            using f by (auto intro!: quiet_my_upd [OF _ as_okD(1) [OF ok7]] simp: rview_def)
          note q = as_quiet [OF ok7 this]
          show ?thesis using as_step_trans [OF st6 as_step_trans [OF st7 q(1)]] u7 q(2) by auto
        qed
      qed
    qed
  qed
  then show "\<exists>xs'. as_step s H xs s' H xs'" "r \<noteq> - 1 \<Longrightarrow> user_at (aspt s') va" by auto
qed

section \<open>The fault handler\<close>

text \<open>The page is in the swap file, by the table of swapped pages.\<close>

definition swapped_out :: "proc \<Rightarrow> u64 \<Rightarrow> bool" where
  "swapped_out p va \<longleftrightarrow>
     (case find (\<lambda>e. sw_va e = va) (p_swap_map p) of Some e \<Rightarrow> sw_slot e \<ge> 0 | None \<Rightarrow> False)"

text \<open>What a fault at page \<open>va\<close> leaves: the address spaces are intact, and if the handler
  reports success then \<open>va\<close> is mapped to a user page.  The result is \<open>va\<close> itself if the page
  came back from the swap file (\<open>sw\<close>) and the page's physical address otherwise.\<close>

definition fault_ok ::
  "'a mach_scheme \<Rightarrow> addr list \<Rightarrow> u64 \<Rightarrow> bool \<Rightarrow> addr \<Rightarrow> 'a mach_scheme \<Rightarrow> bool" where
  "fault_ok s xs va sw x s' \<longleftrightarrow> (\<exists>xs'. as_move s {} xs s' {} xs') \<and>
     (x \<noteq> 0 \<longrightarrow> user_at (aspt s') va \<and> x = (if sw then va else PTE2PA (aspt s' va)))"

lemma fault_ok_step:
  "as_step s {} xs s1 {} xs1 \<Longrightarrow> fault_ok s1 xs1 va sw x s' \<Longrightarrow> fault_ok s xs va sw x s'"
  unfolding fault_ok_def using as_move_trans [OF as_stepD(1)] by blast

lemma fault_ok_fail: "as_step s {} xs s' {} xs' \<Longrightarrow> fault_ok s xs va sw 0 s'"
  unfolding fault_ok_def using as_stepD(1) by blast

text \<open>The page is mapped and entered into the resident set.\<close>

lemma map_resident_as:
  assumes st: "as_step s {} xs s0 {pa} xs0" and va: "va < MAXVA" "page_aligned va"
    and free: "\<not> bit (aspt s0 va) 0" and perm: "bit perm 4" "unat (perm OR PTE_V) < 1024"
    and sq: "p_next_seq (myproc s) \<noteq> - 1"
    and r: "rbind (mappages (p_pagetable (myproc s)) va PGSIZE pa perm s0) (\<lambda>(r, s).
        if r \<noteq> 0 then rbind (kfree pa s) (\<lambda>s. Ret (0, s))
        else rbind (add_resident_page va s) (\<lambda>s. Ret (pa, if c then mark_page_dirty va s else s))) =
      Ret (x, s')"
  shows "fault_ok s xs va False x s'"
proof -
  let ?k = "\<lambda>s. rbind (add_resident_page va s) (\<lambda>s. Ret (pa, if c then mark_page_dirty va s else s))"
  note ok0 = as_stepD(2) [OF st]
  obtain r1 s1 where m: "mappages (p_pagetable (myproc s0)) va PGSIZE pa perm s0 = Ret (r1, s1)"
    and t: "(if r1 \<noteq> 0 then rbind (kfree pa s1) (\<lambda>s. Ret (0, s)) else ?k s1) = Ret (x, s')"
    using r as_stepD(3) [OF st] by auto
  have "pa \<notin> {}" by simp
  from map_or_free_as [OF ok0 this va free perm m, where k = ?k, OF t] show ?thesis
  proof (elim disjE conjE exE)
    fix xs1 assume "x = 0" "as_step s0 {pa} xs0 s' {} xs1"
    then show ?thesis using fault_ok_fail [OF as_step_trans [OF st]] by simp
  next
    fix xs1
    assume k: "?k s1 = Ret (x, s')" and st1: "as_step s0 {pa} xs0 s1 {} xs1"
      and u: "user_at (aspt s1) va" "PTE2PA (aspt s1 va) = pa"
    note ok1 = as_stepD(2) [OF st1] and s01 = as_step_trans [OF st st1]
    obtain s2 where a: "add_resident_page va s1 = Ret s2" and x: "x = pa"
      and s': "s' = (if c then mark_page_dirty va s2 else s2)" using k by auto
    have vo: "va_ok (aspt s1) va" using u(1) va by (simp add: va_ok_def user_at_def)
    have sq1: "p_next_seq (myproc s1) \<noteq> - 1" using as_stepD(4) [OF s01] sq by simp
    note ar = add_resident_page_as [OF ok1 vo sq1 a]
    obtain xs2 where mv: "as_move s1 {} xs1 s2 {} xs2" using ar(1) by blast
    have ok2: "as_ok s2 {} xs2" using mv by (simp add: as_move_def)
    have "quiet s2 s'" using quiet_mark_page_dirty [OF as_okD(1) [OF ok2]] s' by simp
    note q = as_quiet [OF ok2 this]
    have "as_move s {} xs s' {} xs2"
      by (rule as_move_trans [OF as_stepD(1) [OF s01] as_move_trans [OF mv as_stepD(1) [OF q(1)]]])
    then show ?thesis unfolding fault_ok_def using u ar(2) q(2) x by (auto simp: user_at_def)
  qed
qed

lemma as_memset:
  assumes st: "as_step s H xs s1 (insert pa H) xs1"
  shows "as_step s H xs (s1\<lparr>mem := memset (mem s1) pa c 4096\<rparr>) (insert pa H) xs1"
    "aspt (s1\<lparr>mem := memset (mem s1) pa c 4096\<rparr>) = aspt s1"
proof -
  note ok = as_stepD(2) [OF st]
  have "page_aligned pa" using us_okD(6) [OF as_okD(2) [OF ok], of pa] by (simp add: kpage_def)
  note w = as_write [OF ok insertI1 same_off_memset [OF this]]
  show "as_step s H xs (s1\<lparr>mem := memset (mem s1) pa c 4096\<rparr>) (insert pa H) xs1"
    by (rule as_step_trans [OF st w(1)])
  show "aspt (s1\<lparr>mem := memset (mem s1) pa c 4096\<rparr>) = aspt s1" by (rule w(2))
qed

lemma load_seg_page_as:
  assumes ok: "as_ok s {pa} xs" and l: "load_seg_page seg va write pa s = Ret (b, s')"
  shows "\<exists>xs'. as_step s {pa} xs s' (if b then {pa} else {}) xs'" "aspt s' = aspt s"
proof -
  define off n ipo where "off = seg_offset seg + (va - seg_vaddr seg)"
    and "n = (if seg_filesz seg - (va - seg_vaddr seg) < PGSIZE
      then seg_filesz seg - (va - seg_vaddr seg) else PGSIZE)"
    and "ipo = p_execfile (myproc s)"
  have n: "unat (ucast n :: u32) \<le> 4096"
  proof -
    have "unat n \<le> 4096" by (auto simp: n_def PGSIZE_def word_less_nat_alt)
    then show ?thesis by (simp add: unsigned_ucast_eq take_bit_nat_eq_self)
  qed
  have "(\<exists>xs'. as_step s {pa} xs s' (if b then {pa} else {}) xs') \<and> aspt s' = aspt s"
  proof (cases "va - seg_vaddr seg < seg_filesz seg")
    case False
    then have "b" "quiet s s'" using l unfolding load_seg_page_def Let_def by auto
    then show ?thesis using as_quiet [OF ok, of s'] by auto
  next
    case True
    obtain s1 r s2 where i: "ilock ipo s = Ret s1"
      "readi to_mem (the ipo) pa (ucast off) (ucast n) () s1 = Ret (r, (), s2)"
      and rest: "(if r \<noteq> uint n then rbind (iunlock ipo s2) (\<lambda>s. rbind (kfree pa s) (\<lambda>s. Ret (False, s)))
        else rbind (iunlock ipo s2) (\<lambda>s1. Ret (True, kprintf ''[pid %d] LOADEXEC va=0x%lx''
          [PInt (p_pid (myproc s)), PLong va] (kprintf ''[pid %d] PAGEFAULT va=0x%lx access=%s cause=exec''
                    [PInt (p_pid (myproc s)), PLong va, access_str write] s1)))) = Ret (b, s')"
      using l [unfolded load_seg_page_def Let_def, folded off_def n_def ipo_def] True by auto
    obtain s3 where u: "iunlock ipo s2 = Ret s3" using rest by (auto split: if_splits)
    note rd = read_page_as [OF ok insertI1 n i u]
    note ok3 = as_stepD(2) [OF rd(1)]
    show ?thesis
    proof (cases "r = uint n")
      case True
      then have "b" "quiet s3 s'" using rest u by auto
      then show ?thesis using as_quiet [OF ok3, of s'] as_step_trans [OF rd(1)] rd(2) by auto
    next
      case False
      then have k: "\<not> b" "kfree pa s3 = Ret s'" using rest u by auto
      then show ?thesis using as_kfree [OF ok3 insertI1 k(2)] as_step_trans [OF rd(1)] rd(2) by auto
    qed
  qed
  then show "\<exists>xs'. as_step s {pa} xs s' (if b then {pa} else {}) xs'" "aspt s' = aspt s" by auto
qed

lemma vmfault_seg_as:
  assumes ok: "as_ok s {} xs" and va: "va < MAXVA" "page_aligned va" and free: "\<not> bit (aspt s va) 0"
    and sq: "p_next_seq (myproc s) \<noteq> - 1"
    and v: "vmfault_seg (p_pagetable (myproc s)) seg va write s = Ret (x, s')"
  shows "fault_ok s xs va False x s'"
proof -
  obtain pa s1 where k: "kalloc_evict True s = Ret (pa, s1)" using v by (auto simp: vmfault_seg_def)
  note ka = kalloc_evict_as [OF ok k]
  show ?thesis
  proof (cases "pa = 0")
    case True
    then show ?thesis using v k ka(1) fault_ok_fail by (auto simp: vmfault_seg_def)
  next
    case False
    obtain xs1 where st1: "as_step s {} xs s1 {pa} xs1" using ka(1) False by auto
    note ms = as_memset [OF st1, of 0]
    obtain b s2 where l: "load_seg_page seg va write pa (s1\<lparr>mem := memset (mem s1) pa 0 4096\<rparr>) = Ret (b, s2)"
      using v k False unfolding vmfault_seg_def by auto
    note ld = load_seg_page_as [OF as_stepD(2) [OF ms(1)] l]
    show ?thesis
    proof (cases b)
      case True
      obtain xs2 where st2: "as_step s {} xs s2 {pa} xs2" using ld(1) True as_step_trans [OF ms(1)] by auto
      have free2: "\<not> bit (aspt s2 va) 0" using ka(3) [of va] free ms(2) ld(2) by auto
      show ?thesis
        by (rule map_resident_as [OF st2 va free2 as_perm(3,4) sq, where c = "seg_perm seg AND PTE_W \<noteq> 0"])
          (use v k False l True in \<open>simp add: vmfault_seg_def Let_def\<close>)
    next
      case f: False
      then have "x = 0" "s' = s2" using v k False l unfolding vmfault_seg_def by auto
      moreover obtain xs2 where "as_step s {} xs s2 {} xs2"
        using ld(1) f as_step_trans [OF ms(1)] by auto
      ultimately show ?thesis using fault_ok_fail by simp
    qed
  qed
qed

lemma vmfault_zero_as:
  assumes ok: "as_ok s {} xs" and va: "va < MAXVA" "page_aligned va" and free: "\<not> bit (aspt s va) 0"
    and sq: "p_next_seq (myproc s) \<noteq> - 1"
    and v: "vmfault_zero (p_pagetable (myproc s)) fmt va write s = Ret (x, s')"
  shows "fault_ok s xs va False x s'"
proof -
  obtain pa s1 where k: "kalloc_evict True s = Ret (pa, s1)" using v by (auto simp: vmfault_zero_def)
  note ka = kalloc_evict_as [OF ok k]
  show ?thesis
  proof (cases "pa = 0")
    case True
    then show ?thesis using v k ka(1) fault_ok_fail by (auto simp: vmfault_zero_def)
  next
    case False
    obtain xs1 where st1: "as_step s {} xs s1 {pa} xs1" using ka(1) False by auto
    note ms = as_memset [OF st1, of 0]
    let ?s1 = "s1\<lparr>mem := memset (mem s1) pa 0 4096\<rparr>"
    let ?s2 = "kprintf ''[pid %d] ALLOC va=0x%lx'' [PInt (p_pid (myproc s1)), PLong va]
      (kprintf fmt [PInt (p_pid (myproc s1)), PLong va, access_str write] ?s1)"
    have "quiet ?s1 ?s2" by simp
    note q = as_quiet [OF as_stepD(2) [OF ms(1)] this]
    have free2: "\<not> bit (aspt ?s2 va) 0" using ka(3) [of va] free ms(2) q(2) by auto
    show ?thesis
      by (rule map_resident_as [OF as_step_trans [OF ms(1) q(1)] va free2 as_perm(1,2) sq, where c = True, unfolded if_True])
        (use v k False in \<open>simp add: vmfault_zero_def Let_def\<close>)
  qed
qed

lemma vmfault_swapin_as:
  assumes ok: "as_ok s {} xs" and va: "va < MAXVA" "page_aligned va" and free: "\<not> bit (aspt s va) 0"
    and sq: "p_next_seq (myproc s) \<noteq> - 1"
    and v: "vmfault_swapin va slot s = Ret (x, s')"
  shows "fault_ok s xs va True x s'"
proof -
  let ?s = "kprintf ''[pid %d] SWAPIN va=0x%lx slot=%d'' [PInt (p_pid (myproc s)), PLong va, PInt slot] s"
  have "quiet s ?s" by simp
  note q = as_quiet [OF ok this]
  note ok0 = as_stepD(2) [OF q(1)]
  obtain r s1 where r: "swap_in va slot ?s = Ret (r, s1)"
    and rest: "(if r < 0 then Ret (0, s1) else rbind (add_resident_page va s1) (\<lambda>s. Ret (va, s))) = Ret (x, s')"
    using v unfolding vmfault_swapin_def Let_def by auto
  have free0: "\<not> bit (aspt ?s va) 0" using free q(2) by simp
  note si = swap_in_as [OF ok0 va free0 r]
  obtain xs1 where st: "as_step s {} xs s1 {} xs1" using si(1) as_step_trans [OF q(1)] by blast
  show ?thesis
  proof (cases "r < 0")
    case True
    then show ?thesis using rest fault_ok_fail [OF st] by simp
  next
    case False
    then have a: "add_resident_page va s1 = Ret s'" and x: "x = va" using rest by auto
    have u: "user_at (aspt s1) va" using si(2) False by simp
    have vo: "va_ok (aspt s1) va" using u va by (simp add: va_ok_def user_at_def)
    have sq1: "p_next_seq (myproc s1) \<noteq> - 1" using as_stepD(4) [OF st] sq by simp
    note ar = add_resident_page_as [OF as_stepD(2) [OF st] vo sq1 a]
    obtain xs2 where "as_move s {} xs s' {} xs2"
      using ar(1) as_move_trans [OF as_stepD(1) [OF st]] by blast
    then show ?thesis unfolding fault_ok_def using ar(2) u x by (auto simp: user_at_def)
  qed
qed

text \<open>The case for the heap is never reached: it needs a page below the stack page of the process,
  at or above its stack pointer, that is not in the range of the stack case.\<close>

lemma no_heap_case:
  assumes "\<not> va < sp" "\<not> (PGROUNDDOWN va \<ge> PGROUNDDOWN sp \<and> PGROUNDDOWN va < sz)"
    and "stackbase = (if sz \<ge> 1 * PGSIZE then sz - 1 * PGSIZE else 0)" "stackbase \<noteq> 0"
  shows "\<not> PGROUNDDOWN va < stackbase"
proof -
  have "sz - PGSIZE \<le> sz" if "PGSIZE \<le> sz" using that by (simp add: word_le_nat_alt unat_sub)
  then have "stackbase \<le> sz" using assms(3) by simp
  moreover have "PGROUNDDOWN va \<ge> PGROUNDDOWN sp" using assms(1) by (simp add: PGROUNDDOWN_mono not_less)
  ultimately show ?thesis using assms(2) by auto
qed

lemma ismapped_iff:
  assumes "us_ok s pt H xs" "va < MAXVA"
  shows "ismapped pt va s = Ret (bit (uptes s pt va) 0)"
  using as_mapped_word [OF assms] by (auto simp: ismapped_def)

lemma vmfault_as:
  assumes ok: "as_ok s {} xs" and sq: "p_next_seq (myproc s) \<noteq> - 1"
    and v: "vmfault (p_pagetable (myproc s)) va write s = Ret (x, s')"
  shows "fault_ok s xs (PGROUNDDOWN va) (swapped_out (myproc s) (PGROUNDDOWN va)) x s'"
proof -
  let ?va = "PGROUNDDOWN va" and ?p = "myproc s" and ?sp = "tf_sp s"
  have none: ?thesis if "s' = s" "x = 0"
    using that fault_ok_fail [OF as_quiet(1) [OF ok quiet_refl]] by simp
  show ?thesis
  proof (cases "?va \<ge> MAXVA \<or> bit (aspt s ?va) 0")
    case True
    then show ?thesis
      using none v ismapped_iff [OF as_okD(2) [OF ok], of ?va] by (cases "?va \<ge> MAXVA") (auto simp: vmfault_def)
  next
    case False
    then have va: "?va < MAXVA" "page_aligned ?va" "\<not> bit (aspt s ?va) 0" by auto
    define slot where "slot = (case find (\<lambda>e. sw_va e = ?va) (p_swap_map ?p) of Some e \<Rightarrow> sw_slot e | None \<Rightarrow> - 1)"
    have sw: "swapped_out ?p ?va \<longleftrightarrow> slot \<ge> 0" by (simp add: swapped_out_def slot_def split: option.split)
    note cases3 = vmfault_swapin_as [OF ok va sq] vmfault_seg_as [OF ok va sq] vmfault_zero_as [OF ok va sq]
    have v': "(if slot \<ge> 0 then vmfault_swapin ?va slot s
      else case find_segment ?va ?p of
        Some seg \<Rightarrow> vmfault_seg (p_pagetable ?p) seg ?va write s
      | None \<Rightarrow>
          if va < ?sp then Ret (0, s)
          else if ?va \<ge> PGROUNDDOWN ?sp \<and> ?va < p_sz ?p then vmfault_stack (p_pagetable ?p) ?va write s
          else
            let stackbase = (if p_sz ?p \<ge> 1 * PGSIZE then p_sz ?p - 1 * PGSIZE else 0) in
            if stackbase \<noteq> 0 \<and> ?va \<ge> p_data_end ?p \<and> ?va < stackbase
            then vmfault_heap (p_pagetable ?p) ?va write s else Ret (0, s)) = Ret (x, s')"
      using v va ismapped_iff [OF as_okD(2) [OF ok] va(1)]
      unfolding vmfault_def Let_def slot_def by (simp add: not_le [symmetric])
    show ?thesis
    proof (cases "slot \<ge> 0")
      case True
      then show ?thesis using v' cases3(1) by (simp add: sw)
    next
      case ns: False
      show ?thesis
      proof (cases "find_segment ?va ?p")
        case (Some seg)
        then show ?thesis using v' ns cases3(2) by (simp add: sw)
      next
        case None
        note hp = no_heap_case [of va ?sp "p_sz ?p", OF _ _ refl]
        show ?thesis
        proof (cases "va < ?sp \<or> \<not> (?va \<ge> PGROUNDDOWN ?sp \<and> ?va < p_sz ?p)")
          case True
          then have "s' = s" "x = 0" using v' ns None hp by (auto simp: Let_def split: if_splits)
          then show ?thesis by (rule none)
        next
          case False
          then show ?thesis using v' ns None cases3(3) by (simp add: vmfault_stack_def sw)
        qed
      qed
    qed
  qed
qed

section \<open>A fault that finds memory is answered\<close>

lemma kalloc_evict_free:
  assumes ok: "as_ok s H (a # xs)"
  shows "\<exists>s'. kalloc_evict verb s = Ret (a, s') \<and> as_step s H (a # xs) s' (insert a H) xs \<and>
    myproc s' = myproc s \<and> aspt s' = aspt s \<and> a \<noteq> 0"
proof -
  have "kinv s (a # xs)" by (rule us_okD(3) [OF as_okD(2) [OF ok]])
  note k = kalloc_Cons [OF this]
  define s' where "s' = s\<lparr>freelist := load64 (mem s) a, mem := memset (mem s) a 5 4096\<rparr>"
  have ka: "kalloc s = (a, s')" using k(1) by (simp add: s'_def)
  have st: "us_step s (p_pagetable (myproc s)) H (a # xs) s' (insert a H) xs"
    and u: "uptes s' (p_pagetable (myproc s)) = aspt s"
    using us_kalloc [OF as_okD(2) [OF ok] ka] k(4) by auto
  have "as_step s H (a # xs) s' (insert a H) xs" by (rule as_us [OF ok st]) (simp add: u)
  then show ?thesis using ka k(4) u by (simp add: kalloc_evict_def s'_def)
qed

lemma vmfault_zero_served:
  assumes ok: "as_ok s {} (a # xs)" and two: "2 \<le> length xs"
    and va: "va < MAXVA" "page_aligned va" "\<not> bit (aspt s va) 0"
    and n: "p_nresident (myproc s) < MAX_RESIDENT_PAGES"
  shows "\<exists>s'. vmfault_zero (p_pagetable (myproc s)) fmt va write s = Ret (a, s') \<and> a \<noteq> 0"
proof -
  obtain s1 where k: "kalloc_evict True s = Ret (a, s1)" and st: "as_step s {} (a # xs) s1 {a} xs"
    and my: "myproc s1 = myproc s" and u: "aspt s1 = aspt s" and a: "a \<noteq> 0"
    using kalloc_evict_free [OF ok] by blast
  note ms = as_memset [OF st, of 0]
  define s2 where "s2 = kprintf ''[pid %d] ALLOC va=0x%lx'' [PInt (p_pid (myproc s1)), PLong va]
      (kprintf fmt [PInt (p_pid (myproc s1)), PLong va, access_str write]
        (s1\<lparr>mem := memset (mem s1) a 0 4096\<rparr>))"
  have "quiet (s1\<lparr>mem := memset (mem s1) a 0 4096\<rparr>) s2" by (simp add: s2_def)
  note q = as_quiet [OF as_stepD(2) [OF ms(1)] this]
  note ok2 = as_stepD(2) [OF q(1)]
  have my2: "myproc s2 = myproc s" by (simp add: s2_def my)
  have free: "\<not> bit (aspt s2 va) 0" using va(3) u ms(2) q(2) by simp
  then have fr: "\<not> bit (pte_of s2 (p_pagetable (myproc s2)) va) 0" using va(1) by (simp add: uptes_def)
  obtain r s3 where m: "mappages (p_pagetable (myproc s2)) va PGSIZE a (PTE_U OR PTE_R OR PTE_W) s2 = Ret (r, s3)"
    using us_map [OF as_okD(2) [OF ok2] insertI1 va(1,2) fr as_perm(1,2)] by blast
  note mp = as_map(3,4) [OF ok2 insertI1 va(1,2) free as_perm(1,2) m]
  have "p_nresident (myproc s3) < MAX_RESIDENT_PAGES" using n my2 mp(1) by simp
  then have "\<exists>s4. add_resident_page va s3 = Ret s4"
    unfolding add_resident_page_def Let_def by auto
  then show ?thesis using k a m mp(2) [OF two] my2 by (auto simp: vmfault_zero_def Let_def s2_def)
qed

lemma vmfault_stack_case:
  assumes "as_ok s {} xs" "PGROUNDDOWN va < MAXVA" "\<not> bit (aspt s (PGROUNDDOWN va)) 0"
    and "find (\<lambda>e. sw_va e = PGROUNDDOWN va) (p_swap_map (myproc s)) = None"
    and "find_segment (PGROUNDDOWN va) (myproc s) = None"
    and "tf_sp s \<le> va" "PGROUNDDOWN va < p_sz (myproc s)"
  shows "vmfault (p_pagetable (myproc s)) va write s =
    vmfault_stack (p_pagetable (myproc s)) (PGROUNDDOWN va) write s"
proof -
  have "ismapped (p_pagetable (myproc s)) (PGROUNDDOWN va) s = Ret False"
    using ismapped_iff [OF as_okD(2) [OF assms(1)] assms(2)] assms(3) by simp
  moreover have "PGROUNDDOWN (tf_sp s) \<le> PGROUNDDOWN va" using assms(6) by (rule PGROUNDDOWN_mono)
  ultimately show ?thesis
    using assms(2,4-7) by (simp add: vmfault_def Let_def not_le [symmetric] not_less)
qed

section \<open>Example\<close>

text \<open>A machine with one process, whose page table is empty, and three free pages.\<close>

definition three_pages :: kmem where
  "three_pages = \<lparr>mem = store64 (store64 (\<lambda>_. 0) 0x87FFE000 0x87FFF000) 0x87FFC000 0x87FFE000,
     freelist = 0x87FFC000, kend = 0x87FF0000\<rparr>"

definition demo_fsys :: fsys where
  "demo_fsys = \<lparr>mem = mem three_pages, freelist = freelist three_pages, kend = kend three_pages,
     procs = [demo_proc], cur = 0, nextpid = 8, initproc = 0, kernel_pagetable = 0, etext = 0,
     trampoline = 0, ticks = 0, klog = [], disk = (\<lambda>_. replicate BSIZE 0), dwrites = [],
     bufs = [], lru = [], logs = \<lparr>lg_start = 2, lg_outstanding = 0, lg_committing = False, lg_dev = 1,
       lg_lh = \<lparr>lh_n = 0, lh_block = replicate LOGBLOCKS 0\<rparr>\<rparr>,
     sb = \<lparr>sb_magic = 0x10203040, sb_size = 2000, sb_nblocks = 1954, sb_ninodes = 200, sb_nlog = 31,
       sb_logstart = 2, sb_inodestart = 33, sb_bmapstart = 46\<rparr>, itable = []\<rparr>"

lemma demo_fsys_sel [simp]:
  "myproc demo_fsys = demo_proc" "mem demo_fsys = mem three_pages" "cur demo_fsys = 0"
  "procs demo_fsys = [demo_proc]"
  by (simp_all add: demo_fsys_def myproc_def)

lemma three_pages_off: "same_off {pn 0x87FFE000, pn 0x87FFC000} (\<lambda>_. 0) (mem three_pages)"
proof -
  let ?m = "store64 (\<lambda>_. 0) 0x87FFE000 0x87FFF000 :: memory"
  have al: "page_aligned 0x87FFE000" "page_aligned 0x87FFC000" by (simp_all add: page_aligned_def PGSIZE_def)
  have "same_off {pn 0x87FFE000, pn 0x87FFC000} (\<lambda>_. 0) ?m"
    using same_off_mono [OF same_off_store64_0 [OF al(1)]] by blast
  moreover have "same_off {pn 0x87FFE000, pn 0x87FFC000} ?m (mem three_pages)"
    unfolding three_pages_def kmem.select_convs
    using same_off_mono [OF same_off_store64_0 [OF al(2)]] by blast
  ultimately show ?thesis by (rule same_off_trans)
qed

lemma three_pages_word:
  assumes "page_aligned p" "pn p \<notin> {pn 0x87FFE000, pn 0x87FFC000}" "i < 512"
  shows "load64 (mem three_pages) (p + of_nat (8 * i)) = 0"
  using same_off_load64 [OF three_pages_off assms] by (simp add: load64_def)

lemma three_pages_pt:
  "pt_inv three_pages root_page [0x87FFC000, 0x87FFE000, 0x87FFF000]" "uptes three_pages root_page = (\<lambda>_. 0)"
proof -
  have al: "page_aligned root_page" "pn root_page \<notin> {pn 0x87FFE000, pn 0x87FFC000}"
    "page_aligned 0x87FFF000" "pn 0x87FFF000 \<notin> {pn 0x87FFE000, pn 0x87FFC000}"
    by (simp_all add: page_aligned_def PGSIZE_def pn_def)
  have z: "ent (mem three_pages) root_page i = 0" if "i < 512" for i
    using three_pages_word [OF al(1,2) that] by (simp add: ent_def)
  have k: "kpage three_pages root_page"
    by (simp add: three_pages_def kpage_def page_aligned_def riscv_consts)
  note t = zero_table [of "mem three_pages" root_page "kpage three_pages", OF z k]
  have l: "load64 (mem three_pages) 0x87FFC000 = 0x87FFE000" "load64 (mem three_pages) 0x87FFE000 = 0x87FFF000"
    using same_off_load64_0 [OF same_off_store64_0 [of "0x87FFC000" "store64 (\<lambda>_. 0) 0x87FFE000 0x87FFF000" "0x87FFE000"],
        of "0x87FFE000"]
    by (simp_all add: three_pages_def page_aligned_def PGSIZE_def pn_def)
  have "load64 (mem three_pages) 0x87FFF000 = 0" using three_pages_word [OF al(3,4), of 0] by simp
  then have "kinv three_pages [0x87FFC000, 0x87FFE000, 0x87FFF000]"
    using l by (simp add: kinv_def three_pages_def kpage_def page_aligned_def riscv_consts)
  then show "pt_inv three_pages root_page [0x87FFC000, 0x87FFE000, 0x87FFF000]"
    using t(1,2) by (simp add: pt_inv_def)
  show "uptes three_pages root_page = (\<lambda>_. 0)" by (rule ext) (simp add: uptes_def t(3))
qed

lemma demo_as_ok: "as_ok demo_fsys {} [0x87FFC000, 0x87FFE000, 0x87FFF000]"
  and demo_aspt: "aspt demo_fsys = (\<lambda>_. 0)"
proof -
  have pt: "p_pagetable demo_proc = root_page" by (simp add: demo_proc_def)
  note z = three_pages_pt(2)
  have no: "upages (\<lambda>_. 0) = {}" by (simp add: upages_def user_at_def)
  have us: "us_ok three_pages root_page {} [0x87FFC000, 0x87FFE000, 0x87FFF000]"
    by (rule us_okI [OF three_pages_pt(1)]) (simp_all add: z no, simp add: pages_inj_def user_at_def)
  have c: "mem demo_fsys = mem three_pages" "freelist demo_fsys = freelist three_pages"
    "kend demo_fsys = kend three_pages" by (simp_all add: demo_fsys_def)
  show u: "aspt demo_fsys = (\<lambda>_. 0)" unfolding demo_fsys_sel pt us_ok_cong [OF c] z ..
  have "rs_inv demo_proc" using demo_evictable by (simp add: evictable_def)
  moreover have "\<forall>va \<in> set (map rp_va (active demo_proc)). va_ok (\<lambda>_. 0) va"
    by (simp add: active_def demo_proc_def demo_page_def va_ok_def page_aligned_def PGSIZE_def MAXVA_def)
  ultimately show "as_ok demo_fsys {} [0x87FFC000, 0x87FFE000, 0x87FFF000]"
    unfolding as_ok_def u unfolding demo_fsys_sel pt us_ok_cong [OF c] using us by simp
qed

lemma demo_stack:
  "PGROUNDDOWN 0x5008 = 0x5000" "(0x5000 :: u64) < MAXVA"
  "load64 (mem three_pages) (p_trapframe demo_proc + 48) = 0" "uptes demo_fsys root_page = (\<lambda>_. 0)"
  "find (\<lambda>e. sw_va e = 0x5000) (p_swap_map demo_proc) = None" "find_segment 0x5000 demo_proc = None"
  "p_sz demo_proc = 0x8000" "p_nresident demo_proc = 3" "p_pagetable demo_proc = root_page"
  "p_next_seq demo_proc = 7"
proof -
  have "pn 0 \<notin> {pn 0x87FFE000, pn 0x87FFC000}" "page_aligned 0"
    by (simp_all add: page_aligned_def PGSIZE_def pn_def)
  then show "load64 (mem three_pages) (p_trapframe demo_proc + 48) = 0"
    using three_pages_word [of 0 6] by (simp add: demo_proc_def)
  show "uptes demo_fsys root_page = (\<lambda>_. 0)" using demo_aspt by (simp add: demo_proc_def)
qed (simp_all add: PGROUNDDOWN_def PGSIZE_def MAXVA_def demo_proc_def find_None_iff find_segment_def)

lemma demo_fault: "\<exists>s'. vmfault root_page 0x5008 True demo_fsys = Ret (0x87FFC000, s')"
proof -
  have "vmfault (p_pagetable (myproc demo_fsys)) 0x5008 True demo_fsys =
      vmfault_stack (p_pagetable (myproc demo_fsys)) (PGROUNDDOWN 0x5008) True demo_fsys"
    by (rule vmfault_stack_case [OF demo_as_ok]) (simp_all add: demo_stack demo_aspt)
  then have eq: "vmfault root_page 0x5008 True demo_fsys = vmfault_stack root_page 0x5000 True demo_fsys"
    by (simp add: demo_stack)
  have al: "page_aligned (0x5000 :: u64)" by (simp add: page_aligned_def PGSIZE_def)
  show ?thesis
    unfolding eq vmfault_stack_def
    using vmfault_zero_served [OF demo_as_ok _ demo_stack(2) al] by (simp add: demo_stack demo_aspt)
qed

section \<open>Properties\<close>

text \<open>C1: a page fault keeps address spaces apart.  If the pages of the process, its page table and
  the free list are disjoint and the resident set is in order, the same holds when a call of
  \<^verbatim>\<open>vmfault\<close> returns, in every case of the handler: whether it loads a page of the executable, grows
  the stack, brings a page back from the swap file, evicts other pages on the way, or fails.  No
  page is lost or gained among these three, no memory outside them changes, at most eight pages
  are resident, and other processes are at most woken or killed: a sleeping one may have become
  runnable and a kill flag may have been set.\<close>

theorem vmfault_safe:
  assumes "as_ok s {} xs" "p_next_seq (myproc s) \<noteq> - 1"
    and "vmfault (p_pagetable (myproc s)) va write s = Ret (x, s')"
  shows "\<exists>xs'. as_ok s' {} xs' \<and> as_own s' {} xs' = as_own s {} xs \<and>
    same_off (pn ` as_own s {} xs) (mem s) (mem s') \<and> others_kept s s' \<and>
    p_nresident (myproc s') \<le> MAX_RESIDENT_PAGES"
proof -
  obtain xs' where m: "as_move s {} xs s' {} xs'" using vmfault_as [OF assms] by (auto simp: fault_ok_def)
  then have "as_ok s' {} xs'" by (simp add: as_move_def)
  from as_okD(3) [OF this] have "p_nresident (myproc s') \<le> MAX_RESIDENT_PAGES" by (simp add: rs_inv_def)
  then show ?thesis using m by (auto simp: as_move_def)
qed

theorem vmfault_safe_witness:
  "\<exists>x s' xs'. vmfault root_page 0x5008 True demo_fsys = Ret (x, s') \<and> as_ok s' {} xs'"
proof -
  obtain s' where v: "vmfault root_page 0x5008 True demo_fsys = Ret (0x87FFC000, s')"
    using demo_fault by blast
  have p: "p_pagetable (myproc demo_fsys) = root_page" "p_next_seq (myproc demo_fsys) \<noteq> - 1"
    by (simp_all add: demo_stack)
  show ?thesis using vmfault_safe [OF demo_as_ok p(2), of "0x5008" True _ s'] v p(1) by auto
qed

text \<open>C3: a fault that is reported as handled has mapped the page: if \<^verbatim>\<open>vmfault\<close> returns a
  nonzero value then the page of the faulting address is mapped, valid and accessible to the
  user.  The value is the page's physical address if the page was not in the swap file; if it was,
  the value is the page's virtual address.\<close>

theorem vmfault_maps:
  assumes "as_ok s {} xs" "p_next_seq (myproc s) \<noteq> - 1"
    and "vmfault (p_pagetable (myproc s)) va write s = Ret (x, s')" "x \<noteq> 0"
  shows "user_at (aspt s') (PGROUNDDOWN va) \<and>
    x = (if swapped_out (myproc s) (PGROUNDDOWN va) then PGROUNDDOWN va
         else PTE2PA (aspt s' (PGROUNDDOWN va)))"
  using vmfault_as [OF assms(1-3)] assms(4) by (simp add: fault_ok_def)

theorem vmfault_maps_witness:
  "\<exists>s'. vmfault root_page 0x5008 True demo_fsys = Ret (0x87FFC000, s') \<and> user_at (aspt s') 0x5000 \<and>
     PTE2PA (aspt s' 0x5000) = 0x87FFC000"
proof -
  obtain s' where v: "vmfault root_page 0x5008 True demo_fsys = Ret (0x87FFC000, s')"
    using demo_fault by blast
  have p: "p_pagetable (myproc demo_fsys) = root_page" "p_next_seq (myproc demo_fsys) \<noteq> - 1"
    by (simp_all add: demo_stack)
  show ?thesis
    using vmfault_maps [OF demo_as_ok p(2), of "0x5008" True "0x87FFC000" s'] v p(1)
    by (auto simp: demo_stack swapped_out_def)
qed

text \<open>C4: a stack fault is answered.  If three pages are free, fewer than eight pages are resident
  and the address lies between the stack pointer and the size of the process, in a page that is
  not mapped, not swapped out and in no segment of the executable, then \<^verbatim>\<open>vmfault\<close> returns a
  page: it does not panic, sleep or fail.\<close>

theorem stack_fault_served:
  assumes "as_ok s {} xs" "3 \<le> length xs" "p_nresident (myproc s) < MAX_RESIDENT_PAGES"
    and "PGROUNDDOWN va < MAXVA" "\<not> bit (aspt s (PGROUNDDOWN va)) 0"
    and "find (\<lambda>e. sw_va e = PGROUNDDOWN va) (p_swap_map (myproc s)) = None"
    and "find_segment (PGROUNDDOWN va) (myproc s) = None"
    and "tf_sp s \<le> va" "PGROUNDDOWN va < p_sz (myproc s)"
  shows "\<exists>x s'. vmfault (p_pagetable (myproc s)) va write s = Ret (x, s') \<and> x \<noteq> 0"
proof -
  obtain a ys where xs: "xs = a # ys" using assms(2) by (cases xs) auto
  have two: "2 \<le> length ys" using assms(2) xs by simp
  obtain s' where "vmfault_zero (p_pagetable (myproc s))
      ''[pid %d] PAGEFAULT va=0x%lx access=%s cause=stack'' (PGROUNDDOWN va) write s = Ret (a, s')" "a \<noteq> 0"
    using vmfault_zero_served [OF assms(1) [unfolded xs] two assms(4) page_aligned_PGROUNDDOWN assms(5,3)]
    by blast
  then show ?thesis
    using vmfault_stack_case [OF assms(1,4-9)] by (auto simp: vmfault_stack_def)
qed

theorem stack_fault_served_witness:
  "\<exists>x s'. vmfault root_page 0x5008 False demo_fsys = Ret (x, s') \<and> x \<noteq> 0"
  using stack_fault_served [OF demo_as_ok, of "0x5008" False] by (simp add: demo_stack demo_aspt)

text \<open>C5: eviction is exact.  If \<^verbatim>\<open>evict_page\<close> succeeds, the entry it was given has left the
  resident set, the order of the others is kept, its page is unmapped and no other entry of the
  page table has changed.  If it fails, because the index is out of range or the page could not
  be written to the swap file, then page table, memory, free list and the pages of the resident
  set are as before.\<close>

theorem evict_page_exact:
  assumes "as_ok s H xs" "evict_page idx s = Ret (r, s')"
  shows "if r < 0 then quiet s s' else evicted s (nat idx) s' \<and> (\<exists>xs'. as_ok s' H xs')"
  using evict_page_as [OF assms] as_stepD(2) by (auto, blast)

theorem evict_page_exact_witness:
  "\<exists>s'. evict_page 1 demo_fsys = Ret (0, s') \<and> evicted demo_fsys 1 s'"
proof -
  have "walk root_page 0x2000 False demo_fsys = Ret (wl (mem three_pages) 2 root_page 0x2000, demo_fsys)"
    using walk_noalloc [of "0x2000" root_page demo_fsys] by (simp add: MAXVA_def)
  moreover have "wl (mem three_pages) 2 root_page 0x2000 = 0 \<or>
      \<not> bit (load64 (mem three_pages) (wl (mem three_pages) 2 root_page 0x2000)) 0"
    using as_mapped_word(2) [OF as_okD(2) [OF demo_as_ok], of "0x2000"]
    by (simp add: demo_stack MAXVA_def)
  ultimately have e: "evict_page 1 demo_fsys = Ret (0, myproc_upd (remove_resident 1) demo_fsys)"
    by (auto simp: evict_page_def Let_def demo_stack demo_proc_def demo_page_def)
  show ?thesis using evict_page_exact [OF demo_as_ok e] e by simp
qed

end
