(* ===== verification/Bcache.thy ===== *)
theory Bcache
  imports Bio
begin

text \<open>
  The buffer cache as a map from block numbers to contents.  There is one disk, device
  \<^verbatim>\<open>ROOTDEV\<close>; buffers that have not been used carry device 0.  \<open>content\<close> is what a reader of
  a block sees, \<open>pins\<close> the number of references to its buffer, \<open>blocked\<close> whether the
  buffer is locked, \<open>nfree\<close> the number of buffers that can be recycled.

  \<open>cache_ok\<close> is the invariant: a block is in at most one buffer, a locked buffer is
  referenced, and a buffer without references holds what is on the disk, so recycling it loses
  nothing.  The lemmas say what each operation does to the abstract cache.
\<close>

section \<open>The abstract cache\<close>

definition bkey :: "buf \<Rightarrow> u32 \<times> u32" where
  "bkey x = (b_dev x, b_blockno x)"

abbreviation rkey :: "u32 \<Rightarrow> u32 \<times> u32" where
  "rkey n \<equiv> (ROOTDEV, n)"

definition cached :: "'a blk_scheme \<Rightarrow> u32 \<Rightarrow> nat option" where
  "cached s n = find (\<lambda>i. bkey (bufs s ! i) = rkey n) (lru s)"

definition content :: "'a blk_scheme \<Rightarrow> u32 \<Rightarrow> byte list" where
  "content s n =
     (case cached s n of
        Some b \<Rightarrow> if b_valid (bufs s ! b) then b_data (bufs s ! b) else disk s n
      | None \<Rightarrow> disk s n)"

definition pins :: "'a blk_scheme \<Rightarrow> u32 \<Rightarrow> u32" where
  "pins s n = (case cached s n of Some b \<Rightarrow> b_refcnt (bufs s ! b) | None \<Rightarrow> 0)"

definition blocked :: "'a blk_scheme \<Rightarrow> u32 \<Rightarrow> bool" where
  "blocked s n \<longleftrightarrow> (case cached s n of Some b \<Rightarrow> sl_locked (b_lock (bufs s ! b)) | None \<Rightarrow> False)"

definition free_bufs :: "buf list \<Rightarrow> nat set" where
  "free_bufs bs = {i. i < length bs \<and> b_refcnt (bs ! i) = 0}"

abbreviation nfree :: "'a blk_scheme \<Rightarrow> nat" where
  "nfree s \<equiv> card (free_bufs (bufs s))"

definition buf_ok :: "(u32 \<Rightarrow> byte list) \<Rightarrow> buf \<Rightarrow> bool" where
  "buf_ok d x \<longleftrightarrow> (b_dev x = 0 \<or> b_dev x = ROOTDEV) \<and> (sl_locked (b_lock x) \<longrightarrow> b_refcnt x \<noteq> 0) \<and>
     (b_valid x \<and> b_dev x = ROOTDEV \<and> b_refcnt x = 0 \<longrightarrow> b_data x = d (b_blockno x))"

definition keys_uniq :: "buf list \<Rightarrow> bool" where
  "keys_uniq bs \<longleftrightarrow> (\<forall>i<length bs. \<forall>j<length bs. b_dev (bs ! i) \<noteq> 0 \<longrightarrow>
     bkey (bs ! i) = bkey (bs ! j) \<longrightarrow> i = j)"

definition cache_ok :: "'a blk_scheme \<Rightarrow> bool" where
  "cache_ok s \<longleftrightarrow> cur s < length (procs s) \<and> distinct (lru s) \<and> set (lru s) = {0..<length (bufs s)} \<and>
     keys_uniq (bufs s) \<and> (\<forall>i<length (bufs s). buf_ok (disk s) (bufs s ! i))"

text \<open>The running process holds block \<open>n\<close> in buffer \<open>b\<close>.\<close>

definition held :: "'a blk_scheme \<Rightarrow> nat \<Rightarrow> u32 \<Rightarrow> bool" where
  "held s b n \<longleftrightarrow> b < length (bufs s) \<and> bkey (bufs s ! b) = rkey n \<and> b_valid (bufs s ! b) \<and>
     holdingsleep (b_lock (bufs s ! b)) s \<and> b_refcnt (bufs s ! b) \<noteq> 0"

lemma keys_uniqD:
  "keys_uniq bs \<Longrightarrow> i < length bs \<Longrightarrow> j < length bs \<Longrightarrow> b_dev (bs ! i) \<noteq> 0 \<Longrightarrow>
   bkey (bs ! i) = bkey (bs ! j) \<Longrightarrow> i = j"
  unfolding keys_uniq_def by blast

lemma cache_okD:
  assumes "cache_ok s"
  shows "cur s < length (procs s)" "distinct (lru s)" "set (lru s) = {0..<length (bufs s)}"
    "keys_uniq (bufs s)" "i < length (bufs s) \<Longrightarrow> buf_ok (disk s) (bufs s ! i)"
  using assms by (simp_all add: cache_ok_def)

lemma cached_iff:
  assumes "cache_ok s"
  shows "cached s n = Some b \<longleftrightarrow> b < length (bufs s) \<and> bkey (bufs s ! b) = rkey n"
proof
  assume "cached s n = Some b"
  then have "b \<in> set (lru s)" "bkey (bufs s ! b) = rkey n"
    using find_Some_nth [of "\<lambda>i. bkey (bufs s ! i) = rkey n" "lru s" b] by (auto simp: cached_def)
  then show "b < length (bufs s) \<and> bkey (bufs s ! b) = rkey n"
    using cache_okD(3) [OF assms] by simp
next
  assume b: "b < length (bufs s) \<and> bkey (bufs s ! b) = rkey n"
  then have mem: "b \<in> set (lru s)" using cache_okD(3) [OF assms] by simp
  then obtain c where c: "cached s n = Some c"
    using b by (cases "cached s n") (auto simp: cached_def find_None_iff)
  then have cc: "c \<in> set (lru s)" "bkey (bufs s ! c) = rkey n"
    using find_Some_nth [of "\<lambda>i. bkey (bufs s ! i) = rkey n" "lru s" c] by (auto simp: cached_def)
  have "c < length (bufs s)" using cc(1) cache_okD(3) [OF assms] by simp
  moreover have "b_dev (bufs s ! b) \<noteq> 0" using b by (auto simp: bkey_def)
  ultimately have "b = c" using b cc(2) by (intro keys_uniqD [OF cache_okD(4) [OF assms]]) auto
  then show "cached s n = Some b" using c by simp
qed

lemma cached_None:
  assumes "cache_ok s"
  shows "cached s n = None \<longleftrightarrow> (\<forall>b<length (bufs s). bkey (bufs s ! b) \<noteq> rkey n)"
proof (cases "cached s n")
  case None
  then show ?thesis using cached_iff [OF assms, of n] by simp
next
  case (Some b)
  then show ?thesis using cached_iff [OF assms, of n b] by auto
qed

lemma cached_cong:
  assumes "cache_ok s" "cache_ok s'" "bufs s' = bufs s"
  shows "cached s' n = cached s n"
proof -
  have "cached s' n = Some b \<longleftrightarrow> cached s n = Some b" for b
    using cached_iff [OF assms(1), of n b] cached_iff [OF assms(2), of n b] assms(3) by simp
  then show ?thesis by (metis not_None_eq)
qed

lemma views_cong:
  assumes "bufs s' = bufs s" "lru s' = lru s" "disk s' = disk s"
  shows "content s' = content s" "pins s' = pins s" "blocked s' = blocked s"
  unfolding content_def pins_def blocked_def cached_def assms by (rule refl)+

text \<open>Replacing one buffer.  It may change its block only while it has no references.\<close>

definition fits :: "'a blk_scheme \<Rightarrow> nat \<Rightarrow> buf \<Rightarrow> bool" where
  "fits s b x \<longleftrightarrow> bkey x = bkey (bufs s ! b) \<or>
     b_refcnt (bufs s ! b) = 0 \<and> b_dev x = ROOTDEV \<and> cached s (b_blockno x) = None"

lemma fits_uniq:
  assumes ok: "cache_ok s" and b: "b < length (bufs s)" and f: "fits s b x"
    and j: "j < length (bufs s)" "b_dev x \<noteq> 0" "bkey (bufs s ! j) = bkey x"
  shows "j = b"
  using f unfolding fits_def
proof
  assume e: "bkey x = bkey (bufs s ! b)"
  show ?thesis
    by (rule keys_uniqD [OF cache_okD(4) [OF ok]]) (use j b e in \<open>auto simp: bkey_def\<close>)
next
  assume "b_refcnt (bufs s ! b) = 0 \<and> b_dev x = ROOTDEV \<and> cached s (b_blockno x) = None"
  then show ?thesis using cached_None [OF ok, of "b_blockno x"] j by (auto simp: bkey_def)
qed

lemma cache_ok_set:
  assumes ok: "cache_ok s" and b: "b < length (bufs s)" and x: "buf_ok (disk s) x" and f: "fits s b x"
  shows "cache_ok (s\<lparr>bufs := (bufs s)[b := x]\<rparr>)"
proof -
  have "keys_uniq ((bufs s)[b := x])"
    unfolding keys_uniq_def length_list_update
  proof (intro allI impI)
    fix i j
    assume ij: "i < length (bufs s)" "j < length (bufs s)" "b_dev ((bufs s)[b := x] ! i) \<noteq> 0"
      "bkey ((bufs s)[b := x] ! i) = bkey ((bufs s)[b := x] ! j)"
    have dv: "b_dev ((bufs s)[b := x] ! i) = b_dev ((bufs s)[b := x] ! j)"
      using ij(4) by (simp add: bkey_def)
    consider "i = b" "j = b" | "i = b" "j \<noteq> b" | "i \<noteq> b" "j = b" | "i \<noteq> b" "j \<noteq> b" by blast
    then show "i = j"
    proof cases
      case 2
      then show ?thesis using fits_uniq [OF ok b f ij(2)] ij b by simp
    next
      case 3
      then show ?thesis using fits_uniq [OF ok b f ij(1)] ij b dv by simp
    next
      case 4
      then show ?thesis using keys_uniqD [OF cache_okD(4) [OF ok] ij(1,2)] ij by simp
    qed simp
  qed
  moreover have "buf_ok (disk s) ((bufs s)[b := x] ! i)" if "i < length (bufs s)" for i
    using cache_okD(5) [OF ok that] x that by (cases "i = b") simp_all
  ultimately show ?thesis using cache_okD(1-3) [OF ok] by (simp add: cache_ok_def)
qed

lemma cached_set:
  assumes ok: "cache_ok s" and b: "b < length (bufs s)" and x: "buf_ok (disk s) x" and f: "fits s b x"
  shows "cached (s\<lparr>bufs := (bufs s)[b := x]\<rparr>) n =
    (if bkey x = rkey n then Some b else if bkey (bufs s ! b) = rkey n then None else cached s n)"
proof -
  let ?s = "s\<lparr>bufs := (bufs s)[b := x]\<rparr>"
  note c' = cached_iff [OF cache_ok_set [OF assms], of n] and c = cached_iff [OF ok, of n]
  consider "bkey x = rkey n" | "bkey x \<noteq> rkey n" "bkey (bufs s ! b) = rkey n"
    | "bkey x \<noteq> rkey n" "bkey (bufs s ! b) \<noteq> rkey n" by blast
  then show ?thesis
  proof cases
    case 1
    then show ?thesis using c' [of b] b by simp
  next
    case 2
    have "cached ?s n \<noteq> Some j" for j
      using c' [of j] c [of j] c [of b] 2 b by (cases "j = b") auto
    then show ?thesis using 2 by (cases "cached ?s n") auto
  next
    case 3
    have "cached ?s n = Some j \<longleftrightarrow> cached s n = Some j" for j
      using c' [of j] c [of j] 3 b by (cases "j = b") auto
    then have "cached ?s n = cached s n" by (metis not_None_eq)
    then show ?thesis using 3 by simp
  qed
qed

text \<open>The views of a state in which one buffer has been replaced.\<close>

lemma view_set:
  assumes ok: "cache_ok s" and b: "b < length (bufs s)" and x: "buf_ok (disk s) x" and f: "fits s b x"
    and s': "s' = s\<lparr>bufs := (bufs s)[b := x]\<rparr>"
  shows "content s' n = (if bkey x = rkey n then if b_valid x then b_data x else disk s n else content s n)"
    and "pins s' n = (if bkey x = rkey n then b_refcnt x else pins s n)"
    and "blocked s' n = (if bkey x = rkey n then sl_locked (b_lock x) else blocked s n)"
proof -
  note c = cached_set [OF ok b x f, of n, folded s']
  have old: "content s n = disk s n \<and> pins s n = 0 \<and> \<not> blocked s n"
    if "bkey (bufs s ! b) = rkey n" "bkey x \<noteq> rkey n"
  proof -
    have r: "b_refcnt (bufs s ! b) = 0" using f that by (auto simp: fits_def)
    have cs: "cached s n = Some b" using cached_iff [OF ok] that b by simp
    show ?thesis
      using cache_okD(5) [OF ok b] r that(1)
      by (auto simp: content_def pins_def blocked_def cs buf_ok_def bkey_def)
  qed
  have keep: "bufs s' ! i = bufs s ! i" if "cached s n = Some i" "bkey x \<noteq> rkey n" "bkey (bufs s ! b) \<noteq> rkey n" for i
    using that cached_iff [OF ok, of n i] by (cases "i = b") (auto simp: s')
  have at: "bufs s' ! b = x" "disk s' = disk s" using b by (simp_all add: s')
  show "content s' n = (if bkey x = rkey n then if b_valid x then b_data x else disk s n else content s n)"
    using old keep at unfolding content_def c by (auto split: option.splits)
  show "pins s' n = (if bkey x = rkey n then b_refcnt x else pins s n)"
    using old keep at unfolding pins_def c by (auto split: option.splits)
  show "blocked s' n = (if bkey x = rkey n then sl_locked (b_lock x) else blocked s n)"
    using old keep at unfolding blocked_def c by (auto split: option.splits)
qed

lemma finite_free_bufs [simp]: "finite (free_bufs bs)"
  by (rule finite_subset [of _ "{0..<length bs}"]) (auto simp: free_bufs_def)

lemma nfree_set:
  assumes "b < length bs"
  shows "card (free_bufs (bs[b := x])) + (if b_refcnt (bs ! b) = 0 then 1 else 0) =
    card (free_bufs bs) + (if b_refcnt x = 0 then 1 else 0)"
proof -
  have "free_bufs (bs[b := x]) = (if b_refcnt x = 0 then insert b (free_bufs bs) else free_bufs bs - {b})"
    using assms by (auto simp: free_bufs_def nth_list_update)
  moreover have "b \<in> free_bufs bs \<longleftrightarrow> b_refcnt (bs ! b) = 0" using assms by (simp add: free_bufs_def)
  ultimately show ?thesis using card_Suc_Diff1 [of "free_bufs bs" b] by (auto simp: insert_absorb)
qed

section \<open>The operations on the abstract cache\<close>

text \<open>\<open>cabs\<close> is the abstract state.  The specifications below give it after each operation.\<close>

record cview =
  cv_content :: "u32 \<Rightarrow> byte list"
  cv_pins :: "u32 \<Rightarrow> u32"
  cv_blocked :: "u32 \<Rightarrow> bool"
  cv_free :: nat
  cv_disk :: "u32 \<Rightarrow> byte list"
  cv_writes :: "(u32 \<times> byte list) list"
  cv_log :: logst

definition cabs :: "'a blk_scheme \<Rightarrow> cview" where
  "cabs s = \<lparr>cv_content = content s, cv_pins = pins s, cv_blocked = blocked s, cv_free = nfree s,
     cv_disk = disk s, cv_writes = dwrites s, cv_log = logs s\<rparr>"

lemma cabs_sel [simp]:
  "cv_content (cabs s) = content s" "cv_pins (cabs s) = pins s" "cv_blocked (cabs s) = blocked s"
  "cv_free (cabs s) = nfree s" "cv_disk (cabs s) = disk s" "cv_writes (cabs s) = dwrites s"
  "cv_log (cabs s) = logs s"
  by (simp_all add: cabs_def)

lemma held_cached: "cache_ok s \<Longrightarrow> held s b n \<Longrightarrow> cached s n = Some b"
  by (simp add: cached_iff held_def)

lemma held_views:
  assumes "cache_ok s" "held s b n"
  shows "content s n = b_data (bufs s ! b)" "pins s n = b_refcnt (bufs s ! b)" "blocked s n"
  using held_cached [OF assms] assms(2)
  by (simp_all add: content_def pins_def blocked_def held_def holdingsleep_def)

lemma content_unpinned:
  assumes ok: "cache_ok s" and p: "pins s n = 0"
  shows "content s n = disk s n"
proof (cases "cached s n")
  case None
  then show ?thesis by (simp add: content_def)
next
  case (Some b)
  then have b: "b < length (bufs s)" "bkey (bufs s ! b) = rkey n" using cached_iff [OF ok] by auto
  then show ?thesis
    using cache_okD(5) [OF ok b(1)] p Some by (auto simp: content_def pins_def buf_ok_def bkey_def)
qed

lemma cabs_set:
  assumes ok: "cache_ok s" and b: "b < length (bufs s)" and x: "buf_ok (disk s) x" and f: "fits s b x"
    and k: "bkey x = rkey n" and s': "s' = s\<lparr>bufs := (bufs s)[b := x]\<rparr>"
  shows "cabs s' = (cabs s)\<lparr>
    cv_content := (content s)(n := if b_valid x then b_data x else disk s n),
    cv_pins := (pins s)(n := b_refcnt x), cv_blocked := (blocked s)(n := sl_locked (b_lock x)),
    cv_free := nfree s'\<rparr>"
proof -
  note v = view_set [OF ok b x f s']
  have "content s' = (content s)(n := if b_valid x then b_data x else disk s n)"
    "pins s' = (pins s)(n := b_refcnt x)" "blocked s' = (blocked s)(n := sl_locked (b_lock x))"
    using k by (auto simp: v)
  then show ?thesis by (simp add: cabs_def s')
qed

lemma bread_state:
  assumes ok: "cache_ok s" and nb: "\<not> blocked s n" and o: "pins s n + 1 \<noteq> 0"
    and fr: "pins s n \<noteq> 0 \<or> 0 < nfree s"
  shows "\<exists>b x. bread ROOTDEV n s = Ret (b, s\<lparr>bufs := (bufs s)[b := x]\<rparr>) \<and> b < length (bufs s) \<and>
    fits s b x \<and> \<not> sl_locked (b_lock (bufs s ! b)) \<and>
    x = \<lparr>b_valid = True, b_dev = ROOTDEV, b_blockno = n,
         b_lock = \<lparr>sl_locked = True, sl_pid = p_pid (myproc s)\<rparr>, b_refcnt = pins s n + 1,
         b_data = content s n\<rparr> \<and>
    (b_refcnt (bufs s ! b) = 0 \<longleftrightarrow> pins s n = 0)"
proof (cases "cached s n")
  case (Some b)
  have b: "b < length (bufs s)" "bkey (bufs s ! b) = rkey n" using cached_iff [OF ok] Some by auto
  have f: "find (\<lambda>i. b_dev (bufs s ! i) = ROOTDEV \<and> b_blockno (bufs s ! i) = n) (lru s) = Some b"
    using Some by (simp add: cached_def bkey_def)
  show ?thesis
    using b nb Some
    by (intro exI [of _ b])
      (auto simp: bread_def bget_def f lock_buf_def buf_upd_def acquiresleep_def disk_rw_def Let_def
        blocked_def pins_def content_def fits_def bkey_def myproc_def
        intro!: arg_cong [where f = "\<lambda>x. s\<lparr>bufs := (bufs s)[b := x]\<rparr>"] buf.equality)
next
  case None
  have f: "find (\<lambda>i. b_dev (bufs s ! i) = ROOTDEV \<and> b_blockno (bufs s ! i) = n) (lru s) = None"
    using None by (simp add: cached_def bkey_def)
  have p: "pins s n = 0" using None by (simp add: pins_def)
  then have "free_bufs (bufs s) \<noteq> {}" using fr by auto
  then obtain i where "i < length (bufs s)" "b_refcnt (bufs s ! i) = 0" by (auto simp: free_bufs_def)
  then obtain b where g: "find (\<lambda>i. b_refcnt (bufs s ! i) = 0) (rev (lru s)) = Some b"
    using cache_okD(3) [OF ok] by (cases "find (\<lambda>i. b_refcnt (bufs s ! i) = 0) (rev (lru s))") (auto simp: find_None_iff)
  then have b: "b < length (bufs s)" "b_refcnt (bufs s ! b) = 0"
    using find_Some_nth [OF g] cache_okD(3) [OF ok] by auto
  then have l: "\<not> sl_locked (b_lock (bufs s ! b))" using cache_okD(5) [OF ok b(1)] by (auto simp: buf_ok_def)
  show ?thesis
    using b None p l
    by (intro exI [of _ b])
      (auto simp: bread_def bget_def f g lock_buf_def buf_upd_def acquiresleep_def disk_rw_def Let_def
        content_def fits_def bkey_def myproc_def
        intro!: arg_cong [where f = "\<lambda>x. s\<lparr>bufs := (bufs s)[b := x]\<rparr>"] buf.equality)
qed

lemma bread_spec:
  assumes ok: "cache_ok s" and nb: "\<not> blocked s n" and o: "pins s n + 1 \<noteq> 0"
    and fr: "pins s n \<noteq> 0 \<or> 0 < nfree s"
  shows "\<exists>b s'. bread ROOTDEV n s = Ret (b, s') \<and> cache_ok s' \<and> held s' b n \<and>
    (\<forall>c m. held s c m \<longrightarrow> held s' c m) \<and>
    cabs s' = (cabs s)\<lparr>cv_pins := (pins s)(n := pins s n + 1), cv_blocked := (blocked s)(n := True),
      cv_free := nfree s - (if pins s n = 0 then 1 else 0)\<rparr>"
proof -
  obtain b x where r: "bread ROOTDEV n s = Ret (b, s\<lparr>bufs := (bufs s)[b := x]\<rparr>)"
    and b: "b < length (bufs s)" and f: "fits s b x" and l: "\<not> sl_locked (b_lock (bufs s ! b))"
    and x: "x = \<lparr>b_valid = True, b_dev = ROOTDEV, b_blockno = n,
         b_lock = \<lparr>sl_locked = True, sl_pid = p_pid (myproc s)\<rparr>, b_refcnt = pins s n + 1,
         b_data = content s n\<rparr>"
    and z: "b_refcnt (bufs s ! b) = 0 \<longleftrightarrow> pins s n = 0"
    using bread_state [OF assms] by (elim exE conjE) (rule that)
  define s' where "s' = s\<lparr>bufs := (bufs s)[b := x]\<rparr>"
  have bo: "buf_ok (disk s) x" using o by (simp add: x buf_ok_def)
  have ok': "cache_ok s'" unfolding s'_def by (rule cache_ok_set [OF ok b bo f])
  have h: "held s' b n" using b o by (simp add: held_def s'_def x bkey_def holdingsleep_def myproc_def)
  have hs: "held s' c m" if "held s c m" for c m
    using that l by (cases "c = b") (auto simp: held_def s'_def holdingsleep_def myproc_def)
  have nf: "nfree s' = nfree s - (if pins s n = 0 then 1 else 0)"
    using nfree_set [OF b, of x] z o by (simp add: s'_def x split: if_splits)
  have k: "bkey x = rkey n" by (simp add: x bkey_def)
  have "cabs s' = (cabs s)\<lparr>cv_pins := (pins s)(n := pins s n + 1), cv_blocked := (blocked s)(n := True),
      cv_free := nfree s - (if pins s n = 0 then 1 else 0)\<rparr>"
    unfolding cabs_set [OF ok b bo f k s'_def] nf by (simp add: x cabs_def)
  then show ?thesis using r ok' h hs unfolding s'_def by blast
qed


text \<open>A change to the buffer that the process holds.\<close>

lemma held_set:
  assumes ok: "cache_ok s" and h: "held s b n" and k: "bkey x = rkey n"
    and bo: "buf_ok (disk s) x" and s': "s' = s\<lparr>bufs := (bufs s)[b := x]\<rparr>"
  shows "cache_ok s'" "m \<noteq> n \<Longrightarrow> held s c m \<Longrightarrow> held s' c m"
    "b_valid x \<Longrightarrow> b_lock x = b_lock (bufs s ! b) \<Longrightarrow> b_refcnt x \<noteq> 0 \<Longrightarrow> held s c m \<Longrightarrow> held s' c m"
    "b_valid x \<Longrightarrow> cabs s' = (cabs s)\<lparr>
       cv_content := (content s)(n := b_data x), cv_pins := (pins s)(n := b_refcnt x),
       cv_blocked := (blocked s)(n := sl_locked (b_lock x)),
       cv_free := nfree s + (if b_refcnt x = 0 then 1 else 0)\<rparr>"
proof -
  have b: "b < length (bufs s)" "bkey (bufs s ! b) = rkey n" "b_refcnt (bufs s ! b) \<noteq> 0"
    using h by (simp_all add: held_def)
  have f: "fits s b x" using b k by (simp add: fits_def)
  show "cache_ok s'" unfolding s' by (rule cache_ok_set [OF ok b(1) bo f])
  show "m \<noteq> n \<Longrightarrow> held s c m \<Longrightarrow> held s' c m"
    using b by (cases "c = b") (auto simp: held_def s' holdingsleep_def myproc_def)
  show "b_valid x \<Longrightarrow> b_lock x = b_lock (bufs s ! b) \<Longrightarrow> b_refcnt x \<noteq> 0 \<Longrightarrow> held s c m \<Longrightarrow> held s' c m"
    using b k by (cases "c = b") (auto simp: held_def s' holdingsleep_def myproc_def)
  have nf: "nfree s' = nfree s + (if b_refcnt x = 0 then 1 else 0)"
    using nfree_set [OF b(1), of x] b(3) by (simp add: s')
  show "cabs s' = (cabs s)\<lparr>
       cv_content := (content s)(n := b_data x), cv_pins := (pins s)(n := b_refcnt x),
       cv_blocked := (blocked s)(n := sl_locked (b_lock x)),
       cv_free := nfree s + (if b_refcnt x = 0 then 1 else 0)\<rparr>" if "b_valid x"
    unfolding cabs_set [OF ok b(1) bo f k s'] nf using that by simp
qed

lemma heldD:
  assumes "cache_ok s" "held s b n"
  shows "b_valid (bufs s ! b)" "bkey (bufs s ! b) = rkey n" "b_dev (bufs s ! b) = ROOTDEV"
    "b_blockno (bufs s ! b) = n" "b_refcnt (bufs s ! b) = pins s n" "b_data (bufs s ! b) = content s n"
    "sl_locked (b_lock (bufs s ! b))" "pins s n \<noteq> 0" "holdingsleep (b_lock (bufs s ! b)) s"
    "b < length (bufs s)"
  using held_views [OF assms] assms(2) by (auto simp: held_def bkey_def holdingsleep_def)

lemma put_data_spec:
  assumes ok: "cache_ok s" and h: "held s b n" and s': "s' = buf_upd b (\<lambda>x. x\<lparr>b_data := d\<rparr>) s"
  shows "cache_ok s'" "held s c m \<Longrightarrow> held s' c m"
    "cabs s' = (cabs s)\<lparr>cv_content := (content s)(n := d)\<rparr>"
proof -
  note hd = heldD [OF ok h]
  let ?x = "(bufs s ! b)\<lparr>b_data := d\<rparr>"
  have k: "bkey ?x = rkey n" using hd by (simp add: bkey_def)
  have bo: "buf_ok (disk s) ?x" using hd by (simp add: buf_ok_def)
  note st = held_set [OF ok h k bo s' [unfolded buf_upd_def]]
  show "cache_ok s'" by (rule st(1))
  show "held s c m \<Longrightarrow> held s' c m" using hd by (intro st(3)) simp_all
  have "blocked s n" using hd by (rule_tac held_views [OF ok h])
  then show "cabs s' = (cabs s)\<lparr>cv_content := (content s)(n := d)\<rparr>"
    using st(4) hd by (simp add: cabs_def fun_upd_idem)
qed

lemma bunpin_spec:
  assumes ok: "cache_ok s" and h: "held s b n" and p: "pins s n \<noteq> 1" and s': "s' = bunpin b s"
  shows "cache_ok s'" "held s c m \<Longrightarrow> held s' c m"
    "cabs s' = (cabs s)\<lparr>cv_pins := (pins s)(n := pins s n - 1)\<rparr>"
proof -
  note hd = heldD [OF ok h]
  let ?x = "(bufs s ! b)\<lparr>b_refcnt := b_refcnt (bufs s ! b) - 1\<rparr>"
  have k: "bkey ?x = rkey n" using hd by (simp add: bkey_def)
  have r: "b_refcnt ?x \<noteq> 0" using hd p by simp
  have bo: "buf_ok (disk s) ?x" using hd r by (simp add: buf_ok_def)
  note st = held_set [OF ok h k bo s' [unfolded bunpin_def buf_upd_def]]
  show "cache_ok s'" by (rule st(1))
  show "held s c m \<Longrightarrow> held s' c m" using hd r by (intro st(3)) simp_all
  have "blocked s n" using hd by (rule_tac held_views [OF ok h])
  then show "cabs s' = (cabs s)\<lparr>cv_pins := (pins s)(n := pins s n - 1)\<rparr>"
    using st(4) hd r by (simp add: cabs_def fun_upd_idem)
qed

lemma cache_same:
  assumes ok: "cache_ok s" and "cur s' < length (procs s')" "distinct (lru s')" "set (lru s') = set (lru s)"
    and b: "bufs s' = bufs s" and d: "\<forall>i<length (bufs s). buf_ok (disk s') (bufs s ! i)"
  shows "cache_ok s'" "cached s' n = cached s n"
proof -
  show ok': "cache_ok s'" using assms cache_okD [OF ok] by (simp add: cache_ok_def)
  show "cached s' n = cached s n" by (rule cached_cong [OF ok ok' b])
qed

lemma bwrite_spec:
  assumes ok: "cache_ok s" and h: "held s b n"
  shows "\<exists>s'. bwrite b s = Ret s' \<and> cache_ok s' \<and> (\<forall>c m. held s c m \<longrightarrow> held s' c m) \<and>
    cabs s' = (cabs s)\<lparr>cv_disk := (disk s)(n := content s n), cv_writes := dwrites s @ [(n, content s n)]\<rparr>"
proof -
  note hd = heldD [OF ok h]
  define s' where "s' = s\<lparr>disk := (disk s)(n := content s n), dwrites := dwrites s @ [(n, content s n)]\<rparr>"
  have r: "bwrite b s = Ret s'" using hd by (simp add: bwrite_def disk_rw_def s'_def)
  have bo: "buf_ok (disk s') (bufs s ! i)" if i: "i < length (bufs s)" for i
  proof (cases "i = b")
    case True
    then show ?thesis using hd by (simp add: buf_ok_def)
  next
    case False
    then have "bkey (bufs s ! i) \<noteq> rkey n"
      using keys_uniqD [OF cache_okD(4) [OF ok] i hd(10)] hd by (auto simp: bkey_def)
    then show ?thesis using cache_okD(5) [OF ok i] by (auto simp: buf_ok_def s'_def bkey_def)
  qed
  have s: "cur s' < length (procs s')" "distinct (lru s')" "set (lru s') = set (lru s)" "bufs s' = bufs s"
    using cache_okD [OF ok] by (simp_all add: s'_def)
  have "\<forall>i<length (bufs s). buf_ok (disk s') (bufs s ! i)" using bo by blast
  note c = cache_same [OF ok s this]
  have cn: "cached s n = Some b" by (rule held_cached [OF ok h])
  have "content s' = content s"
  proof
    fix m show "content s' m = content s m"
      unfolding content_def c(2) s(4) using hd cn
      by (cases "m = n") (auto simp: s'_def split: option.splits)
  qed
  moreover have "pins s' = pins s" "blocked s' = blocked s"
    unfolding pins_def blocked_def c(2) s(4) fun_eq_iff by simp_all
  ultimately have "cabs s' = (cabs s)\<lparr>cv_disk := (disk s)(n := content s n), cv_writes := dwrites s @ [(n, content s n)]\<rparr>"
    by (simp add: cabs_def s(4)) (simp add: s'_def)
  moreover have "held s c m \<longrightarrow> held s' c m" for c m
    by (simp add: held_def s'_def holdingsleep_def myproc_def)
  ultimately show ?thesis using r c(1) by blast
qed

lemma brelse_spec:
  assumes ok: "cache_ok s" and h: "held s b n" and cl: "pins s n = 1 \<longrightarrow> content s n = disk s n"
  shows "\<exists>s'. brelse b s = Ret s' \<and> cache_ok s' \<and> (\<forall>c m. m \<noteq> n \<longrightarrow> held s c m \<longrightarrow> held s' c m) \<and>
    cabs s' = (cabs s)\<lparr>cv_pins := (pins s)(n := pins s n - 1), cv_blocked := (blocked s)(n := False),
      cv_free := nfree s + (if pins s n = 1 then 1 else 0)\<rparr>"
proof -
  note hd = heldD [OF ok h]
  define x where "x = (bufs s ! b)\<lparr>b_lock := \<lparr>sl_locked = False, sl_pid = 0\<rparr>, b_refcnt := pins s n - 1\<rparr>"
  define t where "t = s\<lparr>bufs := (bufs s)[b := x]\<rparr>"
  define s' where "s' = (wakeup (ChBuf b) t)\<lparr>lru := (if pins s n = 1 then b # remove1 b (lru s) else lru s)\<rparr>"
  have k: "bkey x = rkey n" using hd by (simp add: bkey_def x_def)
  have bo: "buf_ok (disk s) x" using hd cl by (simp add: buf_ok_def x_def)
  note st = held_set [OF ok h k bo t_def]
  have r: "brelse b s = Ret s'"
    using hd by (simp add: brelse_def releasesleep_def buf_upd_def wakeup_def Let_def s'_def t_def x_def)
  have ws: "bufs s' = bufs t" "disk s' = disk t" "dwrites s' = dwrites t" "logs s' = logs t"
    "lru s' = (if pins s n = 1 then b # remove1 b (lru s) else lru s)"
    by (simp_all add: s'_def wakeup_def)
  have cur: "cur t < length (procs t)" using cache_okD(1) [OF st(1)] .
  have mp: "myproc s' = myproc t" using cur by (simp add: s'_def myproc_def nth_wakeup)
  have bl: "b \<in> set (lru s)" using cache_okD(3) [OF ok] hd by simp
  have l: "distinct (lru s')" "set (lru s') = set (lru t)"
    using cache_okD(2) [OF ok] bl by (auto simp: ws t_def)
  have c': "cur s' < length (procs s')" using cur by (simp add: s'_def)
  have bo': "\<forall>i<length (bufs t). buf_ok (disk s') (bufs t ! i)"
    using cache_okD(5) [OF st(1)] by (simp add: ws)
  note c = cache_same [OF st(1) c' l ws(1) bo']
  have "content s' = content t" "pins s' = pins t" "blocked s' = blocked t"
    unfolding content_def pins_def blocked_def c(2) ws(1,2) fun_eq_iff by simp_all
  then have "cabs s' = cabs t" by (simp add: cabs_def ws)
  also have "\<dots> = (cabs s)\<lparr>cv_pins := (pins s)(n := pins s n - 1), cv_blocked := (blocked s)(n := False),
      cv_free := nfree s + (if pins s n = 1 then 1 else 0)\<rparr>"
    using st(4) hd by (simp add: x_def cabs_def fun_upd_idem)
  finally have cv: "cabs s' = \<dots>" .
  have hh: "held s' c m = held t c m" for c m by (simp add: held_def holdingsleep_def ws mp)
  have "m \<noteq> n \<longrightarrow> held s c m \<longrightarrow> held s' c m" for c m using st(2) [of m c] hh [of c m] by simp
  then show ?thesis using r c(1) cv by blast
qed

section \<open>Refinement\<close>

text \<open>What a client does with a buffer between \<^verbatim>\<open>bread\<close> and \<^verbatim>\<open>brelse\<close>, on the code and on
  the abstract cache.\<close>

datatype bact = Modify "byte list" | Flush

fun act :: "nat \<Rightarrow> bact \<Rightarrow> 'a blk_scheme \<Rightarrow> 'a blk_scheme res" where
  "act b (Modify d) s = Ret (buf_upd b (\<lambda>x. x\<lparr>b_data := d\<rparr>) s)"
| "act b Flush s = bwrite b s"

definition session :: "u32 \<Rightarrow> bact list \<Rightarrow> 'a blk_scheme \<Rightarrow> 'a blk_scheme res" where
  "session n as s = rbind (bread ROOTDEV n s) (\<lambda>(b, s). rbind (rfold (act b) as s) (brelse b))"

fun abs_act :: "u32 \<Rightarrow> bact \<Rightarrow> cview \<Rightarrow> cview" where
  "abs_act n (Modify d) v = v\<lparr>cv_content := (cv_content v)(n := d)\<rparr>"
| "abs_act n Flush v = v\<lparr>cv_disk := (cv_disk v)(n := cv_content v n),
     cv_writes := cv_writes v @ [(n, cv_content v n)]\<rparr>"

lemma act_refines:
  assumes "cache_ok s" "held s b n"
  shows "\<exists>s'. act b a s = Ret s' \<and> cache_ok s' \<and> held s' b n \<and> cabs s' = abs_act n a (cabs s)"
proof (cases a)
  case (Modify d)
  note p = put_data_spec [OF assms, where d = d, OF refl]
  show ?thesis using p(1) p(2) [OF assms(2)] p(3) by (simp add: Modify)
next
  case Flush
  show ?thesis using bwrite_spec [OF assms] assms(2) by (auto simp: Flush)
qed

lemma acts_refine:
  assumes "cache_ok s" "held s b n"
  shows "\<exists>s'. rfold (act b) as s = Ret s' \<and> cache_ok s' \<and> held s' b n \<and> cabs s' = fold (abs_act n) as (cabs s)"
  using assms
proof (induction as arbitrary: s)
  case (Cons a as)
  then obtain t where "act b a s = Ret t" "cache_ok t" "held t b n" "cabs t = abs_act n a (cabs s)"
    using act_refines by blast
  then show ?case using Cons.IH [of t] by auto
qed simp

text \<open>Actions on a buffer do not see how often it is referenced.\<close>

lemma abs_act_pins:
  "fold (abs_act n) as (v\<lparr>cv_pins := p, cv_blocked := l, cv_free := f\<rparr>) =
   (fold (abs_act n) as v)\<lparr>cv_pins := p, cv_blocked := l, cv_free := f\<rparr>"
proof (induction as arbitrary: v)
  case (Cons a as)
  have "abs_act n a (v\<lparr>cv_pins := p, cv_blocked := l, cv_free := f\<rparr>) =
      (abs_act n a v)\<lparr>cv_pins := p, cv_blocked := l, cv_free := f\<rparr>"
    by (cases v; cases a) simp_all
  then show ?case using Cons [of "abs_act n a v"] by simp
qed simp

lemma abs_act_keeps [simp]:
  "cv_pins (fold (abs_act n) as v) = cv_pins v" "cv_blocked (fold (abs_act n) as v) = cv_blocked v"
  "cv_free (fold (abs_act n) as v) = cv_free v"
proof (induction as arbitrary: v)
  case (Cons a as)
  { case 1 show ?case using Cons(1) by (cases a) simp_all }
  { case 2 show ?case using Cons(2) by (cases a) simp_all }
  { case 3 show ?case using Cons(3) by (cases a) simp_all }
qed simp_all

end
