(* ===== verification/Logblock.thy ===== *)
theory Logblock
  imports Log Bcache
begin

text \<open>
  What the steps of \<^verbatim>\<open>log.c\<close> do to the abstract cache of \<open>Bcache\<close>: copying one block
  to the log (\<open>write_log_one\<close>), installing one block (\<open>install_one\<close>), writing and reading the
  header.  \<open>idle\<close> describes the cache when no buffer is locked and two can be recycled, which
  is what a step needs.
\<close>

section \<open>Definitions\<close>

definition idle :: "'a blk_scheme \<Rightarrow> bool" where
  "idle s \<longleftrightarrow> cache_ok s \<and> (\<forall>n. \<not> blocked s n) \<and> (\<forall>n. pins s n + 1 \<noteq> 0) \<and> 2 \<le> nfree s \<and>
     lg_dev (logs s) = ROOTDEV"

text \<open>The disk after a sequence of writes.\<close>

definition puts :: "(u32 \<times> byte list) list \<Rightarrow> (u32 \<Rightarrow> byte list) \<Rightarrow> u32 \<Rightarrow> byte list" where
  "puts ws d = foldl (\<lambda>d (n, x). d(n := x)) d ws"

definition home :: "'a blk_scheme \<Rightarrow> u32 list" where
  "home s = take (lh_n (lhead s)) (lh_block (lhead s))"

definition log_blk :: "'a blk_scheme \<Rightarrow> nat \<Rightarrow> u32" where
  "log_blk s i = lg_start (logs s) + of_nat i + 1"

definition log_area :: "'a blk_scheme \<Rightarrow> u32 set" where
  "log_area s = insert (lg_start (logs s)) (log_blk s ` {0..<LOGBLOCKS})"

lemma puts_Nil [simp]: "puts [] d = d"
  by (simp add: puts_def)

lemma puts_Cons [simp]: "puts ((n, x) # ws) d = puts ws (d(n := x))"
  by (simp add: puts_def)

lemma puts_append [simp]: "puts (ws @ vs) d = puts vs (puts ws d)"
  by (simp add: puts_def)

lemma puts_other: "n \<notin> fst ` set ws \<Longrightarrow> puts ws d n = d n"
  by (induction ws rule: rev_induct) auto

lemma puts_at: "distinct (map fst ws) \<Longrightarrow> (n, x) \<in> set ws \<Longrightarrow> puts ws d n = x"
proof (induction ws rule: rev_induct)
  case (snoc w ws)
  then show ?case by (cases w) (auto simp: image_iff)
qed simp

lemma idleD:
  assumes "idle s"
  shows "cache_ok s" "\<not> blocked s n" "pins s n + 1 \<noteq> 0" "2 \<le> nfree s" "lg_dev (logs s) = ROOTDEV"
  using assms by (auto simp: idle_def)

lemma log_blk_inj: "i < LOGBLOCKS \<Longrightarrow> j < LOGBLOCKS \<Longrightarrow> log_blk s i = log_blk s j \<longleftrightarrow> i = j"
proof -
  assume "i < LOGBLOCKS" "j < LOGBLOCKS"
  then have "of_nat i = (of_nat j :: u32) \<longleftrightarrow> i = j" by (simp add: word_of_nat_eq_iff take_bit_nat_eq_self)
  then show ?thesis by (simp add: log_blk_def)
qed

lemma log_blk_start: "i < LOGBLOCKS \<Longrightarrow> log_blk s i \<noteq> lg_start (logs s)"
proof
  assume i: "i < LOGBLOCKS" and "log_blk s i = lg_start (logs s)"
  then have "of_nat (Suc i) = (0 :: u32)" by (simp add: log_blk_def algebra_simps)
  then show False using i by (simp only: word_of_nat_eq_0_iff) (auto dest: dvd_imp_le)
qed

section \<open>Pairs of buffers\<close>

lemma read_two:
  assumes i: "idle s" and ne: "l \<noteq> d"
  shows "\<exists>a b s1 s'. bread ROOTDEV l s = Ret (a, s1) \<and> logs s1 = logs s \<and>
    bread ROOTDEV d s1 = Ret (b, s') \<and> cache_ok s' \<and> held s' a l \<and> held s' b d \<and>
    cabs s' = (cabs s)\<lparr>cv_pins := (pins s)(l := pins s l + 1, d := pins s d + 1),
      cv_blocked := (blocked s)(l := True, d := True),
      cv_free := nfree s - (if pins s l = 0 then 1 else 0) - (if pins s d = 0 then 1 else 0)\<rparr>"
proof -
  note D = idleD [OF i]
  have "pins s l \<noteq> 0 \<or> 0 < nfree s" using D(4) by simp
  from bread_spec [OF D(1-3) this]
  obtain a s1 where 1: "bread ROOTDEV l s = Ret (a, s1)" "cache_ok s1" "held s1 a l"
    and c1: "cabs s1 = (cabs s)\<lparr>cv_pins := (pins s)(l := pins s l + 1), cv_blocked := (blocked s)(l := True),
      cv_free := nfree s - (if pins s l = 0 then 1 else 0)\<rparr>"
    by (elim exE conjE) (rule that)
  have v1: "pins s1 = (pins s)(l := pins s l + 1)" "blocked s1 = (blocked s)(l := True)"
    "nfree s1 = nfree s - (if pins s l = 0 then 1 else 0)" "logs s1 = logs s"
    using c1 by (simp_all add: cabs_def)
  have "\<not> blocked s1 d" "pins s1 d + 1 \<noteq> 0" "pins s1 d \<noteq> 0 \<or> 0 < nfree s1"
    using D ne by (auto simp: v1)
  from bread_spec [OF 1(2) this]
  obtain b s2 where 2: "bread ROOTDEV d s1 = Ret (b, s2)" "cache_ok s2" "held s2 b d"
    "\<forall>c m. held s1 c m \<longrightarrow> held s2 c m"
    and c2: "cabs s2 = (cabs s1)\<lparr>cv_pins := (pins s1)(d := pins s1 d + 1), cv_blocked := (blocked s1)(d := True),
      cv_free := nfree s1 - (if pins s1 d = 0 then 1 else 0)\<rparr>"
    by (elim exE conjE) (rule that)
  have "cabs s2 = (cabs s)\<lparr>cv_pins := (pins s)(l := pins s l + 1, d := pins s d + 1),
      cv_blocked := (blocked s)(l := True, d := True),
      cv_free := nfree s - (if pins s l = 0 then 1 else 0) - (if pins s d = 0 then 1 else 0)\<rparr>"
    unfolding c2 c1 v1 using ne by simp
  moreover have "held s2 a l" using 1(3) 2(4) by blast
  ultimately show ?thesis using 1(1) v1(4) 2(1-3) by blast
qed

text \<open>Copying a block from one buffer to another and writing it.\<close>

lemma copy_write:
  assumes ok: "cache_ok s" and a: "held s a l" and b: "held s b d"
  shows "\<exists>s'. bwrite b (buf_upd b (\<lambda>x. x\<lparr>b_data := b_data (bufs s ! a)\<rparr>) s) = Ret s' \<and>
    cache_ok s' \<and> held s' a l \<and> held s' b d \<and>
    cabs s' = (cabs s)\<lparr>cv_content := (content s)(d := content s l), cv_disk := (disk s)(d := content s l),
      cv_writes := dwrites s @ [(d, content s l)]\<rparr>"
proof -
  define t where "t = buf_upd b (\<lambda>x. x\<lparr>b_data := b_data (bufs s ! a)\<rparr>) s"
  have e: "b_data (bufs s ! a) = content s l" by (rule heldD(6) [OF ok a])
  note p = put_data_spec [OF ok b t_def, unfolded e]
  have v: "content t = (content s)(d := content s l)" "disk t = disk s" "dwrites t = dwrites s"
    using p(3) by (simp_all add: cabs_def)
  from bwrite_spec [OF p(1) p(2) [OF b]]
  obtain s' where s': "bwrite b t = Ret s'" "cache_ok s'" "\<forall>c m. held t c m \<longrightarrow> held s' c m"
    and c: "cabs s' = (cabs t)\<lparr>cv_disk := (disk t)(d := content t d), cv_writes := dwrites t @ [(d, content t d)]\<rparr>"
    by (elim exE conjE) (rule that)
  have "cabs s' = (cabs s)\<lparr>cv_content := (content s)(d := content s l), cv_disk := (disk s)(d := content s l),
      cv_writes := dwrites s @ [(d, content s l)]\<rparr>"
    unfolding c p(3) v by simp
  moreover have "held s' a l" "held s' b d" using s'(3) p(2) [OF a] p(2) [OF b] by blast+
  ultimately show ?thesis using s'(1,2) unfolding t_def by blast
qed

lemma release_two:
  assumes ok: "cache_ok s" and a: "held s a l" and b: "held s b d" and ne: "l \<noteq> d"
    and cl: "pins s l = 1 \<longrightarrow> content s l = disk s l" "pins s d = 1 \<longrightarrow> content s d = disk s d"
  shows "\<exists>s1 s'. brelse a s = Ret s1 \<and> brelse b s1 = Ret s' \<and> cache_ok s' \<and>
    cabs s' = (cabs s)\<lparr>cv_pins := (pins s)(l := pins s l - 1, d := pins s d - 1),
      cv_blocked := (blocked s)(l := False, d := False),
      cv_free := nfree s + (if pins s l = 1 then 1 else 0) + (if pins s d = 1 then 1 else 0)\<rparr>"
proof -
  from brelse_spec [OF ok a cl(1)]
  obtain s1 where 1: "brelse a s = Ret s1" "cache_ok s1" "\<forall>c m. m \<noteq> l \<longrightarrow> held s c m \<longrightarrow> held s1 c m"
    and c1: "cabs s1 = (cabs s)\<lparr>cv_pins := (pins s)(l := pins s l - 1), cv_blocked := (blocked s)(l := False),
      cv_free := nfree s + (if pins s l = 1 then 1 else 0)\<rparr>"
    by (elim exE conjE) (rule that)
  have v1: "pins s1 = (pins s)(l := pins s l - 1)" "blocked s1 = (blocked s)(l := False)"
    "nfree s1 = nfree s + (if pins s l = 1 then 1 else 0)" "content s1 = content s" "disk s1 = disk s"
    using c1 by (simp_all add: cabs_def)
  have h: "held s1 b d" using 1(3) b ne [symmetric] by blast
  have "pins s1 d = 1 \<longrightarrow> content s1 d = disk s1 d" using cl(2) ne by (simp add: v1)
  from brelse_spec [OF 1(2) h this]
  obtain s2 where 2: "brelse b s1 = Ret s2" "cache_ok s2"
    and c2: "cabs s2 = (cabs s1)\<lparr>cv_pins := (pins s1)(d := pins s1 d - 1), cv_blocked := (blocked s1)(d := False),
      cv_free := nfree s1 + (if pins s1 d = 1 then 1 else 0)\<rparr>"
    by (elim exE conjE) (rule that)
  have "cabs s2 = (cabs s)\<lparr>cv_pins := (pins s)(l := pins s l - 1, d := pins s d - 1),
      cv_blocked := (blocked s)(l := False, d := False),
      cv_free := nfree s + (if pins s l = 1 then 1 else 0) + (if pins s d = 1 then 1 else 0)\<rparr>"
    unfolding c2 c1 v1 using ne by simp
  then show ?thesis using 1(1) 2 by blast
qed

section \<open>One block of the log\<close>

lemma idle_views:
  assumes "idle s" "cache_ok s'" "\<And>n. \<not> blocked s' n" "\<And>n. pins s' n + 1 \<noteq> 0" "nfree s \<le> nfree s'"
    "logs s' = logs s"
  shows "idle s'"
  using assms by (auto simp: idle_def)

lemma read_two_copy:
  assumes i: "idle s" and ne: "l \<noteq> d" and x: "x = (if to then d else l)" "y = (if to then l else d)"
  shows "\<exists>a b s1 s2 s3. bread ROOTDEV l s = Ret (a, s1) \<and> logs s1 = logs s \<and>
    bread ROOTDEV d s1 = Ret (b, s2) \<and> logs s2 = logs s \<and>
    (let p = (if to then b else a); q = (if to then a else b) in
     bwrite q (buf_upd q (\<lambda>x. x\<lparr>b_data := b_data (bufs s2 ! p)\<rparr>) s2) = Ret s3) \<and>
    cache_ok s3 \<and> held s3 a l \<and> held s3 b d \<and>
    cabs s3 = (cabs s)\<lparr>cv_pins := (pins s)(l := pins s l + 1, d := pins s d + 1),
      cv_blocked := (blocked s)(l := True, d := True),
      cv_free := nfree s - (if pins s l = 0 then 1 else 0) - (if pins s d = 0 then 1 else 0),
      cv_content := (content s)(y := content s x), cv_disk := (disk s)(y := content s x),
      cv_writes := dwrites s @ [(y, content s x)]\<rparr>"
proof -
  from read_two [OF i ne]
  obtain a b s1 s2 where 2: "bread ROOTDEV l s = Ret (a, s1)" "logs s1 = logs s"
      "bread ROOTDEV d s1 = Ret (b, s2)" "cache_ok s2" "held s2 a l" "held s2 b d"
    and c2: "cabs s2 = (cabs s)\<lparr>cv_pins := (pins s)(l := pins s l + 1, d := pins s d + 1),
      cv_blocked := (blocked s)(l := True, d := True),
      cv_free := nfree s - (if pins s l = 0 then 1 else 0) - (if pins s d = 0 then 1 else 0)\<rparr>"
    by (elim exE conjE) (rule that)
  define p q where "p = (if to then b else a)" and "q = (if to then a else b)"
  have "held s2 p x" "held s2 q y" using 2 by (simp_all add: p_def q_def x)
  from copy_write [OF 2(4) this]
  obtain s3 where 3: "bwrite q (buf_upd q (\<lambda>x. x\<lparr>b_data := b_data (bufs s2 ! p)\<rparr>) s2) = Ret s3"
      "cache_ok s3" "held s3 p x" "held s3 q y"
    and c3: "cabs s3 = (cabs s2)\<lparr>cv_content := (content s2)(y := content s2 x),
      cv_disk := (disk s2)(y := content s2 x), cv_writes := dwrites s2 @ [(y, content s2 x)]\<rparr>"
    by (elim exE conjE) (rule that)
  have v2: "content s2 = content s" "disk s2 = disk s" "dwrites s2 = dwrites s" "logs s2 = logs s"
    using c2 by (simp_all add: cabs_def)
  have h: "held s3 a l" "held s3 b d" using 3 by (cases to; simp add: p_def q_def x)+
  have "cabs s3 = (cabs s)\<lparr>cv_pins := (pins s)(l := pins s l + 1, d := pins s d + 1),
      cv_blocked := (blocked s)(l := True, d := True),
      cv_free := nfree s - (if pins s l = 0 then 1 else 0) - (if pins s d = 0 then 1 else 0),
      cv_content := (content s)(y := content s x), cv_disk := (disk s)(y := content s x),
      cv_writes := dwrites s @ [(y, content s x)]\<rparr>"
    unfolding c3 c2 v2 by simp
  then show ?thesis using 2(1-3) v2(4) 3(1,2) h unfolding p_def q_def Let_def by blast
qed

lemma write_log_one_spec:
  assumes i: "idle s" and l: "l = log_blk s k" and d: "d = lh_block (lhead s) ! k" and ne: "l \<noteq> d"
  shows "\<exists>s'. write_log_one k s = Ret s' \<and> idle s' \<and>
    cabs s' = (cabs s)\<lparr>cv_content := (content s)(l := content s d), cv_disk := (disk s)(l := content s d),
      cv_writes := dwrites s @ [(l, content s d)]\<rparr>"
proof -
  note D = idleD [OF i]
  from read_two_copy [OF i ne, of _ True, simplified Let_def if_True, OF refl refl]
  obtain a b s1 s2 s3 where 3: "bread ROOTDEV l s = Ret (a, s1)" "logs s1 = logs s"
    "bread ROOTDEV d s1 = Ret (b, s2)" "logs s2 = logs s"
    "bwrite a (buf_upd a (\<lambda>x. x\<lparr>b_data := b_data (bufs s2 ! b)\<rparr>) s2) = Ret s3"
    "cache_ok s3" "held s3 a l" "held s3 b d"
    and c3: "cabs s3 = (cabs s)\<lparr>cv_pins := (pins s)(l := pins s l + 1, d := pins s d + 1),
      cv_blocked := (blocked s)(l := True, d := True),
      cv_free := nfree s - (if pins s l = 0 then 1 else 0) - (if pins s d = 0 then 1 else 0),
      cv_content := (content s)(l := content s d), cv_disk := (disk s)(l := content s d),
      cv_writes := dwrites s @ [(l, content s d)]\<rparr>"
    by (elim exE conjE) (rule that)
  have v3: "content s3 = (content s)(l := content s d)" "disk s3 = (disk s)(l := content s d)"
    "pins s3 = (pins s)(l := pins s l + 1, d := pins s d + 1)"
    "blocked s3 = (blocked s)(l := True, d := True)"
    "nfree s3 = nfree s - (if pins s l = 0 then 1 else 0) - (if pins s d = 0 then 1 else 0)"
    using c3 by (simp_all add: cabs_def)
  have "pins s3 d = 1 \<longrightarrow> content s3 d = disk s3 d" "pins s3 l = 1 \<longrightarrow> content s3 l = disk s3 l"
    using content_unpinned [OF D(1), of d] ne by (auto simp: v3)
  from release_two [OF 3(6,8,7) ne [symmetric] this]
  obtain s4 s5 where 5: "brelse b s3 = Ret s4" "brelse a s4 = Ret s5" "cache_ok s5"
    and c5: "cabs s5 = (cabs s3)\<lparr>cv_pins := (pins s3)(d := pins s3 d - 1, l := pins s3 l - 1),
      cv_blocked := (blocked s3)(d := False, l := False),
      cv_free := nfree s3 + (if pins s3 d = 1 then 1 else 0) + (if pins s3 l = 1 then 1 else 0)\<rparr>"
    by (elim exE conjE) (rule that)
  have f: "(pins s3)(d := pins s3 d - 1, l := pins s3 l - 1) = pins s"
    "(blocked s3)(d := False, l := False) = blocked s"
    "nfree s3 + (if pins s3 d = 1 then 1 else 0) + (if pins s3 l = 1 then 1 else 0) = nfree s"
    using D ne by (auto simp: v3 fun_eq_iff)
  have c: "cabs s5 = (cabs s)\<lparr>cv_content := (content s)(l := content s d),
      cv_disk := (disk s)(l := content s d), cv_writes := dwrites s @ [(l, content s d)]\<rparr>"
    unfolding c5 f c3 by (simp add: cabs_def)
  have "idle s5" using 5(3) c by (intro idle_views [OF i]) (simp_all add: cabs_def D)
  moreover have "write_log_one k s = Ret s5"
    using 3 5 D(5) by (simp add: write_log_one_def log_blk_def Let_def l d)
  ultimately show ?thesis using c by blast
qed

lemma kprintf_views [simp]:
  "cabs (kprintf f xs s) = cabs s" "cache_ok (kprintf f xs s) = cache_ok s" "idle (kprintf f xs s) = idle s"
proof -
  note v = views_cong [of "kprintf f xs s" s, unfolded kprintf_def, simplified, folded kprintf_def]
  show "cabs (kprintf f xs s) = cabs s" "cache_ok (kprintf f xs s) = cache_ok s"
    by (simp_all add: cabs_def cache_ok_def v) (simp_all add: kprintf_def)
  then show "idle (kprintf f xs s) = idle s"
    by (simp add: idle_def v) (simp add: kprintf_def)
qed

text \<open>The block is pinned until it has been installed, except during recovery.\<close>

lemma unpin_when:
  assumes ok: "cache_ok s" and a: "held s a l" and b: "held s b d" and p: "r \<or> pins s d \<noteq> 1"
    and s': "s' = (if \<not> r then bunpin b s else s)"
  shows "cache_ok s'" "held s' a l" "held s' b d"
    "cabs s' = (cabs s)\<lparr>cv_pins := (if r then pins s else (pins s)(d := pins s d - 1))\<rparr>"
proof -
  have "cache_ok s' \<and> held s' a l \<and> held s' b d \<and>
    cabs s' = (cabs s)\<lparr>cv_pins := (if r then pins s else (pins s)(d := pins s d - 1))\<rparr>"
  proof (cases r)
    case True
    then show ?thesis using ok a b by (simp add: s' cabs_def)
  next
    case False
    then have "pins s d \<noteq> 1" using p by simp
    note u = bunpin_spec [OF ok b this refl]
    show ?thesis using False u(1) u(2) [OF a] u(2) [OF b] u(3) by (simp add: s')
  qed
  then show "cache_ok s'" "held s' a l" "held s' b d"
    "cabs s' = (cabs s)\<lparr>cv_pins := (if r then pins s else (pins s)(d := pins s d - 1))\<rparr>"
    by blast+
qed

lemma install_one_spec:
  assumes i: "idle s" and l: "l = log_blk s k" and d: "d = lh_block (lhead s) ! k" and ne: "l \<noteq> d"
    and p: "r \<or> pins s d \<noteq> 0"
  shows "\<exists>s'. install_one r k s = Ret s' \<and> idle s' \<and>
    cabs s' = (cabs s)\<lparr>cv_content := (content s)(d := content s l), cv_disk := (disk s)(d := content s l),
      cv_writes := dwrites s @ [(d, content s l)],
      cv_pins := (if r then pins s else (pins s)(d := pins s d - 1)),
      cv_free := nfree s + (if \<not> r \<and> pins s d = 1 then 1 else 0)\<rparr>"
proof -
  define t where "t = (if r then kprintf ''recovering tail %d dst %d'' [PInt (int k), PInt (sint d)] s else s)"
  have t: "idle t" "cabs t = cabs s" using i by (simp_all add: t_def)
  then have vt: "content t = content s" "disk t = disk s" "pins t = pins s" "blocked t = blocked s"
    "nfree t = nfree s" "dwrites t = dwrites s" "logs t = logs s" by (simp_all add: cabs_def)
  note D = idleD [OF i]
  from read_two_copy [OF t(1) ne, of _ False, simplified Let_def if_False, OF refl refl, unfolded vt t(2)]
  obtain a b s1 s2 s3 where 3: "bread ROOTDEV l t = Ret (a, s1)" "logs s1 = logs s"
    "bread ROOTDEV d s1 = Ret (b, s2)" "logs s2 = logs s"
    "bwrite b (buf_upd b (\<lambda>x. x\<lparr>b_data := b_data (bufs s2 ! a)\<rparr>) s2) = Ret s3"
    "cache_ok s3" "held s3 a l" "held s3 b d"
    and c3: "cabs s3 = (cabs s)\<lparr>cv_pins := (pins s)(l := pins s l + 1, d := pins s d + 1),
      cv_blocked := (blocked s)(l := True, d := True),
      cv_free := nfree s - (if pins s l = 0 then 1 else 0) - (if pins s d = 0 then 1 else 0),
      cv_content := (content s)(d := content s l), cv_disk := (disk s)(d := content s l),
      cv_writes := dwrites s @ [(d, content s l)]\<rparr>"
    by (elim exE conjE) (rule that)
  have p3: "pins s3 = (pins s)(l := pins s l + 1, d := pins s d + 1)" using c3 by (simp add: cabs_def)
  define s4 where "s4 = (if \<not> r then bunpin b s3 else s3)"
  have "r \<or> pins s3 d \<noteq> 1" using p by (simp add: p3)
  note u = unpin_when [OF 3(6-8) this s4_def]
  define q where "q = (if r then pins s d else pins s d - 1)"
  have v4: "content s4 = (content s)(d := content s l)" "disk s4 = (disk s)(d := content s l)"
    "blocked s4 = (blocked s)(l := True, d := True)"
    "pins s4 = (pins s)(l := pins s l + 1, d := q + 1)"
    "nfree s4 = nfree s - (if pins s l = 0 then 1 else 0) - (if pins s d = 0 then 1 else 0)"
    using u(4) c3 by (simp_all add: cabs_def p3 q_def)
  have "pins s4 l = 1 \<longrightarrow> content s4 l = disk s4 l" "pins s4 d = 1 \<longrightarrow> content s4 d = disk s4 d"
    using content_unpinned [OF D(1), of l] ne by (auto simp: v4)
  from release_two [OF u(1-3) ne this]
  obtain s5 s6 where 6: "brelse a s4 = Ret s5" "brelse b s5 = Ret s6" "cache_ok s6"
    and c6: "cabs s6 = (cabs s4)\<lparr>cv_pins := (pins s4)(l := pins s4 l - 1, d := pins s4 d - 1),
      cv_blocked := (blocked s4)(l := False, d := False),
      cv_free := nfree s4 + (if pins s4 l = 1 then 1 else 0) + (if pins s4 d = 1 then 1 else 0)\<rparr>"
    by (elim exE conjE) (rule that)
  have f: "(pins s4)(l := pins s4 l - 1, d := pins s4 d - 1) = (if r then pins s else (pins s)(d := pins s d - 1))"
    "(blocked s4)(l := False, d := False) = blocked s"
    "nfree s4 + (if pins s4 l = 1 then 1 else 0) + (if pins s4 d = 1 then 1 else 0) =
       nfree s + (if \<not> r \<and> pins s d = 1 then 1 else 0)"
    using D ne p by (auto simp: v4 q_def fun_eq_iff)
  have c: "cabs s6 = (cabs s)\<lparr>cv_content := (content s)(d := content s l), cv_disk := (disk s)(d := content s l),
      cv_writes := dwrites s @ [(d, content s l)],
      cv_pins := (if r then pins s else (pins s)(d := pins s d - 1)),
      cv_free := nfree s + (if \<not> r \<and> pins s d = 1 then 1 else 0)\<rparr>"
    unfolding c6 f u(4) c3 by (simp add: cabs_def)
  have "idle s6" using 6(3) c p by (intro idle_views [OF i]) (auto simp: cabs_def D)
  moreover have "install_one r k s = Ret s6"
    unfolding install_one_def Let_def d [symmetric] t_def [symmetric] vt(7)
    using 3 6 D(5) by (simp add: log_blk_def l d [symmetric] s4_def)
  ultimately show ?thesis using c by blast
qed

section \<open>The header block\<close>

definition put_blocks :: "logheader \<Rightarrow> byte list \<Rightarrow> nat \<Rightarrow> byte list" where
  "put_blocks h d m = foldl (\<lambda>d i. put32 d (4 + 4 * i) (lh_block h ! i)) d [0..<m]"

definition head_bytes :: "logheader \<Rightarrow> byte list \<Rightarrow> byte list" where
  "head_bytes h d = put_blocks h (put32 d 0 (of_nat (lh_n h))) (lh_n h)"

definition get_blocks :: "byte list \<Rightarrow> u32 list \<Rightarrow> nat \<Rightarrow> u32 list" where
  "get_blocks d bl m = foldl (\<lambda>bl i. bl[i := get32 d (4 + 4 * i)]) bl [0..<m]"

definition head_of :: "byte list \<Rightarrow> logheader \<Rightarrow> logheader" where
  "head_of d h = h\<lparr>lh_n := nat (sint (get32 d 0)), lh_block := get_blocks d (lh_block h) (nat (sint (get32 d 0)))\<rparr>"

lemma put_blocks_spec:
  assumes "length d = BSIZE" "m \<le> LOGBLOCKS"
  shows "length (put_blocks h d m) = BSIZE \<and> get32 (put_blocks h d m) 0 = get32 d 0 \<and>
    (\<forall>i<m. get32 (put_blocks h d m) (4 + 4 * i) = lh_block h ! i)"
  using assms(2)
proof (induction m)
  case 0
  then show ?case using assms(1) by (simp add: put_blocks_def)
next
  case (Suc m)
  then have IH: "length (put_blocks h d m) = BSIZE" "get32 (put_blocks h d m) 0 = get32 d 0"
    "\<forall>i<m. get32 (put_blocks h d m) (4 + 4 * i) = lh_block h ! i" by auto
  have S: "put_blocks h d (Suc m) = put32 (put_blocks h d m) (4 + 4 * m) (lh_block h ! m)"
    by (simp add: put_blocks_def)
  have "get32 (put_blocks h d (Suc m)) (4 + 4 * i) = lh_block h ! i" if "i < Suc m" for i
    using that Suc.prems IH by (simp add: S get32_put32 less_Suc_eq) (auto simp: get32_put32)
  then show ?case using Suc.prems IH by (simp add: S get32_put32)
qed

lemma head_bytes_spec:
  assumes "length d = BSIZE" "lh_n h \<le> LOGBLOCKS"
  shows "length (head_bytes h d) = BSIZE" "get32 (head_bytes h d) 0 = of_nat (lh_n h)"
    "i < lh_n h \<Longrightarrow> get32 (head_bytes h d) (4 + 4 * i) = lh_block h ! i"
  using put_blocks_spec [of "put32 d 0 (of_nat (lh_n h))" "lh_n h" h] assms
  by (simp_all add: head_bytes_def get32_put32)

lemma get_blocks_spec:
  "m \<le> length bl \<Longrightarrow> length (get_blocks d bl m) = length bl \<and>
   take m (get_blocks d bl m) = map (\<lambda>i. get32 d (4 + 4 * i)) [0..<m]"
proof (induction m)
  case 0
  then show ?case by (simp add: get_blocks_def)
next
  case (Suc m)
  have "get_blocks d bl (Suc m) = (get_blocks d bl m)[m := get32 d (4 + 4 * m)]"
    by (simp add: get_blocks_def)
  then show ?case using Suc by (simp add: take_Suc_conv_app_nth)
qed

text \<open>Reading back a header that was written.\<close>

lemma nat_sint_of_nat: "n \<le> LOGBLOCKS \<Longrightarrow> nat (sint (of_nat n :: u32)) = n"
  by (simp add: signed_of_nat signed_take_bit_int_eq_self)

lemma head_roundtrip:
  assumes "length d = BSIZE" "lh_n h \<le> LOGBLOCKS" "lh_n h \<le> length (lh_block h)" "length (lh_block g) = LOGBLOCKS"
  shows "lh_n (head_of (head_bytes h d) g) = lh_n h"
    "take (lh_n h) (lh_block (head_of (head_bytes h d) g)) = take (lh_n h) (lh_block h)"
proof -
  note hb = head_bytes_spec [OF assms(1,2)]
  show "lh_n (head_of (head_bytes h d) g) = lh_n h"
    using assms by (simp add: head_of_def hb nat_sint_of_nat)
  have "take (lh_n h) (lh_block (head_of (head_bytes h d) g)) = map (\<lambda>i. get32 (head_bytes h d) (4 + 4 * i)) [0..<lh_n h]"
    using get_blocks_spec [of "lh_n h" "lh_block g"] assms by (simp add: head_of_def hb nat_sint_of_nat)
  also have "\<dots> = take (lh_n h) (lh_block h)"
    using assms by (intro nth_equalityI) (simp_all add: hb)
  finally show "take (lh_n h) (lh_block (head_of (head_bytes h d) g)) = take (lh_n h) (lh_block h)" .
qed

lemma logs_views [simp]:
  "cabs (s\<lparr>logs := x\<rparr>) = (cabs s)\<lparr>cv_log := x\<rparr>" "cache_ok (s\<lparr>logs := x\<rparr>) = cache_ok s"
  "held (s\<lparr>logs := x\<rparr>) b n = held s b n"
proof -
  note v = views_cong [of "s\<lparr>logs := x\<rparr>" s, simplified]
  show "cabs (s\<lparr>logs := x\<rparr>) = (cabs s)\<lparr>cv_log := x\<rparr>" by (simp add: cabs_def v)
  show "cache_ok (s\<lparr>logs := x\<rparr>) = cache_ok s" by (simp add: cache_ok_def)
  show "held (s\<lparr>logs := x\<rparr>) b n = held s b n" by (simp add: held_def holdingsleep_def myproc_def)
qed

lemma release_read:
  assumes i: "idle s" and ok: "cache_ok t" and h: "held t b n" and cl: "content t n = disk t n"
    and v: "pins t = (pins s)(n := pins s n + 1)" "blocked t = (blocked s)(n := True)"
      "nfree t = nfree s - (if pins s n = 0 then 1 else 0)" "lg_dev (logs t) = ROOTDEV"
  shows "\<exists>s'. brelse b t = Ret s' \<and> idle s' \<and>
    cabs s' = (cabs t)\<lparr>cv_pins := pins s, cv_blocked := blocked s, cv_free := nfree s\<rparr>"
proof -
  note D = idleD [OF i]
  have "pins t n = 1 \<longrightarrow> content t n = disk t n" using cl by blast
  from brelse_spec [OF ok h this]
  obtain s' where s': "brelse b t = Ret s'" "cache_ok s'"
    and c: "cabs s' = (cabs t)\<lparr>cv_pins := (pins t)(n := pins t n - 1), cv_blocked := (blocked t)(n := False),
      cv_free := nfree t + (if pins t n = 1 then 1 else 0)\<rparr>"
    by (elim exE conjE) (rule that)
  have f: "(pins t)(n := pins t n - 1) = pins s" "(blocked t)(n := False) = blocked s"
    "nfree t + (if pins t n = 1 then 1 else 0) = nfree s"
    using D by (auto simp: v fun_eq_iff)
  have "idle s'" using s'(2) c v(4) D unfolding f by (auto simp: idle_def cabs_def)
  then show ?thesis using s' c unfolding f by blast
qed

lemma read_idle:
  assumes i: "idle s"
  shows "\<exists>b s'. bread ROOTDEV n s = Ret (b, s') \<and> cache_ok s' \<and> held s' b n \<and>
    cabs s' = (cabs s)\<lparr>cv_pins := (pins s)(n := pins s n + 1), cv_blocked := (blocked s)(n := True),
      cv_free := nfree s - (if pins s n = 0 then 1 else 0)\<rparr>"
proof -
  note D = idleD [OF i]
  have "pins s n \<noteq> 0 \<or> 0 < nfree s" using D(4) by simp
  from bread_spec [OF D(1-3) this] show ?thesis by blast
qed

lemma write_head_spec:
  assumes i: "idle s" and h: "h = lg_start (logs s)" and x: "x = head_bytes (lhead s) (content s h)"
  shows "\<exists>s'. write_head s = Ret s' \<and> idle s' \<and>
    cabs s' = (cabs s)\<lparr>cv_content := (content s)(h := x), cv_disk := (disk s)(h := x),
      cv_writes := dwrites s @ [(h, x)]\<rparr>"
proof -
  note D = idleD [OF i]
  from read_idle [OF i, of h]
  obtain b s1 where 1: "bread ROOTDEV h s = Ret (b, s1)" "cache_ok s1" "held s1 b h"
    and c1: "cabs s1 = (cabs s)\<lparr>cv_pins := (pins s)(h := pins s h + 1), cv_blocked := (blocked s)(h := True),
      cv_free := nfree s - (if pins s h = 0 then 1 else 0)\<rparr>"
    by (elim exE conjE) (rule that)
  have v1: "content s1 = content s" "logs s1 = logs s" "disk s1 = disk s" "dwrites s1 = dwrites s"
    using c1 by (simp_all add: cabs_def)
  define s2 where "s2 = buf_upd b (\<lambda>y. y\<lparr>b_data := x\<rparr>) s1"
  have e: "b_data (bufs s1 ! b) = content s h" "b < length (bufs s1)" using heldD [OF 1(2,3)] v1 by simp_all
  have two: "buf_upd b (\<lambda>y. y\<lparr>b_data := put_blocks (lhead s) (b_data y) (lh_n (lhead s))\<rparr>)
      (buf_upd b (\<lambda>y. y\<lparr>b_data := put32 (b_data y) 0 (of_nat (lh_n (lhead s)))\<rparr>) s1) = s2"
    using e by (simp add: buf_upd_def s2_def x head_bytes_def)
  note p = put_data_spec [OF 1(2,3) s2_def]
  have v2: "content s2 = (content s)(h := x)" "disk s2 = disk s" "dwrites s2 = dwrites s"
    using p(3) v1 by (simp_all add: cabs_def)
  from bwrite_spec [OF p(1) p(2) [OF 1(3)]]
  obtain s3 where 3: "bwrite b s2 = Ret s3" "cache_ok s3" "held s3 b h"
    and c3: "cabs s3 = (cabs s2)\<lparr>cv_disk := (disk s2)(h := content s2 h), cv_writes := dwrites s2 @ [(h, content s2 h)]\<rparr>"
    using p(2) [OF 1(3)] by (elim exE conjE) (rule that, assumption, assumption, blast)
  have v3: "content s3 h = disk s3 h" "pins s3 = (pins s)(h := pins s h + 1)" "blocked s3 = (blocked s)(h := True)"
      "nfree s3 = nfree s - (if pins s h = 0 then 1 else 0)" "lg_dev (logs s3) = ROOTDEV"
    using c3 p(3) c1 D(5) by (simp_all add: cabs_def)
  from release_read [OF i 3(2,3) v3]
  obtain s4 where 4: "brelse b s3 = Ret s4" "idle s4"
    and c4: "cabs s4 = (cabs s3)\<lparr>cv_pins := pins s, cv_blocked := blocked s, cv_free := nfree s\<rparr>"
    by (elim exE conjE) (rule that)
  have "cabs s4 = (cabs s)\<lparr>cv_content := (content s)(h := x), cv_disk := (disk s)(h := x),
      cv_writes := dwrites s @ [(h, x)]\<rparr>"
    unfolding c4 c3 p(3) c1 v2 v1 by (simp add: cabs_def)
  moreover have "write_head s = Ret s4"
    unfolding write_head_def Let_def put_blocks_def [symmetric]
    using 1(1) two 3(1) 4(1) D(5) v1 h by simp
  ultimately show ?thesis using 4(2) by blast
qed

lemma read_head_spec:
  assumes i: "idle s" and cl: "content s (lg_start (logs s)) = disk s (lg_start (logs s))"
  shows "\<exists>s'. read_head s = Ret s' \<and> idle s' \<and>
    cabs s' = (cabs s)\<lparr>cv_log := (logs s)\<lparr>lg_lh := head_of (disk s (lg_start (logs s))) (lhead s)\<rparr>\<rparr>"
proof -
  note D = idleD [OF i]
  define h where "h = lg_start (logs s)"
  from read_idle [OF i, of h]
  obtain b s1 where 1: "bread ROOTDEV h s = Ret (b, s1)" "cache_ok s1" "held s1 b h"
    and c1: "cabs s1 = (cabs s)\<lparr>cv_pins := (pins s)(h := pins s h + 1), cv_blocked := (blocked s)(h := True),
      cv_free := nfree s - (if pins s h = 0 then 1 else 0)\<rparr>"
    by (elim exE conjE) (rule that)
  have v1: "content s1 = content s" "logs s1 = logs s" using c1 by (simp_all add: cabs_def)
  have e: "b_data (bufs s1 ! b) = disk s h" using heldD(6) [OF 1(2,3)] v1 cl h_def by simp
  define s2 where "s2 = s1\<lparr>logs := (logs s)\<lparr>lg_lh := head_of (disk s h) (lhead s)\<rparr>\<rparr>"
  have 2: "cache_ok s2" "held s2 b h" "cabs s2 = (cabs s1)\<lparr>cv_log := (logs s)\<lparr>lg_lh := head_of (disk s h) (lhead s)\<rparr>\<rparr>"
    using 1 by (simp_all add: s2_def)
  have v2: "content s2 h = disk s2 h" "pins s2 = (pins s)(h := pins s h + 1)" "blocked s2 = (blocked s)(h := True)"
      "nfree s2 = nfree s - (if pins s h = 0 then 1 else 0)" "lg_dev (logs s2) = ROOTDEV"
    using 2(3) c1 D(5) cl h_def by (simp_all add: cabs_def)
  from release_read [OF i 2(1,2) v2]
  obtain s3 where 3: "brelse b s2 = Ret s3" "idle s3"
    and c3: "cabs s3 = (cabs s2)\<lparr>cv_pins := pins s, cv_blocked := blocked s, cv_free := nfree s\<rparr>"
    by (elim exE conjE) (rule that)
  have "cabs s3 = (cabs s)\<lparr>cv_log := (logs s)\<lparr>lg_lh := head_of (disk s h) (lhead s)\<rparr>\<rparr>"
    unfolding c3 2(3) c1 by (simp add: cabs_def)
  moreover have "read_head s = Ret s3"
    unfolding read_head_def Let_def get_blocks_def [symmetric]
    using 1(1) 3(1) D(5) v1 e by (simp add: h_def s2_def head_of_def)
  ultimately show ?thesis using 3(2) unfolding h_def by blast
qed

end
