(* ===== verification/Crash.thy ===== *)
theory Crash
  imports Logblock Resident
begin

text \<open>
  The log survives a crash.  The loops of \<^verbatim>\<open>log.c\<close> are described by the sequence of blocks
  that they write to the disk: \<open>commit_writes\<close> is the sequence of a whole commit.  A crash
  keeps a prefix of it, and recovery from each prefix gives the disk before the transaction or
  the disk after it.
\<close>

section \<open>The loops\<close>

definition log_ok :: "'a blk_scheme \<Rightarrow> bool" where
  "log_ok s \<longleftrightarrow> lh_n (lhead s) \<le> LOGBLOCKS \<and> length (lh_block (lhead s)) = LOGBLOCKS \<and>
     distinct (home s) \<and> set (home s) \<inter> log_area s = {}"

definition log_writes :: "'a blk_scheme \<Rightarrow> nat \<Rightarrow> (u32 \<times> byte list) list" where
  "log_writes s m = map (\<lambda>i. (log_blk s i, content s (home s ! i))) [0..<m]"

definition home_writes :: "'a blk_scheme \<Rightarrow> nat \<Rightarrow> (u32 \<times> byte list) list" where
  "home_writes s m = map (\<lambda>i. (home s ! i, content s (log_blk s i))) [0..<m]"

lemma log_okD:
  assumes "log_ok s"
  shows "lh_n (lhead s) \<le> LOGBLOCKS" "length (home s) = lh_n (lhead s)" "distinct (home s)"
    "length (lh_block (lhead s)) = LOGBLOCKS"
  using assms by (simp_all add: log_ok_def home_def)

lemma log_ok_nth:
  assumes "log_ok s" "i < lh_n (lhead s)"
  shows "home s ! i = lh_block (lhead s) ! i" "home s ! i \<in> set (home s)" "home s ! i \<notin> log_area s"
    "j < LOGBLOCKS \<Longrightarrow> home s ! i \<noteq> log_blk s j" "home s ! i \<noteq> lg_start (logs s)"
proof -
  show 1: "home s ! i = lh_block (lhead s) ! i" using assms by (simp add: home_def)
  show 2: "home s ! i \<in> set (home s)" using assms log_okD(2) [OF assms(1)] by simp
  then show 3: "home s ! i \<notin> log_area s" using assms by (auto simp: log_ok_def)
  then show "j < LOGBLOCKS \<Longrightarrow> home s ! i \<noteq> log_blk s j" "home s ! i \<noteq> lg_start (logs s)"
    by (auto simp: log_area_def)
qed

lemma same_log:
  assumes "logs s' = logs s"
  shows "home s' = home s" "log_blk s' i = log_blk s i" "log_area s' = log_area s" "log_ok s' = log_ok s"
  using assms by (simp_all add: home_def log_blk_def log_area_def log_ok_def image_def)

lemma writes_Suc:
  "log_writes s (Suc m) = log_writes s m @ [(log_blk s m, content s (home s ! m))]"
  "home_writes s (Suc m) = home_writes s m @ [(home s ! m, content s (log_blk s m))]"
  by (simp_all add: log_writes_def home_writes_def)

lemma fst_writes:
  "fst ` set (log_writes s m) = log_blk s ` {0..<m}"
  "fst ` set (home_writes s m) = (!) (home s) ` {0..<m}"
  by (simp_all add: log_writes_def home_writes_def image_image)

lemma write_log_upto:
  assumes i: "idle s" and lo: "log_ok s" and m: "m \<le> lh_n (lhead s)"
  shows "\<exists>s'. rfold write_log_one [0..<m] s = Ret s' \<and> idle s' \<and>
    cabs s' = (cabs s)\<lparr>cv_content := puts (log_writes s m) (content s),
      cv_disk := puts (log_writes s m) (disk s), cv_writes := dwrites s @ log_writes s m\<rparr>"
  using m
proof (induction m)
  case 0
  then show ?case using i by (simp add: log_writes_def cabs_def)
next
  case (Suc m)
  have "m \<le> lh_n (lhead s)" using Suc.prems by simp
  from Suc.IH [OF this] obtain t where t: "rfold write_log_one [0..<m] s = Ret t" "idle t"
    and ct: "cabs t = (cabs s)\<lparr>cv_content := puts (log_writes s m) (content s),
      cv_disk := puts (log_writes s m) (disk s), cv_writes := dwrites s @ log_writes s m\<rparr>"
    by (elim exE conjE) (rule that)
  have vt: "logs t = logs s" "content t = puts (log_writes s m) (content s)"
    "disk t = puts (log_writes s m) (disk s)" "dwrites t = dwrites s @ log_writes s m"
    using ct by (simp_all add: cabs_def)
  note sl = same_log [OF vt(1)]
  have m': "m < lh_n (lhead s)" "m < LOGBLOCKS" using Suc.prems log_okD(1) [OF lo] by simp_all
  note n = log_ok_nth [OF lo m'(1)]
  have l: "log_blk s m = log_blk t m" "home s ! m = lh_block (lhead t) ! m" using sl vt n by simp_all
  have ne: "log_blk s m \<noteq> home s ! m" using n(4) [OF m'(2)] by simp
  have "home s ! m \<notin> fst ` set (log_writes s m)"
    unfolding fst_writes using n(4) m'(2) by (auto simp: image_iff)
  then have cn: "content t (home s ! m) = content s (home s ! m)" by (simp add: vt puts_other)
  from write_log_one_spec [OF t(2) l ne, unfolded cn]
  obtain s' where s': "write_log_one m t = Ret s'" "idle s'"
    and c': "cabs s' = (cabs t)\<lparr>cv_content := (content t)(log_blk s m := content s (home s ! m)),
      cv_disk := (disk t)(log_blk s m := content s (home s ! m)),
      cv_writes := dwrites t @ [(log_blk s m, content s (home s ! m))]\<rparr>"
    by (elim exE conjE) (rule that)
  have "cabs s' = (cabs s)\<lparr>cv_content := puts (log_writes s (Suc m)) (content s),
      cv_disk := puts (log_writes s (Suc m)) (disk s), cv_writes := dwrites s @ log_writes s (Suc m)\<rparr>"
    unfolding c' ct vt writes_Suc by simp
  then show ?case using t(1) s' by (auto simp: rfold_append)
qed

lemma install_upto:
  assumes i: "idle s" and lo: "log_ok s" and m: "m \<le> lh_n (lhead s)"
    and p: "r \<or> (\<forall>d\<in>set (home s). pins s d \<noteq> 0)"
  shows "\<exists>s'. rfold (install_one r) [0..<m] s = Ret s' \<and> idle s' \<and> logs s' = logs s \<and>
    content s' = puts (home_writes s m) (content s) \<and> disk s' = puts (home_writes s m) (disk s) \<and>
    dwrites s' = dwrites s @ home_writes s m \<and>
    (\<forall>n. pins s' n = (if \<not> r \<and> n \<in> set (take m (home s)) then pins s n - 1 else pins s n))"
  using m
proof (induction m)
  case 0
  then show ?case using i by (simp add: home_writes_def)
next
  case (Suc m)
  have "m \<le> lh_n (lhead s)" using Suc.prems by simp
  from Suc.IH [OF this] obtain t where t: "rfold (install_one r) [0..<m] s = Ret t" "idle t"
    and vt: "logs t = logs s" "content t = puts (home_writes s m) (content s)"
      "disk t = puts (home_writes s m) (disk s)" "dwrites t = dwrites s @ home_writes s m"
      "\<forall>n. pins t n = (if \<not> r \<and> n \<in> set (take m (home s)) then pins s n - 1 else pins s n)"
    by (elim exE conjE) (rule that)
  note sl = same_log [OF vt(1)]
  have m': "m < lh_n (lhead s)" "m < LOGBLOCKS" using Suc.prems log_okD(1) [OF lo] by simp_all
  note n = log_ok_nth [OF lo m'(1)]
  have l: "log_blk s m = log_blk t m" "home s ! m = lh_block (lhead t) ! m" using sl vt n by simp_all
  have ne: "log_blk s m \<noteq> home s ! m" using n(4) [OF m'(2)] by simp
  have "log_blk s m \<notin> fst ` set (home_writes s m)"
    unfolding fst_writes using log_ok_nth(4) [OF lo _ m'(2)] m' by (metis atLeastLessThan_iff imageE less_trans)
  then have cn: "content t (log_blk s m) = content s (log_blk s m)" by (simp add: vt puts_other)
  have new: "home s ! m \<notin> set (take m (home s))"
    using log_okD(2,3) [OF lo] m' by (auto simp: in_set_conv_nth distinct_conv_nth)
  have p': "r \<or> pins t (home s ! m) \<noteq> 0" using p new n(2) by (auto simp: vt(5))
  from install_one_spec [OF t(2) l ne p', unfolded cn]
  obtain s' where s': "install_one r m t = Ret s'" "idle s'"
    and c': "cabs s' = (cabs t)\<lparr>cv_content := (content t)(home s ! m := content s (log_blk s m)),
      cv_disk := (disk t)(home s ! m := content s (log_blk s m)),
      cv_writes := dwrites t @ [(home s ! m, content s (log_blk s m))],
      cv_pins := (if r then pins t else (pins t)(home s ! m := pins t (home s ! m) - 1)),
      cv_free := nfree t + (if \<not> r \<and> pins t (home s ! m) = 1 then 1 else 0)\<rparr>"
    by (elim exE conjE) (rule that)
  have v': "logs s' = logs s" "content s' = puts (home_writes s (Suc m)) (content s)"
    "disk s' = puts (home_writes s (Suc m)) (disk s)" "dwrites s' = dwrites s @ home_writes s (Suc m)"
    "pins s' = (if r then pins t else (pins t)(home s ! m := pins t (home s ! m) - 1))"
    using c' by (simp_all add: cabs_def vt writes_Suc)
  have tk: "set (take (Suc m) (home s)) = insert (home s ! m) (set (take m (home s)))"
    using m' log_okD(2) [OF lo] by (simp add: take_Suc_conv_app_nth)
  have "pins s' n = (if \<not> r \<and> n \<in> set (take (Suc m) (home s)) then pins s n - 1 else pins s n)" for n
    using new by (auto simp: v'(5) vt(5) tk)
  then show ?case using t(1) s' v'(1-4) by (auto simp: rfold_append)
qed

section \<open>Commit\<close>

definition installs :: "'a blk_scheme \<Rightarrow> nat \<Rightarrow> (u32 \<times> byte list) list" where
  "installs s m = map (\<lambda>i. (home s ! i, content s (home s ! i))) [0..<m]"

text \<open>The header while the transaction is in the log, and the empty header after it.\<close>

definition full_head :: "'a blk_scheme \<Rightarrow> byte list" where
  "full_head s = head_bytes (lhead s) (content s (lg_start (logs s)))"

definition empty_head :: "'a blk_scheme \<Rightarrow> byte list" where
  "empty_head s = head_bytes ((lhead s)\<lparr>lh_n := 0\<rparr>) (full_head s)"

definition commit_writes :: "'a blk_scheme \<Rightarrow> (u32 \<times> byte list) list" where
  "commit_writes s = log_writes s (lh_n (lhead s)) @ [(lg_start (logs s), full_head s)] @
     installs s (lh_n (lhead s)) @ [(lg_start (logs s), empty_head s)]"

text \<open>A state in which a transaction can be committed: its blocks are pinned, and no
  transaction is in the log on the disk.\<close>

definition commit_ready :: "'a blk_scheme \<Rightarrow> bool" where
  "commit_ready s \<longleftrightarrow> idle s \<and> log_ok s \<and> (\<forall>d\<in>set (home s). pins s d \<noteq> 0) \<and>
     length (content s (lg_start (logs s))) = BSIZE \<and> length (disk s (lg_start (logs s))) = BSIZE \<and>
     get32 (disk s (lg_start (logs s))) 0 = 0"

text \<open>The disk after the transaction.\<close>

definition committed :: "'a blk_scheme \<Rightarrow> u32 \<Rightarrow> byte list" where
  "committed s b = (if b \<in> set (home s) then content s b else disk s b)"

lemma idle_logs [simp]: "lg_dev x = lg_dev (logs s) \<Longrightarrow> idle (s\<lparr>logs := x\<rparr>) = idle s"
  using views_cong [of "s\<lparr>logs := x\<rparr>" s] by (simp add: idle_def)

lemma fst_installs: "log_ok s \<Longrightarrow> m \<le> lh_n (lhead s) \<Longrightarrow> fst ` set (installs s m) \<subseteq> set (home s)"
  using log_okD(2) [of s] by (auto simp: installs_def)

lemma puts_log_blk:
  assumes "m \<le> LOGBLOCKS" "i < m"
  shows "puts (log_writes s m) f (log_blk s i) = content s (home s ! i)"
proof (rule puts_at)
  show "distinct (map fst (log_writes s m))"
    using assms log_blk_inj [of _ _ s] by (auto simp: log_writes_def comp_def distinct_map inj_on_def)
  show "(log_blk s i, content s (home s ! i)) \<in> set (log_writes s m)"
    using assms by (auto simp: log_writes_def)
qed

lemma puts_log_other:
  assumes "m \<le> LOGBLOCKS" "b \<notin> log_blk s ` {0..<m}"
  shows "puts (log_writes s m) f b = f b"
  using assms by (intro puts_other) (simp add: fst_writes)

lemma start_not_log_blk: "m \<le> LOGBLOCKS \<Longrightarrow> lg_start (logs s) \<notin> log_blk s ` {0..<m}"
  using log_blk_start [of _ s] by (metis atLeastLessThan_iff imageE order.strict_trans2)

lemma log_and_head:
  assumes i: "idle s" and lo: "log_ok s"
  shows "\<exists>s1 s2. write_log s = Ret s1 \<and> write_head s1 = Ret s2 \<and> idle s2 \<and>
    content s2 = puts (log_writes s (lh_n (lhead s)) @ [(lg_start (logs s), full_head s)]) (content s) \<and>
    logs s2 = logs s \<and>
    disk s2 = puts (log_writes s (lh_n (lhead s)) @ [(lg_start (logs s), full_head s)]) (disk s) \<and>
    dwrites s2 = dwrites s @ log_writes s (lh_n (lhead s)) @ [(lg_start (logs s), full_head s)] \<and>
    pins s2 = pins s"
proof -
  let ?n = "lh_n (lhead s)" and ?h = "lg_start (logs s)"
  have n30: "?n \<le> LOGBLOCKS" by (rule log_okD(1) [OF lo])
  from write_log_upto [OF i lo order.refl]
  obtain s1 where 1: "rfold write_log_one [0..<?n] s = Ret s1" "idle s1"
    and c1: "cabs s1 = (cabs s)\<lparr>cv_content := puts (log_writes s ?n) (content s),
      cv_disk := puts (log_writes s ?n) (disk s), cv_writes := dwrites s @ log_writes s ?n\<rparr>"
    by (elim exE conjE) (rule that)
  have v1: "content s1 = puts (log_writes s ?n) (content s)" "logs s1 = logs s" "disk s1 = puts (log_writes s ?n) (disk s)"
    "dwrites s1 = dwrites s @ log_writes s ?n" using c1 by (simp_all add: cabs_def)
  have "full_head s = head_bytes (lhead s1) (content s1 ?h)"
    using puts_log_other [OF n30 start_not_log_blk [OF n30], where s = s and f = "content s"] by (simp add: full_head_def v1)
  from write_head_spec [OF 1(2) _ this] v1(2)
  obtain s2 where 2: "write_head s1 = Ret s2" "idle s2"
    and c2: "cabs s2 = (cabs s1)\<lparr>cv_content := (content s1)(?h := full_head s), cv_disk := (disk s1)(?h := full_head s),
      cv_writes := dwrites s1 @ [(?h, full_head s)]\<rparr>"
    by auto
  have "content s2 = puts (log_writes s ?n @ [(?h, full_head s)]) (content s)" "logs s2 = logs s"
    "disk s2 = puts (log_writes s ?n @ [(?h, full_head s)]) (disk s)"
    "dwrites s2 = dwrites s @ log_writes s ?n @ [(?h, full_head s)]" "pins s2 = pins s"
    using c2 c1 by (simp_all add: cabs_def v1)
  then show ?thesis using 1(1) 2 unfolding write_log_def by blast
qed

lemma clear_head:
  assumes i: "idle s" and h: "content s (lg_start (logs s)) = full_head s0" and lg: "logs s = logs s0"
  shows "\<exists>s'. write_head (lh_upd (\<lambda>h. h\<lparr>lh_n := 0\<rparr>) s) = Ret s' \<and> idle s' \<and>
    cabs s' = (cabs s)\<lparr>cv_content := (content s)(lg_start (logs s) := empty_head s0),
      cv_disk := (disk s)(lg_start (logs s) := empty_head s0),
      cv_writes := dwrites s @ [(lg_start (logs s), empty_head s0)],
      cv_log := (logs s)\<lparr>lg_lh := (lhead s)\<lparr>lh_n := 0\<rparr>\<rparr>\<rparr>"
proof -
  define t where "t = lh_upd (\<lambda>h. h\<lparr>lh_n := 0\<rparr>) s"
  have t: "idle t" "cabs t = (cabs s)\<lparr>cv_log := (logs s)\<lparr>lg_lh := (lhead s)\<lparr>lh_n := 0\<rparr>\<rparr>\<rparr>"
    using i by (simp_all add: t_def)
  then have v: "content t = content s" "disk t = disk s" "dwrites t = dwrites s"
    "logs t = (logs s)\<lparr>lg_lh := (lhead s)\<lparr>lh_n := 0\<rparr>\<rparr>" by (simp_all add: cabs_def)
  have "empty_head s0 = head_bytes (lhead t) (content t (lg_start (logs s)))"
    using h lg by (simp add: empty_head_def v)
  from write_head_spec [OF t(1) _ this] show ?thesis
    unfolding t_def [symmetric] by (auto simp: v t(2))
qed

lemma commit_spec:
  assumes r: "commit_ready s" and n: "0 < lh_n (lhead s)"
  shows "\<exists>s'. commit s = Ret s' \<and> idle s' \<and> disk s' = puts (commit_writes s) (disk s) \<and>
    content s' = puts (commit_writes s) (content s) \<and> dwrites s' = dwrites s @ commit_writes s \<and>
    logs s' = (logs s)\<lparr>lg_lh := (lhead s)\<lparr>lh_n := 0\<rparr>\<rparr> \<and>
    (\<forall>b. pins s' b = (if b \<in> set (home s) then pins s b - 1 else pins s b))"
proof -
  have i: "idle s" and lo: "log_ok s" and pn: "\<forall>d\<in>set (home s). pins s d \<noteq> 0"
    using r by (simp_all add: commit_ready_def)
  let ?n = "lh_n (lhead s)" and ?h = "lg_start (logs s)"
  have n30: "?n \<le> LOGBLOCKS" by (rule log_okD(1) [OF lo])
  from log_and_head [OF i lo]
  obtain s1 s2 where 2: "write_log s = Ret s1" "write_head s1 = Ret s2" "idle s2"
    and v2: "content s2 = puts (log_writes s ?n @ [(?h, full_head s)]) (content s)" "logs s2 = logs s"
      "disk s2 = puts (log_writes s ?n @ [(?h, full_head s)]) (disk s)"
      "dwrites s2 = dwrites s @ log_writes s ?n @ [(?h, full_head s)]" "pins s2 = pins s"
    by (elim exE conjE) (rule that)
  note sl = same_log [OF v2(2)]
  have "content s2 (log_blk s j) = content s (home s ! j)" if "j < ?n" for j
    using that n30 log_blk_start [of j s] by (simp add: v2 puts_log_blk)
  then have hw: "home_writes s2 ?n = installs s ?n" by (simp add: home_writes_def installs_def sl)
  have "False \<or> (\<forall>d\<in>set (home s2). pins s2 d \<noteq> 0)" using pn by (simp add: sl v2)
  from install_upto [OF 2(3) _ _ this, of ?n, unfolded hw] lo
  obtain s3 where 3: "rfold (install_one False) [0..<?n] s2 = Ret s3" "idle s3"
    and v3: "logs s3 = logs s" "content s3 = puts (installs s ?n) (content s2)"
      "disk s3 = puts (installs s ?n) (disk s2)" "dwrites s3 = dwrites s2 @ installs s ?n"
      "\<forall>b. pins s3 b = (if b \<in> set (home s) then pins s b - 1 else pins s b)"
    by (auto simp: sl v2 log_okD)
  have h: "content s3 (lg_start (logs s3)) = full_head s"
    using fst_installs [OF lo order.refl] lo
    by (subst v3(2), subst puts_other) (auto simp: v2 v3(1) log_ok_def log_area_def)
  from clear_head [OF 3(2) h v3(1), unfolded v3(1)]
  obtain s5 where 5: "write_head (lh_upd (\<lambda>h. h\<lparr>lh_n := 0\<rparr>) s3) = Ret s5" "idle s5"
    and c5: "cabs s5 = (cabs s3)\<lparr>cv_content := (content s3)(?h := empty_head s), cv_disk := (disk s3)(?h := empty_head s),
      cv_writes := dwrites s3 @ [(?h, empty_head s)], cv_log := (logs s)\<lparr>lg_lh := (lhead s)\<lparr>lh_n := 0\<rparr>\<rparr>\<rparr>"
    using v3(1) by auto
  have v5: "disk s5 = puts (commit_writes s) (disk s)" "content s5 = puts (commit_writes s) (content s)"
    "dwrites s5 = dwrites s @ commit_writes s" "logs s5 = (logs s)\<lparr>lg_lh := (lhead s)\<lparr>lh_n := 0\<rparr>\<rparr>" "pins s5 = pins s3"
    using c5 by (simp_all add: cabs_def v3(2-4) v2 commit_writes_def)
  have "commit s = Ret s5"
    using n 2(1,2) 3(1) 5(1) v2(2) by (simp add: commit_def install_trans_def)
  then show ?thesis using 5(2) v5 v3(5) by auto
qed

section \<open>Recovery\<close>

text \<open>The machine after a restart: the cache and the log in memory are empty.\<close>

definition rebooted :: "'a blk_scheme \<Rightarrow> bool" where
  "rebooted t \<longleftrightarrow> idle t \<and> (\<forall>n. pins t n = 0) \<and> length (lh_block (lhead t)) = LOGBLOCKS"

lemma rebootedD:
  assumes "rebooted t"
  shows "idle t" "content t = disk t" "length (lh_block (lhead t)) = LOGBLOCKS"
  using assms content_unpinned [of t] idleD(1) [of t] by (auto simp: rebooted_def)

lemma recover_spec:
  assumes rb: "rebooted t" and t0: "t0 = lh_upd (\<lambda>h. head_of (disk t (lg_start (logs t))) h) t"
    and lo: "log_ok t0"
  shows "\<exists>t' x. recover_from_log t = Ret t' \<and> idle t' \<and>
    disk t' = (puts (home_writes t0 (lh_n (lhead t0))) (disk t))(lg_start (logs t) := x) \<and>
    x = head_bytes ((lhead t0)\<lparr>lh_n := 0\<rparr>) (disk t (lg_start (logs t))) \<and>
    logs t' = (logs t0)\<lparr>lg_lh := (lhead t0)\<lparr>lh_n := 0\<rparr>\<rparr>"
proof -
  note R = rebootedD [OF rb]
  let ?h = "lg_start (logs t)"
  have "content t ?h = disk t ?h" using R(2) by simp
  from read_head_spec [OF R(1) this]
  obtain t1 where 1: "read_head t = Ret t1" "idle t1"
    and c1: "cabs t1 = (cabs t)\<lparr>cv_log := (logs t)\<lparr>lg_lh := head_of (disk t ?h) (lhead t)\<rparr>\<rparr>"
    by (elim exE conjE) (rule that)
  have v1: "logs t1 = logs t0" "content t1 = disk t" "disk t1 = disk t"
    using c1 R(2) by (simp_all add: cabs_def t0)
  have c0: "content t0 = disk t" using views_cong [of t0 t] R(2) by (simp add: t0)
  note sl = same_log [OF v1(1)]
  have hw: "home_writes t1 m = home_writes t0 m" for m by (simp add: home_writes_def sl v1 c0)
  have "log_ok t1" using lo sl by simp
  from install_upto [OF 1(2) this order.refl, of True, unfolded hw]
  obtain t2 where 2: "install_trans True t1 = Ret t2" "idle t2"
    and v2: "logs t2 = logs t0" "content t2 = puts (home_writes t0 (lh_n (lhead t0))) (disk t)"
      "disk t2 = puts (home_writes t0 (lh_n (lhead t0))) (disk t)"
    by (auto simp: install_trans_def v1)
  define t3 where "t3 = lh_upd (\<lambda>h. h\<lparr>lh_n := 0\<rparr>) t2"
  have t3: "idle t3" "cabs t3 = (cabs t2)\<lparr>cv_log := (logs t0)\<lparr>lg_lh := (lhead t0)\<lparr>lh_n := 0\<rparr>\<rparr>\<rparr>"
    using 2(2) v2(1) by (simp_all add: t3_def)
  then have v3: "content t3 = content t2" "disk t3 = disk t2" "logs t3 = (logs t0)\<lparr>lg_lh := (lhead t0)\<lparr>lh_n := 0\<rparr>\<rparr>"
    by (simp_all add: cabs_def)
  have st: "lg_start (logs t0) = ?h" by (simp add: t0)
  have "?h \<notin> fst ` set (home_writes t0 (lh_n (lhead t0)))"
    unfolding fst_writes using log_ok_nth(5) [OF lo] st by (metis atLeastLessThan_iff imageE)
  then have "content t3 ?h = disk t ?h" by (simp add: v3 v2 puts_other)
  then have "head_bytes ((lhead t0)\<lparr>lh_n := 0\<rparr>) (disk t ?h) = head_bytes (lhead t3) (content t3 ?h)"
    by (simp add: v3)
  from write_head_spec [OF t3(1) _ this] obtain t4 where 4: "write_head t3 = Ret t4" "idle t4"
    "disk t4 = (disk t2)(?h := head_bytes ((lhead t0)\<lparr>lh_n := 0\<rparr>) (disk t ?h))" "logs t4 = logs t3"
    by (auto simp: v3 st cabs_def)
  have "recover_from_log t = Ret t4" using 1(1) 2(1) 4(1) by (simp add: recover_from_log_def t3_def)
  then show ?thesis using 4 v2 v3 by auto
qed

section \<open>The disk at a crash\<close>

lemma take_writes [simp]:
  "k \<le> m \<Longrightarrow> take k (log_writes s m) = log_writes s k" "k \<le> m \<Longrightarrow> take k (installs s m) = installs s k"
  by (simp_all add: log_writes_def installs_def take_map)

lemma length_writes [simp]: "length (log_writes s m) = m" "length (installs s m) = m"
  by (simp_all add: log_writes_def installs_def)

lemma commit_prefix:
  assumes "n = lh_n (lhead s)" "h = lg_start (logs s)" "k \<le> length (commit_writes s)"
  shows "take k (commit_writes s) =
    (if k \<le> n then log_writes s k
     else if k \<le> 2 * n + 1 then log_writes s n @ [(h, full_head s)] @ installs s (k - n - 1)
     else commit_writes s)"
  using assms by (auto simp: commit_writes_def take_Cons' not_le)

lemma puts_installs:
  assumes "log_ok s"
  shows "m \<le> lh_n (lhead s) \<Longrightarrow> b \<notin> set (home s) \<Longrightarrow> puts (installs s m) f b = f b"
    "puts (installs s (lh_n (lhead s))) f b = (if b \<in> set (home s) then content s b else f b)"
proof -
  have *: "puts (installs s m) f b = f b" if "b \<notin> set (home s)" "m \<le> lh_n (lhead s)" for m
    using fst_installs [OF assms that(2)] that(1) by (intro puts_other) auto
  then show "m \<le> lh_n (lhead s) \<Longrightarrow> b \<notin> set (home s) \<Longrightarrow> puts (installs s m) f b = f b" by simp
  have "distinct (map fst (installs s (lh_n (lhead s))))"
    using log_okD(2,3) [OF assms] by (simp add: installs_def comp_def distinct_map inj_on_def nth_eq_iff_index_eq)
  moreover have "(b, content s b) \<in> set (installs s (lh_n (lhead s)))" if "b \<in> set (home s)"
    using that log_okD(2) [OF assms] by (auto simp: installs_def in_set_conv_nth)
  ultimately show "puts (installs s (lh_n (lhead s))) f b = (if b \<in> set (home s) then content s b else f b)"
    using * [of "lh_n (lhead s)"] puts_at [of "installs s (lh_n (lhead s))" b "content s b" f] by auto
qed

lemma home_not_log:
  assumes "log_ok s" "m \<le> LOGBLOCKS"
  shows "b \<in> set (home s) \<Longrightarrow> b \<notin> log_blk s ` {0..<m}" "b \<in> set (home s) \<Longrightarrow> b \<noteq> lg_start (logs s)"
    "b \<notin> log_area s \<Longrightarrow> b \<notin> log_blk s ` {0..<m}" "b \<notin> log_area s \<Longrightarrow> b \<noteq> lg_start (logs s)"
proof -
  have "b \<notin> log_area s" if "b \<in> set (home s)" using assms that by (auto simp: log_ok_def)
  moreover have "log_blk s ` {0..<m} \<subseteq> log_area s" using assms(2) by (auto simp: log_area_def)
  ultimately show "b \<in> set (home s) \<Longrightarrow> b \<notin> log_blk s ` {0..<m}" "b \<in> set (home s) \<Longrightarrow> b \<noteq> lg_start (logs s)"
    "b \<notin> log_area s \<Longrightarrow> b \<notin> log_blk s ` {0..<m}" "b \<notin> log_area s \<Longrightarrow> b \<noteq> lg_start (logs s)"
    by (auto simp: log_area_def)
qed

text \<open>Before the header is written, nothing outside the log has changed.\<close>

lemma crash_before:
  assumes lo: "log_ok s" and k: "k \<le> lh_n (lhead s)"
  shows "b \<notin> log_area s \<or> b = lg_start (logs s) \<Longrightarrow> puts (log_writes s k) (disk s) b = disk s b"
proof -
  assume b: "b \<notin> log_area s \<or> b = lg_start (logs s)"
  have k30: "k \<le> LOGBLOCKS" using k log_okD(1) [OF lo] by simp
  have "b \<notin> log_blk s ` {0..<k}"
    using b home_not_log(3) [OF lo k30, of b] start_not_log_blk [OF k30, of s] by (elim disjE) simp_all
  then show "puts (log_writes s k) (disk s) b = disk s b" by (rule puts_log_other [OF k30])
qed

text \<open>After it, the log holds the transaction until the header is cleared.\<close>

lemma crash_during:
  assumes lo: "log_ok s" and m: "m \<le> lh_n (lhead s)"
    and d: "d = puts (log_writes s (lh_n (lhead s)) @ [(lg_start (logs s), full_head s)] @ installs s m) (disk s)"
  shows "d (lg_start (logs s)) = full_head s"
    "i < lh_n (lhead s) \<Longrightarrow> d (log_blk s i) = content s (home s ! i)"
    "b \<notin> log_area s \<Longrightarrow> b \<notin> set (home s) \<Longrightarrow> d b = disk s b"
proof -
  have n30: "lh_n (lhead s) \<le> LOGBLOCKS" by (rule log_okD(1) [OF lo])
  have st: "lg_start (logs s) \<notin> set (home s)" using home_not_log(2) [OF lo n30] by blast
  show "d (lg_start (logs s)) = full_head s" by (simp add: d puts_installs(1) [OF lo m st])
  show "d (log_blk s i) = content s (home s ! i)" if i: "i < lh_n (lhead s)"
  proof -
    have "log_blk s i \<notin> set (home s)" using home_not_log(1) [OF lo n30, of "log_blk s i"] i by auto
    then show ?thesis using log_blk_start [of i s] i n30 by (simp add: d puts_installs(1) [OF lo m] puts_log_blk)
  qed
  show "d b = disk s b" if "b \<notin> log_area s" "b \<notin> set (home s)"
    using that home_not_log(3,4) [OF lo n30] by (simp add: d puts_installs(1) [OF lo m] puts_log_other [OF n30])
qed

lemma crash_after:
  assumes lo: "log_ok s"
  shows "puts (commit_writes s) (disk s) (lg_start (logs s)) = empty_head s"
    "b \<notin> log_area s \<Longrightarrow> puts (commit_writes s) (disk s) b = committed s b"
proof -
  have n30: "lh_n (lhead s) \<le> LOGBLOCKS" by (rule log_okD(1) [OF lo])
  show "puts (commit_writes s) (disk s) (lg_start (logs s)) = empty_head s" by (simp add: commit_writes_def)
  show "puts (commit_writes s) (disk s) b = committed s b" if "b \<notin> log_area s"
    using that home_not_log(3,4) [OF lo n30]
    by (simp add: commit_writes_def puts_installs(2) [OF lo] committed_def puts_log_other [OF n30])
qed

text \<open>Recovery with an empty header changes only the header; with the header of a transaction
  it installs the transaction.\<close>

lemma recover_empty:
  assumes rb: "rebooted t" and z: "get32 (disk t (lg_start (logs t))) 0 = 0"
    and len: "length (disk t (lg_start (logs t))) = BSIZE"
  shows "\<exists>t'. recover_from_log t = Ret t' \<and> idle t' \<and> lh_n (lhead t') = 0 \<and>
    get32 (disk t' (lg_start (logs t))) 0 = 0 \<and> (\<forall>b. b \<noteq> lg_start (logs t) \<longrightarrow> disk t' b = disk t b)"
proof -
  define t0 where "t0 = lh_upd (\<lambda>h. head_of (disk t (lg_start (logs t))) h) t"
  have n0: "lh_n (lhead t0) = 0" using z by (simp add: t0_def head_of_def)
  have "length (lh_block (lhead t0)) = LOGBLOCKS"
    using rebootedD(3) [OF rb] z by (simp add: t0_def head_of_def get_blocks_def)
  then have "log_ok t0" using n0 by (simp add: log_ok_def home_def)
  from recover_spec [OF rb t0_def this] show ?thesis
    using n0 len by (auto simp: home_writes_def head_bytes_def put_blocks_def get32_put32)
qed

lemma recover_full:
  assumes rb: "rebooted t" and lo: "log_ok s" and st: "lg_start (logs t) = lg_start (logs s)"
    and len: "length (content s (lg_start (logs s))) = BSIZE"
    and h: "disk t (lg_start (logs s)) = full_head s"
    and l: "\<And>i. i < lh_n (lhead s) \<Longrightarrow> disk t (log_blk s i) = content s (home s ! i)"
  shows "\<exists>t'. recover_from_log t = Ret t' \<and> idle t' \<and> lh_n (lhead t') = 0 \<and>
    get32 (disk t' (lg_start (logs t))) 0 = 0 \<and>
    (\<forall>b. b \<noteq> lg_start (logs t) \<longrightarrow> disk t' b = (if b \<in> set (home s) then content s b else disk t b))"
proof -
  note L = log_okD [OF lo]
  define t0 where "t0 = lh_upd (\<lambda>h. head_of (disk t (lg_start (logs t))) h) t"
  have lh: "lhead t0 = head_of (head_bytes (lhead s) (content s (lg_start (logs s)))) (lhead t)"
    using h st by (simp add: t0_def full_head_def)
  have "lh_n (lhead s) \<le> length (lh_block (lhead s))" using L by simp
  note rt = head_roundtrip [OF len L(1) this rebootedD(3) [OF rb], folded lh]
  have hm: "home t0 = home s" using rt by (simp add: home_def)
  have lb: "log_blk t0 i = log_blk s i" for i by (simp add: log_blk_def t0_def st)
  have "length (lh_block (lhead t0)) = LOGBLOCKS"
    using get_blocks_spec [of "lh_n (lhead s)" "lh_block (lhead t)"] rebootedD(3) [OF rb] L(1) rt(1)
    by (simp add: lh head_of_def)
  moreover have "log_area t0 = log_area s" by (simp add: log_area_def lb image_def) (simp add: t0_def st)
  ultimately have lo0: "log_ok t0" using lo rt(1) hm by (simp add: log_ok_def)
  have "content t0 = disk t" using views_cong [of t0 t] rebootedD(2) [OF rb] by (simp add: t0_def)
  then have hw: "home_writes t0 (lh_n (lhead t0)) = installs s (lh_n (lhead s))"
    using l by (simp add: home_writes_def installs_def rt hm lb)
  have "length (full_head s) = BSIZE" using head_bytes_spec(1) [OF len L(1)] by (simp add: full_head_def)
  then show ?thesis
    using recover_spec [OF rb t0_def lo0, unfolded hw] h st
    by (auto simp: puts_installs(2) [OF lo] head_bytes_def put_blocks_def get32_put32)
qed

section \<open>An example\<close>

definition unlocked :: sleeplock where
  "unlocked = \<lparr>sl_locked = False, sl_pid = 0\<rparr>"

definition empty_buf :: buf where
  "empty_buf = \<lparr>b_valid = False, b_dev = 0, b_blockno = 0, b_lock = unlocked, b_refcnt = 0,
     b_data = replicate BSIZE 0\<rparr>"

definition dirty_buf :: "u32 \<Rightarrow> buf" where
  "dirty_buf n = \<lparr>b_valid = True, b_dev = ROOTDEV, b_blockno = n, b_lock = unlocked, b_refcnt = 1,
     b_data = replicate BSIZE 7\<rparr>"

text \<open>A transaction that wrote block 40; the log starts at block 2.\<close>

definition demo_log :: blk where
  "demo_log = \<lparr>mem = (\<lambda>_. 0), freelist = 0, kend = 0,
     procs = [demo_proc], cur = 0, nextpid = 8, initproc = 0, kernel_pagetable = 0, etext = 0,
     trampoline = 0, ticks = 0, klog = [], disk = (\<lambda>_. replicate BSIZE 0), dwrites = [],
     bufs = dirty_buf 40 # replicate 29 empty_buf, lru = [0..<30],
     logs = \<lparr>lg_start = 2, lg_outstanding = 0, lg_committing = True, lg_dev = ROOTDEV,
       lg_lh = \<lparr>lh_n = 1, lh_block = 40 # replicate 29 0\<rparr>\<rparr>\<rparr>"

text \<open>The machine restarted after the first \<open>k\<close> writes of the commit.\<close>

definition demo_crash :: "nat \<Rightarrow> blk" where
  "demo_crash k = demo_log\<lparr>disk := puts (take k (commit_writes demo_log)) (disk demo_log),
     bufs := replicate 30 empty_buf,
     logs := (logs demo_log)\<lparr>lg_lh := \<lparr>lh_n = 0, lh_block = replicate 30 0\<rparr>\<rparr>\<rparr>"

text \<open>A transaction of 30 blocks: every buffer is pinned.\<close>

definition demo_full :: blk where
  "demo_full = demo_log\<lparr>bufs := map (\<lambda>i. dirty_buf (40 + of_nat i)) [0..<30],
     logs := (logs demo_log)\<lparr>lg_lh := \<lparr>lh_n = 30, lh_block = map (\<lambda>i. 40 + of_nat i) [0..<30]\<rparr>\<rparr>\<rparr>"

lemma demo_log_ok: "commit_ready demo_log"
proof -
  have nth: "bufs demo_log ! i = (if i = 0 then dirty_buf 40 else empty_buf)" if "i < 30" for i
    using that by (cases i) (simp_all add: demo_log_def)
  have len: "length (bufs demo_log) = 30" by (simp add: demo_log_def)
  have ku: "keys_uniq (bufs demo_log)"
    unfolding keys_uniq_def len by (auto simp: nth empty_buf_def dirty_buf_def bkey_def split: if_splits)
  have bo: "buf_ok d (dirty_buf 40)" "buf_ok d empty_buf" for d
    by (simp_all add: buf_ok_def dirty_buf_def empty_buf_def unlocked_def)
  have ok: "cache_ok demo_log"
    using ku bo unfolding cache_ok_def len by (auto simp: nth) (auto simp: demo_log_def)
  have c: "cached demo_log n = (if n = 40 then Some 0 else None)" for n
    using cached_iff [OF ok, of n 0] cached_None [OF ok, of n]
    by (auto simp: len nth bkey_def dirty_buf_def empty_buf_def)
  have b0: "bufs demo_log ! 0 = dirty_buf 40" by (simp add: nth)
  have v: "blocked demo_log n = False" "pins demo_log n = (if n = 40 then 1 else 0)"
    "content demo_log n = (if n = 40 then replicate BSIZE 7 else replicate BSIZE 0)" for n
    unfolding blocked_def pins_def content_def c
    by (simp_all add: b0 dirty_buf_def unlocked_def) (simp_all add: demo_log_def)
  have "free_bufs (bufs demo_log) = {1..<30}"
    unfolding free_bufs_def len by (auto simp: nth dirty_buf_def empty_buf_def split: if_splits)
  then have i: "idle demo_log" using ok by (simp add: idle_def v) (simp add: demo_log_def)
  have "log_blk demo_log i = 3 + of_nat i" for i by (simp add: log_blk_def demo_log_def)
  moreover have "of_nat i \<noteq> (37 :: u32)" if "i < 30" for i :: nat
  proof
    assume "of_nat i = (37 :: u32)"
    then have "unat (of_nat i :: u32) = 37" by simp
    then show False using that by (simp add: unat_of_nat)
  qed
  moreover have "lg_start (logs demo_log) = 2" by (simp add: demo_log_def)
  ultimately have "40 \<notin> log_area demo_log" by (auto simp: log_area_def)
  then show ?thesis
    using i by (simp add: commit_ready_def log_ok_def home_def v)
      (simp add: demo_log_def get32_def get_bytes_def numeral_eq_Suc)
qed

lemma demo_crash_ok: "rebooted (demo_crash k)"
proof -
  let ?t = "demo_crash k"
  have nth: "bufs ?t ! i = empty_buf" if "i < 30" for i
    using that by (simp add: demo_crash_def)
  have len: "length (bufs ?t) = 30" by (simp add: demo_crash_def)
  have "buf_ok d empty_buf" for d by (simp add: buf_ok_def empty_buf_def unlocked_def)
  then have ok: "cache_ok ?t"
    unfolding cache_ok_def len keys_uniq_def
    by (simp add: nth empty_buf_def) (auto simp: demo_crash_def demo_log_def)
  have c: "cached ?t n = None" for n
    unfolding cached_None [OF ok] len by (simp add: nth empty_buf_def bkey_def)
  have v: "blocked ?t n = False" "pins ?t n = 0" for n
    by (simp_all add: blocked_def pins_def c)
  have "free_bufs (bufs ?t) = {0..<30}"
    unfolding free_bufs_def len by (auto simp: nth empty_buf_def)
  then show ?thesis using ok by (simp add: rebooted_def idle_def v) (simp add: demo_crash_def demo_log_def)
qed

section \<open>Properties\<close>

text \<open>C6: the buffer cache refines a map from block numbers to contents.  Reading a block, any
  sequence of changes and writes of its buffer, and releasing it returns, keeps the invariant of
  the cache, and has on the abstract cache exactly the effect of those changes and writes, whichever
  buffer was used or recycled, provided that the last holder of a block has written it.
\<close>

theorem cache_refines:
  assumes ok: "cache_ok s" and nb: "\<not> blocked s n" and o: "pins s n + 1 \<noteq> 0"
    and fr: "pins s n \<noteq> 0 \<or> 0 < nfree s" and v: "v = fold (abs_act n) as (cabs s)"
    and cl: "pins s n = 0 \<longrightarrow> cv_content v n = cv_disk v n"
  shows "\<exists>s'. session n as s = Ret s' \<and> cache_ok s' \<and> cabs s' = v"
proof -
  from bread_spec [OF ok nb o fr] obtain b s1 where 1: "bread ROOTDEV n s = Ret (b, s1)" "cache_ok s1" "held s1 b n"
    and c1: "cabs s1 = (cabs s)\<lparr>cv_pins := (pins s)(n := pins s n + 1), cv_blocked := (blocked s)(n := True),
      cv_free := nfree s - (if pins s n = 0 then 1 else 0)\<rparr>"
    by (elim exE conjE) (rule that)
  from acts_refine [OF 1(2,3), of as] obtain s2 where 2: "rfold (act b) as s1 = Ret s2" "cache_ok s2" "held s2 b n"
    and c2: "cabs s2 = fold (abs_act n) as (cabs s1)"
    by (elim exE conjE) (rule that)
  have c2': "cabs s2 = v\<lparr>cv_pins := (pins s)(n := pins s n + 1), cv_blocked := (blocked s)(n := True),
      cv_free := nfree s - (if pins s n = 0 then 1 else 0)\<rparr>"
    unfolding c2 c1 abs_act_pins v ..
  have v2: "pins s2 = (pins s)(n := pins s n + 1)" "blocked s2 = (blocked s)(n := True)"
    "nfree s2 = nfree s - (if pins s n = 0 then 1 else 0)" "content s2 = cv_content v" "disk s2 = cv_disk v"
    using arg_cong [OF c2', of cv_pins] arg_cong [OF c2', of cv_blocked] arg_cong [OF c2', of cv_free]
      arg_cong [OF c2', of cv_content] arg_cong [OF c2', of cv_disk] by simp_all
  have "pins s2 n = 1 \<longrightarrow> content s2 n = disk s2 n" using cl by (simp add: v2)
  from brelse_spec [OF 2(2,3) this] obtain s3 where 3: "brelse b s2 = Ret s3" "cache_ok s3"
    and c3: "cabs s3 = (cabs s2)\<lparr>cv_pins := (pins s2)(n := pins s2 n - 1), cv_blocked := (blocked s2)(n := False),
      cv_free := nfree s2 + (if pins s2 n = 1 then 1 else 0)\<rparr>"
    by (elim exE conjE) (rule that)
  have f: "(pins s2)(n := pins s2 n - 1) = cv_pins v" "(blocked s2)(n := False) = cv_blocked v"
    "nfree s2 + (if pins s2 n = 1 then 1 else 0) = cv_free v"
    using nb fr by (auto simp: v2 v fun_eq_iff)
  have "cabs s3 = v" unfolding c3 f c2' by simp
  then show ?thesis using 1(1) 2(1) 3 by (auto simp: session_def)
qed

theorem cache_refines_witness:
  "\<exists>s'. session 41 [Modify (replicate BSIZE 5), Flush] demo_log = Ret s' \<and> cache_ok s' \<and>
     content s' 41 = replicate BSIZE 5 \<and> content s' 40 = replicate BSIZE 7"
proof -
  have i: "idle demo_log" using demo_log_ok by (simp add: commit_ready_def)
  note D = idleD [OF i]
  have c: "content demo_log 40 = replicate BSIZE 7"
    by (simp add: content_def cached_def) (simp add: demo_log_def upt_rec numeral_eq_Suc dirty_buf_def bkey_def)
  from cache_refines [OF D(1-3), of 41 _ "[Modify (replicate BSIZE 5), Flush]", OF _ refl]
  obtain s' where s': "session 41 [Modify (replicate BSIZE 5), Flush] demo_log = Ret s'" "cache_ok s'"
    and a: "cabs s' = fold (abs_act 41) [Modify (replicate BSIZE 5), Flush] (cabs demo_log)"
    using D(4) by auto
  have "content s' = (content demo_log)(41 := replicate BSIZE 5)"
    using arg_cong [OF a, of cv_content] by simp
  then show ?thesis using s' c by auto
qed

text \<open>C7: committing a transaction puts exactly its blocks on the disk.  In a state that is ready
  to commit, \<^verbatim>\<open>commit\<close> returns; outside the log area the disk then holds the cached contents
  of the blocks of the transaction and is otherwise unchanged, the log is empty in memory, and
  each block of the transaction has lost the pin that \<^verbatim>\<open>log_write\<close> gave it.
\<close>

theorem commit_installs:
  assumes "commit_ready s" "0 < lh_n (lhead s)"
  shows "\<exists>s'. commit s = Ret s' \<and> idle s' \<and> lh_n (lhead s') = 0 \<and>
    (\<forall>b. b \<notin> log_area s \<longrightarrow> disk s' b = (if b \<in> set (home s) then content s b else disk s b)) \<and>
    (\<forall>b. pins s' b = (if b \<in> set (home s) then pins s b - 1 else pins s b))"
proof -
  have lo: "log_ok s" using assms(1) by (simp add: commit_ready_def)
  show ?thesis using commit_spec [OF assms] crash_after(2) [OF lo] by (auto simp: committed_def)
qed

theorem commit_installs_witness:
  "\<exists>s'. commit demo_log = Ret s' \<and> disk s' 40 = replicate BSIZE 7"
proof -
  have h: "home demo_log = [40]" by (simp add: home_def demo_log_def)
  have lo: "log_ok demo_log" using demo_log_ok by (simp add: commit_ready_def)
  have "content demo_log 40 = replicate BSIZE 7"
    by (simp add: content_def cached_def) (simp add: demo_log_def upt_rec numeral_eq_Suc dirty_buf_def bkey_def)
  moreover have "40 \<notin> log_area demo_log" using lo h by (simp add: log_ok_def)
  ultimately show ?thesis using commit_installs [OF demo_log_ok] h by (auto simp: demo_log_def)
qed

text \<open>C2: a crash during a commit is invisible.  Let \<open>W\<close> be the writes that \<^verbatim>\<open>commit\<close> sends to
  the disk, and let the machine restart with an empty cache and a disk that has received only
  the first \<open>k\<close> of them.  Then \<^verbatim>\<open>recover_from_log\<close> returns, the log on the disk is empty,
  and outside the log area either no block has changed, or every block of the transaction has
  its new contents.  The transaction is kept exactly if the crash came after the header write.
\<close>

theorem commit_crash_atomic:
  assumes r: "commit_ready s" and n: "0 < lh_n (lhead s)"
    and c: "commit s = Ret s'" "dwrites s' = dwrites s @ W" and k: "k \<le> length W"
    and t: "rebooted t" "lg_start (logs t) = lg_start (logs s)" "disk t = puts (take k W) (disk s)"
  shows "\<exists>t'. recover_from_log t = Ret t' \<and> get32 (disk t' (lg_start (logs s))) 0 = 0 \<and>
    (\<forall>b. b \<notin> log_area s \<longrightarrow> disk t' b =
      (if lh_n (lhead s) < k \<and> b \<in> set (home s) then content s b else disk s b))"
proof -
  have lo: "log_ok s" and len: "length (content s (lg_start (logs s))) = BSIZE" "length (disk s (lg_start (logs s))) = BSIZE"
    and z: "get32 (disk s (lg_start (logs s))) 0 = 0"
    using r by (simp_all add: commit_ready_def)
  have W: "W = commit_writes s" using commit_spec [OF r n] c by auto
  have a: "b \<noteq> lg_start (logs s)" if "b \<notin> log_area s" for b using that by (auto simp: log_area_def)
  let ?n = "lh_n (lhead s)" and ?h = "lg_start (logs s)"
  note P = commit_prefix [OF refl refl k [unfolded W]]
  consider "k \<le> ?n" | "?n < k" "k \<le> 2 * ?n + 1" | "?n < k" "2 * ?n + 1 < k" by linarith
  then show ?thesis
  proof cases
    case 1
    then have d: "disk t = puts (log_writes s k) (disk s)" using t(3) P by (simp add: W)
    note b = crash_before [OF lo 1, folded d]
    show ?thesis using recover_empty [OF t(1)] b [of ?h] b a z len t(2) 1 by fastforce
  next
    case 2
    have m: "k - ?n - 1 \<le> ?n" using 2 by simp
    have "disk t = puts (log_writes s ?n @ [(?h, full_head s)] @ installs s (k - ?n - 1)) (disk s)"
      using 2 t(3) P by (simp add: W)
    note D = crash_during [OF lo m this]
    show ?thesis using recover_full [OF t(1) lo t(2) len(1) D(1,2)] D(3) a t(2) 2(1) by fastforce
  next
    case 3
    then have d: "disk t = puts (commit_writes s) (disk s)" using t(3) P by (simp add: W)
    note D = crash_after [OF lo, folded d]
    have "length (full_head s) = BSIZE" "get32 (empty_head s) 0 = 0" "length (empty_head s) = BSIZE"
      using head_bytes_spec [OF len(1)] log_okD(1) [OF lo]
      by (simp_all add: full_head_def empty_head_def head_bytes_spec)
    then show ?thesis using recover_empty [OF t(1)] D a t(2) 3(1) by (fastforce simp: committed_def)
  qed
qed

text \<open>The machine crashes after the header has been written, before block 40 is installed.\<close>

theorem commit_crash_atomic_witness:
  "\<exists>t'. recover_from_log (demo_crash 2) = Ret t' \<and> disk t' 40 = replicate BSIZE 7"
proof -
  have h: "home demo_log = [40]" "0 < lh_n (lhead demo_log)" "lh_n (lhead demo_log) = 1"
    by (simp_all add: home_def demo_log_def)
  have lo: "log_ok demo_log" using demo_log_ok by (simp add: commit_ready_def)
  have c: "content demo_log 40 = replicate BSIZE 7"
    by (simp add: content_def cached_def) (simp add: demo_log_def upt_rec numeral_eq_Suc dirty_buf_def bkey_def)
  have a: "40 \<notin> log_area demo_log" using lo h by (simp add: log_ok_def)
  from commit_spec [OF demo_log_ok h(2)] obtain s' where s': "commit demo_log = Ret s'"
    "dwrites s' = dwrites demo_log @ commit_writes demo_log" by blast
  have k: "2 \<le> length (commit_writes demo_log)" by (simp add: commit_writes_def h(3))
  have t: "lg_start (logs (demo_crash 2)) = lg_start (logs demo_log)"
    "disk (demo_crash 2) = puts (take 2 (commit_writes demo_log)) (disk demo_log)"
    by (simp_all add: demo_crash_def)
  show ?thesis
    using commit_crash_atomic [OF demo_log_ok h(2) s' k demo_crash_ok t] a h c by auto
qed

text \<open>C11: a transaction can fill the cache.  The log admits transactions of as many blocks as there
  are buffers, and each of their blocks is pinned.  When every buffer is referenced and the first
  log block is in none of them, \<^verbatim>\<open>commit\<close> stops the machine.
\<close>

theorem commit_no_buffers:
  assumes "0 < lh_n (lhead s)" "set (lru s) \<subseteq> {0..<length (bufs s)}"
    and "\<forall>i<length (bufs s). b_refcnt (bufs s ! i) \<noteq> 0 \<and>
      (b_dev (bufs s ! i), b_blockno (bufs s ! i)) \<noteq> (lg_dev (logs s), log_blk s 0)"
  shows "commit s = Panic ''bget: no buffers''"
proof -
  have "find (\<lambda>i. b_dev (bufs s ! i) = lg_dev (logs s) \<and> b_blockno (bufs s ! i) = log_blk s 0) (lru s) = None"
    "find (\<lambda>i. b_refcnt (bufs s ! i) = 0) (rev (lru s)) = None"
    using assms(2,3) by (force simp: find_None_iff)+
  then have "bread (lg_dev (logs s)) (log_blk s 0) s = Panic ''bget: no buffers''"
    by (simp add: bread_def bget_def)
  then have "write_log_one 0 s = Panic ''bget: no buffers''" by (simp add: write_log_one_def log_blk_def)
  then show ?thesis
    using assms(1) by (simp add: commit_def write_log_def upt_conv_Cons)
qed

theorem commit_no_buffers_witness:
  "lh_n (lhead demo_full) = LOGBLOCKS \<and> length (bufs demo_full) = NBUF \<and>
   commit demo_full = Panic ''bget: no buffers''"
proof -
  have "lh_n (lhead demo_full) = LOGBLOCKS" "length (bufs demo_full) = NBUF" "set (lru demo_full) = {0..<30}"
    "lg_start (logs demo_full) = 2"
    by (auto simp: demo_full_def demo_log_def)
  moreover have "bufs demo_full ! i = dirty_buf (40 + of_nat i)" if "i < 30" for i
    using that by (simp add: demo_full_def)
  moreover have "(40 + of_nat i :: u32) \<noteq> 3" if "i < 30" for i
  proof
    assume "(40 + of_nat i :: u32) = 3"
    then have "unat (of_nat (40 + i) :: u32) = unat (3 :: u32)" by (simp only: of_nat_add of_nat_numeral)
    moreover have "unat (of_nat (40 + i) :: u32) = 40 + i" using that by (subst unat_of_nat) simp
    ultimately show False by simp
  qed
  ultimately show ?thesis
    using commit_no_buffers [of demo_full] by (auto simp: dirty_buf_def log_blk_def)
qed

end
