(* ===== verification/Usermem.thy ===== *)
theory Usermem
  imports Paging
begin

text \<open>
  Copying between the kernel and user memory (\<^verbatim>\<open>copyout\<close>, \<^verbatim>\<open>copyin\<close>, \<^verbatim>\<open>copyinstr\<close> of
  \<^verbatim>\<open>kernel/vm.c\<close>, \<^verbatim>\<open>either_copyout\<close>, \<^verbatim>\<open>either_copyin\<close> of \<^verbatim>\<open>kernel/proc.c\<close>).  The kernel's
  side of a copy is a byte list.  A page that is not mapped is faulted in, as the code does.

  Loading through a null page table entry is a fault in kernel mode, which
  \<^verbatim>\<open>kerneltrap\<close> turns into a panic.
\<close>

section \<open>Definitions\<close>

lemma page_room:
  assumes "0 < n"
  shows "0 < min (4096 - unat (a - PGROUNDDOWN a)) n"
proof -
  have "unat (a - PGROUNDDOWN a) = unat a - unat (PGROUNDDOWN a)"
    using PGROUNDDOWN_le [of a] by (simp add: unat_sub_if' word_le_nat_alt)
  then have "unat (a - PGROUNDDOWN a) < 4096"
    by (simp add: unat_PGROUNDDOWN minus_mult_div_eq_mod)
  then show ?thesis using assms by simp
qed

text \<open>The physical address for a user page, by the page table or by a page fault; 0 on failure.\<close>

definition user_page :: "addr \<Rightarrow> u64 \<Rightarrow> 'a fsys_scheme \<Rightarrow> (addr \<times> 'a fsys_scheme) res" where
  "user_page pagetable va0 s =
     rbind (walkaddr pagetable va0 s) (\<lambda>pa0.
       if pa0 = 0 then vmfault pagetable va0 False s else Ret (pa0, s))"

function copyout :: "addr \<Rightarrow> u64 \<Rightarrow> byte list \<Rightarrow> 'a fsys_scheme \<Rightarrow> (int \<times> 'a fsys_scheme) res" where
  "copyout pagetable dstva src s =
     (if src \<noteq> []
      then
        let va0 = PGROUNDDOWN dstva in
        if va0 \<ge> MAXVA then Ret (- 1, s)
        else
          rbind (user_page pagetable va0 s) (\<lambda>(pa0, s).
            if pa0 = 0 then Ret (- 1, s)
            else
              rbind (walk pagetable va0 False s) (\<lambda>(pte, s).
                if pte = 0 then Panic ''kerneltrap''
                else if load64 (mem s) pte AND PTE_W = 0 then Ret (- 1, s)
                else
                  let n = min (4096 - unat (dstva - va0)) (length src);
                      s = s\<lparr>mem := write_bytes (mem s) (pa0 + (dstva - va0)) (take n src)\<rparr>
                  in copyout pagetable (va0 + PGSIZE) (drop n src) s))
      else Ret (0, s))"
  by pat_completeness auto
termination
  by (relation "measure (\<lambda>(pagetable, dstva, src, s). length src)")
    (simp, metis (no_types, lifting) diff_less in_measure length_drop length_greater_0_conv
      page_room prod.case)

declare copyout.simps [simp del]

text \<open>\<open>copyin\<close> also returns the bytes it has copied, all of them when the result is 0.\<close>

function copyin :: "addr \<Rightarrow> u64 \<Rightarrow> nat \<Rightarrow> 'a fsys_scheme \<Rightarrow>
    (int \<times> byte list \<times> 'a fsys_scheme) res" where
  "copyin pagetable srcva len s =
     (if 0 < len
      then
        let va0 = PGROUNDDOWN srcva in
        rbind (user_page pagetable va0 s) (\<lambda>(pa0, s).
          if pa0 = 0 then Ret (- 1, [], s)
          else
            let n = min (4096 - unat (srcva - va0)) len;
                bs = read_bytes (mem s) (pa0 + (srcva - va0)) n
            in
            rbind (copyin pagetable (va0 + PGSIZE) (len - n) s) (\<lambda>(r, cs, s).
            Ret (r, bs @ cs, s)))
      else Ret (0, [], s))"
  by pat_completeness auto
termination
  by (relation "measure (\<lambda>(pagetable, srcva, len, s). len)")
    (simp, metis (no_types, lifting) diff_less in_measure page_room prod.case)

declare copyin.simps [simp del]

text \<open>The bytes up to and including the first zero byte, if there is one in the range.\<close>

primrec copy_until_nul :: "memory \<Rightarrow> addr \<Rightarrow> nat \<Rightarrow> byte list \<times> bool" where
  "copy_until_nul m p 0 = ([], False)"
| "copy_until_nul m p (Suc n) =
     (if m p = 0 then ([0], True)
      else let (bs, got_null) = copy_until_nul m (p + 1) n in (m p # bs, got_null))"

function copyinstr :: "addr \<Rightarrow> u64 \<Rightarrow> nat \<Rightarrow> 'a fsys_scheme \<Rightarrow>
    (int \<times> byte list \<times> 'a fsys_scheme) res" where
  "copyinstr pagetable srcva maxlen s =
     (if 0 < maxlen
      then
        let va0 = PGROUNDDOWN srcva in
        rbind (user_page pagetable va0 s) (\<lambda>(pa0, s).
          if pa0 = 0 then Ret (- 1, [], s)
          else
            let n = min (4096 - unat (srcva - va0)) maxlen;
                (bs, got_null) = copy_until_nul (mem s) (pa0 + (srcva - va0)) n
            in
            if got_null then Ret (0, bs, s)
            else
              rbind (copyinstr pagetable (va0 + PGSIZE) (maxlen - n) s) (\<lambda>(r, cs, s).
              Ret (r, bs @ cs, s)))
      else Ret (- 1, [], s))"
  by pat_completeness auto
termination
  by (relation "measure (\<lambda>(pagetable, srcva, maxlen, s). maxlen)")
    (simp, metis (no_types, lifting) diff_less in_measure page_room prod.case)

declare copyinstr.simps [simp del]

definition either_copyout :: "bool \<Rightarrow> u64 \<Rightarrow> byte list \<Rightarrow> 'a fsys_scheme \<Rightarrow>
    (int \<times> 'a fsys_scheme) res" where
  "either_copyout user_dst dst src s =
     (if user_dst then copyout (p_pagetable (myproc s)) dst src s
      else Ret (0, s\<lparr>mem := write_bytes (mem s) dst src\<rparr>))"

definition either_copyin :: "bool \<Rightarrow> u64 \<Rightarrow> nat \<Rightarrow> 'a fsys_scheme \<Rightarrow>
    (int \<times> byte list \<times> 'a fsys_scheme) res" where
  "either_copyin user_src src len s =
     (if user_src then copyin (p_pagetable (myproc s)) src len s
      else Ret (0, read_bytes (mem s) src len, s))"

text \<open>The copy routines that \<open>readi\<close> and \<open>writei\<close> use for user addresses.\<close>

definition to_user :: "(unit, 'a fsys_scheme) copy_to" where
  "to_user dst bs d s = rbind (either_copyout True dst bs s) (\<lambda>(r, s). Ret (r, d, s))"

definition from_user :: "'a fsys_scheme copy_from" where
  "from_user src n s = either_copyin True src n s"

end
