(* ===== verification/Console.thy ===== *)
theory Console
  imports Usermem
begin

text \<open>
  The UART (\<^verbatim>\<open>kernel/uart.c\<close>) and the console (\<^verbatim>\<open>kernel/console.c\<close>), with
  \<^verbatim>\<open>procdump\<close> of \<^verbatim>\<open>kernel/proc.c\<close>, which the console calls.

  The device is a parameter: what the line status register answers is an argument
  (\<open>tx_idle\<close>, and the input characters \<open>cs\<close> that are waiting), and the writes to its
  registers are recorded in \<open>uart_regs\<close>.  \<^verbatim>\<open>uartputc_sync\<close> spins until the transmitter is
  idle; the spinning is left out.

  A routine that sleeps in the middle of its work returns \<open>Sleeping\<close> with the channel and the
  point at which it goes on, and has a \<open>resume\<close> function that goes on from there.
\<close>

section \<open>Sleeping in the middle of an operation\<close>

datatype 'k outcome = Finished int | Sleeping chan 'k

definition completed :: "('k outcome \<times> 's) res \<Rightarrow> (int \<times> 's) res" where
  "completed m =
     rbind m (\<lambda>(x, s). case x of Finished r \<Rightarrow> Ret (r, s) | Sleeping c k \<Rightarrow> Blocked ''sleep'')"

section \<open>The UART\<close>

abbreviation (input) THR :: nat where "THR \<equiv> 0"
abbreviation (input) IER :: nat where "IER \<equiv> 1"
abbreviation (input) FCR :: nat where "FCR \<equiv> 2"
abbreviation (input) LCR :: nat where "LCR \<equiv> 3"

definition WriteReg :: "nat \<Rightarrow> byte \<Rightarrow> 'a kernel_scheme \<Rightarrow> 'a kernel_scheme" where
  "WriteReg r v s = s\<lparr>uart_regs := uart_regs s @ [(r, v)]\<rparr>"

definition uartinit :: "'a kernel_scheme \<Rightarrow> 'a kernel_scheme" where
  "uartinit s =
     (let s = WriteReg IER 0 s;
          s = WriteReg LCR (push_bit 7 1) s;
          s = WriteReg 0 3 s;
          s = WriteReg 1 0 s;
          s = WriteReg LCR 3 s;
          s = WriteReg FCR (1 OR push_bit 1 3) s
      in WriteReg IER (2 OR 1) s)"

fun uartwrite_loop :: "byte list \<Rightarrow> 'a kernel_scheme \<Rightarrow> byte list outcome \<times> 'a kernel_scheme" where
  "uartwrite_loop [] s = (Finished 0, s)"
| "uartwrite_loop (b # bs) s =
     (if tx_busy s then (Sleeping ChTxIdle (b # bs), s)
      else uartwrite_loop bs ((WriteReg THR b s)\<lparr>tx_busy := True\<rparr>))"

definition uartputc_sync :: "byte \<Rightarrow> 'a kernel_scheme \<Rightarrow> 'a kernel_scheme res" where
  "uartputc_sync c s = (if panicked s then Blocked ''panicked'' else Ret (WriteReg THR c s))"

section \<open>The process listing\<close>

definition state_name :: "procstate \<Rightarrow> string" where
  "state_name st =
     (case st of
        UNUSED \<Rightarrow> ''unused'' | USED \<Rightarrow> ''used'' | SLEEPING \<Rightarrow> ''sleep ''
      | RUNNABLE \<Rightarrow> ''runble'' | RUNNING \<Rightarrow> ''run   '' | ZOMBIE \<Rightarrow> ''zombie'')"

definition name_str :: "byte list \<Rightarrow> string" where
  "name_str bs = map (\<lambda>b. char_of (unat b)) (takeWhile (\<lambda>b. b \<noteq> 0) bs)"

definition procdump :: "'a mach_scheme \<Rightarrow> 'a mach_scheme" where
  "procdump s =
     fold (\<lambda>p s. if p_state p = UNUSED then s
           else kprintf ''%d %s %s'' [PInt (p_pid p), PStr (state_name (p_state p)),
                  PStr (name_str (p_name p))] s)
       (procs s) (kprintf '''' [] s)"

section \<open>The console\<close>

abbreviation (input) INPUT_BUF_SIZE :: nat where "INPUT_BUF_SIZE \<equiv> 128"
abbreviation (input) BACKSPACE :: int where "BACKSPACE \<equiv> 256"
abbreviation (input) CONSOLE :: nat where "CONSOLE \<equiv> 1"

definition consputc :: "int \<Rightarrow> 'a kernel_scheme \<Rightarrow> 'a kernel_scheme res" where
  "consputc c s =
     (if c = BACKSPACE
      then
        rbind (uartputc_sync 8 s) (\<lambda>s.
        rbind (uartputc_sync 32 s) (\<lambda>s.
        uartputc_sync 8 s))
      else uartputc_sync (of_int c) s)"

function consolewrite_loop :: "bool \<Rightarrow> u64 \<Rightarrow> nat \<Rightarrow> nat \<Rightarrow> 'a kernel_scheme \<Rightarrow>
    ((nat \<times> byte list) outcome \<times> 'a kernel_scheme) res" where
  "consolewrite_loop user_src src i n s =
     (if i < n
      then
        let nn = min 32 (n - i) in
        rbind (either_copyin user_src (src + of_nat i) nn s) (\<lambda>(r, buf, s).
          if r = - 1 then Ret (Finished (int i), s)
          else
            case uartwrite_loop buf s of
              (Finished _, s) \<Rightarrow> consolewrite_loop user_src src (i + nn) n s
            | (Sleeping c rest, s) \<Rightarrow> Ret (Sleeping c (i + nn, rest), s))
      else Ret (Finished (int i), s))"
  by pat_completeness auto
termination by (relation "measure (\<lambda>(user_src, src, i, n, s). n - i)") auto

declare consolewrite_loop.simps [simp del]

definition consolewrite_resume :: "bool \<Rightarrow> u64 \<Rightarrow> nat \<Rightarrow> nat \<times> byte list \<Rightarrow> 'a kernel_scheme \<Rightarrow>
    ((nat \<times> byte list) outcome \<times> 'a kernel_scheme) res" where
  "consolewrite_resume user_src src n k s =
     (case uartwrite_loop (snd k) s of
        (Finished _, s) \<Rightarrow> consolewrite_loop user_src src (fst k) n s
      | (Sleeping c rest, s) \<Rightarrow> Ret (Sleeping c (fst k, rest), s))"

definition consolewrite :: "bool \<Rightarrow> u64 \<Rightarrow> int \<Rightarrow> 'a kernel_scheme \<Rightarrow>
    ((nat \<times> byte list) outcome \<times> 'a kernel_scheme) res" where
  "consolewrite user_src src n s = consolewrite_loop user_src src 0 (nat n) s"

definition cons_upd :: "(console \<Rightarrow> console) \<Rightarrow> 'a kernel_scheme \<Rightarrow> 'a kernel_scheme" where
  "cons_upd f s = s\<lparr>cons := f (cons s)\<rparr>"

definition cons_at :: "u32 \<Rightarrow> console \<Rightarrow> byte" where
  "cons_at i c = c_buf c ! (unat i mod INPUT_BUF_SIZE)"

text \<open>The loop of \<^verbatim>\<open>consoleread\<close> when \<open>n\<close> bytes are left; \<open>got\<close> says that some have been read.\<close>

primrec consoleread_loop :: "bool \<Rightarrow> u64 \<Rightarrow> bool \<Rightarrow> nat \<Rightarrow> 'a kernel_scheme \<Rightarrow>
    ((nat + u64 \<times> bool \<times> nat) option \<times> 'a kernel_scheme) res" where
  "consoleread_loop user_dst dst got 0 s = Ret (Some (Inl 0), s)"
| "consoleread_loop user_dst dst got (Suc n) s =
     (let c = cons s in
      if c_r c = c_w c
      then
        if killed (cur s) s then Ret (None, s)
        else Ret (Some (Inr (dst, got, Suc n)), s)
      else
        let ch = cons_at (c_r c) c;
            s = cons_upd (\<lambda>c. c\<lparr>c_r := c_r c + 1\<rparr>) s
        in
        if ch = 4
        then
          let s = (if got then cons_upd (\<lambda>c. c\<lparr>c_r := c_r c - 1\<rparr>) s else s)
          in Ret (Some (Inl (Suc n)), s)
        else
          rbind (either_copyout user_dst dst [ch] s) (\<lambda>(r, s).
            if r = - 1 then Ret (Some (Inl (Suc n)), s)
            else if ch = 10 then Ret (Some (Inl n), s)
            else consoleread_loop user_dst (dst + 1) True n s))"

text \<open>The loop ends with what is left of \<open>n\<close>, sleeps, or gives up because the process is
  killed (\<open>None\<close>).\<close>

definition consoleread_resume :: "bool \<Rightarrow> nat \<Rightarrow> u64 \<times> bool \<times> nat \<Rightarrow> 'a kernel_scheme \<Rightarrow>
    ((u64 \<times> bool \<times> nat) outcome \<times> 'a kernel_scheme) res" where
  "consoleread_resume user_dst target k s =
     (case k of (dst, got, n) \<Rightarrow>
      rbind (consoleread_loop user_dst dst got n s) (\<lambda>(x, s).
        case x of
          None \<Rightarrow> Ret (Finished (- 1), s)
        | Some (Inl left) \<Rightarrow> Ret (Finished (int target - int left), s)
        | Some (Inr k) \<Rightarrow> Ret (Sleeping ChCons k, s)))"

definition consoleread :: "bool \<Rightarrow> u64 \<Rightarrow> int \<Rightarrow> 'a kernel_scheme \<Rightarrow>
    ((u64 \<times> bool \<times> nat) outcome \<times> 'a kernel_scheme) res" where
  "consoleread user_dst dst n s = consoleread_resume user_dst (nat n) (dst, False, nat n) s"

text \<open>Erasing the line; the first argument bounds the number of characters, of which there are
  at most \<open>e - w\<close>.\<close>

primrec kill_line :: "nat \<Rightarrow> 'a kernel_scheme \<Rightarrow> 'a kernel_scheme res" where
  "kill_line 0 s = Ret s"
| "kill_line (Suc k) s =
     (let c = cons s in
      if c_e c \<noteq> c_w c \<and> cons_at (c_e c - 1) c \<noteq> 10
      then
        rbind (consputc BACKSPACE (cons_upd (\<lambda>c. c\<lparr>c_e := c_e c - 1\<rparr>) s)) (\<lambda>s. kill_line k s)
      else Ret s)"

definition consoleintr :: "byte \<Rightarrow> 'a kernel_scheme \<Rightarrow> 'a kernel_scheme res" where
  "consoleintr ch s =
     (if ch = 16 then Ret (procdump s)
      else if ch = 21 then kill_line (unat (c_e (cons s) - c_w (cons s))) s
      else if ch = 8 \<or> ch = 0x7f
      then
        if c_e (cons s) \<noteq> c_w (cons s)
        then consputc BACKSPACE (cons_upd (\<lambda>c. c\<lparr>c_e := c_e c - 1\<rparr>) s)
        else Ret s
      else if ch \<noteq> 0 \<and> unat (c_e (cons s) - c_r (cons s)) < INPUT_BUF_SIZE
      then
        let ch = (if ch = 13 then 10 else ch) in
        rbind (consputc (uint ch) s) (\<lambda>s.
        let s = cons_upd (\<lambda>c. c\<lparr>c_buf := (c_buf c)[unat (c_e c) mod INPUT_BUF_SIZE := ch],
                               c_e := c_e c + 1\<rparr>) s
        in
        if ch = 10 \<or> ch = 4 \<or> unat (c_e (cons s) - c_r (cons s)) = INPUT_BUF_SIZE
        then Ret (wakeup ChCons (cons_upd (\<lambda>c. c\<lparr>c_w := c_e c\<rparr>) s))
        else Ret s)
      else Ret s)"

definition consoleinit :: "'a kernel_scheme \<Rightarrow> 'a kernel_scheme" where
  "consoleinit s = (let s = uartinit s in s\<lparr>devsw := (devsw s)[CONSOLE := True]\<rparr>)"

definition uartintr :: "bool \<Rightarrow> byte list \<Rightarrow> 'a kernel_scheme \<Rightarrow> 'a kernel_scheme res" where
  "uartintr tx_idle cs s =
     (let s = (if tx_idle then wakeup ChTxIdle (s\<lparr>tx_busy := False\<rparr>) else s)
      in rfold consoleintr cs s)"

end
