(* ===== verification/File.thy ===== *)
theory File
  imports Console
begin

text \<open>
  Open files (\<^verbatim>\<open>kernel/file.c\<close>) and pipes (\<^verbatim>\<open>kernel/pipe.c\<close>).  A pipe lives in a page of
  its own and is named by the page's address; its fields are kept in \<open>pipes\<close> and not in the
  bytes of that page.

  \<^verbatim>\<open>pipewrite\<close> and \<^verbatim>\<open>piperead\<close> return \<open>Sleeping\<close> where the code sleeps, so that a writer
  and a reader can be run in turns.
\<close>

section \<open>The file table\<close>

abbreviation filep :: "nat \<Rightarrow> 'a kernel_scheme \<Rightarrow> kfile" where
  "filep f s \<equiv> ftable s ! f"

definition file_upd :: "nat \<Rightarrow> (kfile \<Rightarrow> kfile) \<Rightarrow> 'a kernel_scheme \<Rightarrow> 'a kernel_scheme" where
  "file_upd f g s = s\<lparr>ftable := (ftable s)[f := g (filep f s)]\<rparr>"

definition filealloc :: "'a kernel_scheme \<Rightarrow> nat option \<times> 'a kernel_scheme" where
  "filealloc s =
     (case find (\<lambda>f. f_ref (filep f s) = 0) [0..<length (ftable s)] of
        Some f \<Rightarrow> (Some f, file_upd f (\<lambda>x. x\<lparr>f_ref := 1\<rparr>) s)
      | None \<Rightarrow> (None, s))"

definition filedup :: "nat \<Rightarrow> 'a kernel_scheme \<Rightarrow> 'a kernel_scheme res" where
  "filedup f s =
     (if f_ref (filep f s) < 1 then Panic ''filedup''
      else Ret (file_upd f (\<lambda>x. x\<lparr>f_ref := f_ref x + 1\<rparr>) s))"

section \<open>Pipes\<close>

abbreviation (input) PIPESIZE :: nat where "PIPESIZE \<equiv> 512"

abbreviation pipep :: "addr \<Rightarrow> 'a kernel_scheme \<Rightarrow> pipe" where
  "pipep pi s \<equiv> the (pipes s pi)"

definition pipe_upd :: "addr \<Rightarrow> (pipe \<Rightarrow> pipe) \<Rightarrow> 'a kernel_scheme \<Rightarrow> 'a kernel_scheme" where
  "pipe_upd pi g s = s\<lparr>pipes := (pipes s)(pi \<mapsto> g (pipep pi s))\<rparr>"

definition pipeclose :: "addr \<Rightarrow> bool \<Rightarrow> 'a kernel_scheme \<Rightarrow> 'a kernel_scheme res" where
  "pipeclose pi writable s =
     (let s = (if writable
               then wakeup (ChNread pi) (pipe_upd pi (\<lambda>p. p\<lparr>pi_writeopen := False\<rparr>) s)
               else wakeup (ChNwrite pi) (pipe_upd pi (\<lambda>p. p\<lparr>pi_readopen := False\<rparr>) s))
      in
      if \<not> pi_readopen (pipep pi s) \<and> \<not> pi_writeopen (pipep pi s)
      then rbind (kfree pi s) (\<lambda>s. Ret (s\<lparr>pipes := (pipes s)(pi := None)\<rparr>))
      else Ret s)"

definition fileclose :: "nat \<Rightarrow> 'a kernel_scheme \<Rightarrow> 'a kernel_scheme res" where
  "fileclose f s =
     (if f_ref (filep f s) < 1 then Panic ''fileclose''
      else
        let s = file_upd f (\<lambda>x. x\<lparr>f_ref := f_ref x - 1\<rparr>) s in
        if f_ref (filep f s) > 0 then Ret s
        else
          let ff = filep f s;
              s = file_upd f (\<lambda>x. x\<lparr>f_ref := 0, f_type := FD_NONE\<rparr>) s
          in
          if f_type ff = FD_PIPE then pipeclose (f_pipe ff) (f_writable ff) s
          else if f_type ff = FD_INODE \<or> f_type ff = FD_DEVICE
          then
            rbind (begin_op s) (\<lambda>s.
            rbind (iput (the (f_ip ff)) s) (\<lambda>s.
            end_op s))
          else Ret s)"

definition pipe_end :: "addr \<Rightarrow> bool \<Rightarrow> kfile \<Rightarrow> kfile" where
  "pipe_end pi writable x =
     x\<lparr>f_type := FD_PIPE, f_readable := \<not> writable, f_writable := writable, f_pipe := pi\<rparr>"

definition pipealloc :: "'a kernel_scheme \<Rightarrow> ((nat \<times> nat) option \<times> 'a kernel_scheme) res" where
  "pipealloc s =
     (case filealloc s of
        (None, s) \<Rightarrow> Ret (None, s)
      | (Some f0, s) \<Rightarrow>
          case filealloc s of
            (None, s) \<Rightarrow> rbind (fileclose f0 s) (\<lambda>s. Ret (None, s))
          | (Some f1, s) \<Rightarrow>
              let (pi, s) = kalloc s in
              if pi = 0
              then
                rbind (fileclose f0 s) (\<lambda>s.
                rbind (fileclose f1 s) (\<lambda>s.
                Ret (None, s)))
              else
                let s = s\<lparr>pipes := (pipes s)(pi \<mapsto>
                          \<lparr>pi_data = replicate PIPESIZE 5, pi_nread = 0, pi_nwrite = 0,
                           pi_readopen = True, pi_writeopen = True\<rparr>)\<rparr>;
                    s = file_upd f0 (pipe_end pi False) s;
                    s = file_upd f1 (pipe_end pi True) s
                in Ret (Some (f0, f1), s))"

definition pipe_put :: "byte \<Rightarrow> pipe \<Rightarrow> pipe" where
  "pipe_put ch p =
     p\<lparr>pi_data := (pi_data p)[unat (pi_nwrite p) mod PIPESIZE := ch],
       pi_nwrite := pi_nwrite p + 1\<rparr>"

definition pipe_get :: "pipe \<Rightarrow> byte \<times> pipe" where
  "pipe_get p =
     (pi_data p ! (unat (pi_nread p) mod PIPESIZE), p\<lparr>pi_nread := pi_nread p + 1\<rparr>)"

function pipewrite_loop :: "addr \<Rightarrow> u64 \<Rightarrow> nat \<Rightarrow> nat \<Rightarrow> 'a kernel_scheme \<Rightarrow>
    (nat outcome \<times> 'a kernel_scheme) res" where
  "pipewrite_loop pi addr i n s =
     (if i < n
      then
        if \<not> pi_readopen (pipep pi s) \<or> killed (cur s) s then Ret (Finished (- 1), s)
        else if pi_nwrite (pipep pi s) = pi_nread (pipep pi s) + of_nat PIPESIZE
        then Ret (Sleeping (ChNwrite pi) i, wakeup (ChNread pi) s)
        else
          rbind (copyin (p_pagetable (myproc s)) (addr + of_nat i) 1 s) (\<lambda>(r, bs, s).
            if r = - 1 then Ret (Finished (int i), wakeup (ChNread pi) s)
            else pipewrite_loop pi addr (i + 1) n (pipe_upd pi (pipe_put (hd bs)) s))
      else Ret (Finished (int i), wakeup (ChNread pi) s))"
  by pat_completeness auto
termination by (relation "measure (\<lambda>(pi, addr, i, n, s). n - i)") simp_all

declare pipewrite_loop.simps [simp del]

definition pipewrite :: "addr \<Rightarrow> u64 \<Rightarrow> int \<Rightarrow> 'a kernel_scheme \<Rightarrow>
    (nat outcome \<times> 'a kernel_scheme) res" where
  "pipewrite pi addr n s = pipewrite_loop pi addr 0 (nat n) s"

text \<open>\<open>k\<close> bytes are left to read.\<close>

primrec piperead_loop :: "addr \<Rightarrow> u64 \<Rightarrow> nat \<Rightarrow> nat \<Rightarrow> 'a kernel_scheme \<Rightarrow>
    (nat \<times> 'a kernel_scheme) res" where
  "piperead_loop pi addr i 0 s = Ret (i, s)"
| "piperead_loop pi addr i (Suc k) s =
     (if pi_nread (pipep pi s) = pi_nwrite (pipep pi s) then Ret (i, s)
      else
        let ch = fst (pipe_get (pipep pi s));
            s = pipe_upd pi (snd \<circ> pipe_get) s
        in
        rbind (copyout (p_pagetable (myproc s)) (addr + of_nat i) [ch] s) (\<lambda>(r, s).
          if r = - 1 then Ret (i, s) else piperead_loop pi addr (i + 1) k s))"

definition piperead :: "addr \<Rightarrow> u64 \<Rightarrow> int \<Rightarrow> 'a kernel_scheme \<Rightarrow>
    (unit outcome \<times> 'a kernel_scheme) res" where
  "piperead pi addr n s =
     (if pi_nread (pipep pi s) = pi_nwrite (pipep pi s) \<and> pi_writeopen (pipep pi s)
      then
        if killed (cur s) s then Ret (Finished (- 1), s) else Ret (Sleeping (ChNread pi) (), s)
      else
        rbind (piperead_loop pi addr 0 (nat n) s) (\<lambda>(i, s).
        Ret (Finished (int i), wakeup (ChNwrite pi) s)))"

section \<open>Operations on open files\<close>

text \<open>The layout of \<^verbatim>\<open>struct stat\<close>.  Its four bytes of padding, which C leaves unspecified,
  are 0 here.\<close>

definition stat_bytes :: "stat \<Rightarrow> byte list" where
  "stat_bytes st =
     le_bytes 4 (st_dev st) @ le_bytes 4 (st_ino st) @ le_bytes 2 (st_type st) @
     le_bytes 2 (st_nlink st) @ replicate 4 0 @ le_bytes 8 (st_size st)"

definition filestat :: "nat \<Rightarrow> u64 \<Rightarrow> 'a kernel_scheme \<Rightarrow> (int \<times> 'a kernel_scheme) res" where
  "filestat f addr s =
     (if f_type (filep f s) = FD_INODE \<or> f_type (filep f s) = FD_DEVICE
      then
        rbind (ilock (f_ip (filep f s)) s) (\<lambda>s.
        let st = stati (the (f_ip (filep f s))) s in
        rbind (iunlock (f_ip (filep f s)) s) (\<lambda>s.
        rbind (copyout (p_pagetable (myproc s)) addr (stat_bytes st) s) (\<lambda>(r, s).
          if r < 0 then Ret (- 1, s) else Ret (0, s))))
      else Ret (- 1, s))"

definition no_device :: "nat \<Rightarrow> 'a kernel_scheme \<Rightarrow> bool" where
  "no_device f s \<longleftrightarrow>
     (let major = sint (f_major (filep f s)) in
      major < 0 \<or> major \<ge> int NDEV \<or> \<not> devsw s ! nat major)"

definition fileread :: "nat \<Rightarrow> u64 \<Rightarrow> int \<Rightarrow> 'a kernel_scheme \<Rightarrow> (int \<times> 'a kernel_scheme) res" where
  "fileread f addr n s =
     (if \<not> f_readable (filep f s) then Ret (- 1, s)
      else
        case f_type (filep f s) of
          FD_PIPE \<Rightarrow> completed (piperead (f_pipe (filep f s)) addr n s)
        | FD_DEVICE \<Rightarrow>
            if no_device f s then Ret (- 1, s) else completed (consoleread True addr n s)
        | FD_INODE \<Rightarrow>
            let ipo = f_ip (filep f s) in
            rbind (ilock ipo s) (\<lambda>s.
            rbind (readi to_user (the ipo) addr (f_off (filep f s)) (of_int n) () s) (\<lambda>(r, _, s).
            let s = (if r > 0 then file_upd f (\<lambda>x. x\<lparr>f_off := f_off x + of_int r\<rparr>) s else s) in
            rbind (iunlock ipo s) (\<lambda>s. Ret (r, s))))
        | FD_NONE \<Rightarrow> Panic ''fileread'')"

definition max_write :: nat where
  "max_write = ((MAXOPBLOCKS - 1 - 1 - 2) div 2) * BSIZE"

function filewrite_loop :: "nat \<Rightarrow> u64 \<Rightarrow> nat \<Rightarrow> nat \<Rightarrow> 'a kernel_scheme \<Rightarrow>
    (nat \<times> 'a kernel_scheme) res" where
  "filewrite_loop f addr i n s =
     (if i < n
      then
        let n1 = min (n - i) max_write; ipo = f_ip (filep f s) in
        rbind (begin_op s) (\<lambda>s.
        rbind (ilock ipo s) (\<lambda>s.
        rbind (writei from_user (the ipo) (addr + of_nat i) (f_off (filep f s)) (of_nat n1) s)
          (\<lambda>(r, s).
        let s = (if r > 0 then file_upd f (\<lambda>x. x\<lparr>f_off := f_off x + of_int r\<rparr>) s else s) in
        rbind (iunlock ipo s) (\<lambda>s.
        rbind (end_op s) (\<lambda>s.
          if r \<noteq> int n1 then Ret (i, s) else filewrite_loop f addr (i + n1) n s)))))
      else Ret (i, s))"
  by pat_completeness auto
termination
  by (relation "measure (\<lambda>(f, addr, i, n, s). n - i)") (simp_all add: max_write_def)

declare filewrite_loop.simps [simp del]

definition filewrite :: "nat \<Rightarrow> u64 \<Rightarrow> int \<Rightarrow> 'a kernel_scheme \<Rightarrow> (int \<times> 'a kernel_scheme) res" where
  "filewrite f addr n s =
     (if \<not> f_writable (filep f s) then Ret (- 1, s)
      else
        case f_type (filep f s) of
          FD_PIPE \<Rightarrow> completed (pipewrite (f_pipe (filep f s)) addr n s)
        | FD_DEVICE \<Rightarrow>
            if no_device f s then Ret (- 1, s) else completed (consolewrite True addr n s)
        | FD_INODE \<Rightarrow>
            rbind (filewrite_loop f addr 0 (nat n) s) (\<lambda>(i, s).
            Ret (if int i = n then n else - 1, s))
        | FD_NONE \<Rightarrow> Panic ''filewrite'')"

end
