(* ===== verification/Proc.thy ===== *)
theory Proc
  imports File
begin

text \<open>
  Processes (\<^verbatim>\<open>kernel/proc.c\<close>) and the kernel's own page table (\<^verbatim>\<open>kvmmake\<close> and its
  callers in \<^verbatim>\<open>kernel/vm.c\<close>).  The kernel stack and the saved context of a process
  (\<^verbatim>\<open>p->context\<close>) belong to \<^verbatim>\<open>swtch.S\<close> and are not modelled.

  The trapframe is a page of memory; a field is the 64-bit word at its offset
  (\<^verbatim>\<open>struct trapframe\<close> in \<^verbatim>\<open>kernel/proc.h\<close>).
\<close>

section \<open>The trapframe\<close>

abbreviation (input) TF_KERNEL_SATP :: u64 where "TF_KERNEL_SATP \<equiv> 0"
abbreviation (input) TF_KERNEL_SP :: u64 where "TF_KERNEL_SP \<equiv> 8"
abbreviation (input) TF_KERNEL_TRAP :: u64 where "TF_KERNEL_TRAP \<equiv> 16"
abbreviation (input) TF_EPC :: u64 where "TF_EPC \<equiv> 24"
abbreviation (input) TF_KERNEL_HARTID :: u64 where "TF_KERNEL_HARTID \<equiv> 32"
abbreviation (input) TF_SP :: u64 where "TF_SP \<equiv> 48"
abbreviation (input) TF_A0 :: u64 where "TF_A0 \<equiv> 112"
abbreviation (input) TF_A1 :: u64 where "TF_A1 \<equiv> 120"
abbreviation (input) TF_A7 :: u64 where "TF_A7 \<equiv> 168"
abbreviation (input) TF_SIZE :: nat where "TF_SIZE \<equiv> 288"

definition tf_get :: "nat \<Rightarrow> u64 \<Rightarrow> 'a mach_scheme \<Rightarrow> u64" where
  "tf_get i off s = load64 (mem s) (p_trapframe (procs s ! i) + off)"

definition tf_set :: "nat \<Rightarrow> u64 \<Rightarrow> u64 \<Rightarrow> 'a mach_scheme \<Rightarrow> 'a mach_scheme" where
  "tf_set i off v s = s\<lparr>mem := store64 (mem s) (p_trapframe (procs s ! i) + off) v\<rparr>"

section \<open>The kernel page table\<close>

definition kvmmap :: "addr \<Rightarrow> u64 \<Rightarrow> addr \<Rightarrow> u64 \<Rightarrow> u64 \<Rightarrow> 'a kmem_scheme \<Rightarrow> 'a kmem_scheme res" where
  "kvmmap kpgtbl va pa sz perm s =
     rbind (mappages kpgtbl va sz pa perm s) (\<lambda>(r, s).
       if r \<noteq> 0 then Panic ''kvmmap'' else Ret s)"

definition proc_mapstacks :: "addr \<Rightarrow> 'a kmem_scheme \<Rightarrow> 'a kmem_scheme res" where
  "proc_mapstacks kpgtbl s =
     rfold (\<lambda>p s.
       let (pa, s) = kalloc s in
       if pa = 0 then Panic ''kalloc''
       else kvmmap kpgtbl (KSTACK p) pa PGSIZE (PTE_R OR PTE_W) s) [0..<NPROC] s"

definition kvmmake :: "'a mach_scheme \<Rightarrow> (addr \<times> 'a mach_scheme) res" where
  "kvmmake s =
     (let (kpgtbl, s) = kalloc s;
          s = s\<lparr>mem := memset (mem s) kpgtbl 0 4096\<rparr>
      in
      rbind (kvmmap kpgtbl UART0 UART0 PGSIZE (PTE_R OR PTE_W) s) (\<lambda>s.
      rbind (kvmmap kpgtbl VIRTIO0 VIRTIO0 PGSIZE (PTE_R OR PTE_W) s) (\<lambda>s.
      rbind (kvmmap kpgtbl PLIC PLIC 0x4000000 (PTE_R OR PTE_W) s) (\<lambda>s.
      rbind (kvmmap kpgtbl KERNBASE KERNBASE (etext s - KERNBASE) (PTE_R OR PTE_X) s) (\<lambda>s.
      rbind (kvmmap kpgtbl (etext s) (etext s) (PHYSTOP - etext s) (PTE_R OR PTE_W) s) (\<lambda>s.
      rbind (kvmmap kpgtbl TRAMPOLINE (trampoline s) PGSIZE (PTE_R OR PTE_X) s) (\<lambda>s.
      rbind (proc_mapstacks kpgtbl s) (\<lambda>s.
      Ret (kpgtbl, s)))))))))"

definition kvminit :: "'a mach_scheme \<Rightarrow> 'a mach_scheme res" where
  "kvminit s = rbind (kvmmake s) (\<lambda>(kpgtbl, s). Ret (s\<lparr>kernel_pagetable := kpgtbl\<rparr>))"

text \<open>The value that \<^verbatim>\<open>kvminithart\<close> puts into \<^verbatim>\<open>satp\<close>.\<close>

definition kvminithart :: "'a mach_scheme \<Rightarrow> u64" where
  "kvminithart s = MAKE_SATP (kernel_pagetable s)"

section \<open>The process table\<close>

definition procinit :: "'a mach_scheme \<Rightarrow> 'a mach_scheme" where
  "procinit s =
     s\<lparr>procs := map (\<lambda>i. (procs s ! i)\<lparr>p_state := UNUSED, p_kstack := KSTACK i\<rparr>)
                  [0..<length (procs s)]\<rparr>"

text \<open>Process identifiers have the width of a C \<^verbatim>\<open>int\<close>.\<close>

definition allocpid :: "'a mach_scheme \<Rightarrow> int \<times> 'a mach_scheme" where
  "allocpid s = (nextpid s, s\<lparr>nextpid := signed_take_bit 31 (nextpid s + 1)\<rparr>)"

definition proc_pagetable :: "nat \<Rightarrow> 'a mach_scheme \<Rightarrow> (addr \<times> 'a mach_scheme) res" where
  "proc_pagetable i s =
     (let (pagetable, s) = uvmcreate s in
      if pagetable = 0 then Ret (0, s)
      else
        rbind (mappages pagetable TRAMPOLINE PGSIZE (trampoline s) (PTE_R OR PTE_X) s) (\<lambda>(r, s).
          if r < 0 then rbind (uvmfree pagetable 0 s) (\<lambda>s. Ret (0, s))
          else
            rbind (mappages pagetable TRAPFRAME PGSIZE (p_trapframe (procs s ! i))
                     (PTE_R OR PTE_W) s) (\<lambda>(r, s).
              if r < 0
              then
                rbind (uvmunmap pagetable TRAMPOLINE 1 False s) (\<lambda>s.
                rbind (uvmfree pagetable 0 s) (\<lambda>s. Ret (0, s)))
              else Ret (pagetable, s))))"

definition proc_freepagetable :: "addr \<Rightarrow> u64 \<Rightarrow> 'a kmem_scheme \<Rightarrow> 'a kmem_scheme res" where
  "proc_freepagetable pagetable sz s =
     rbind (uvmunmap pagetable TRAMPOLINE 1 False s) (\<lambda>s.
     rbind (uvmunmap pagetable TRAPFRAME 1 False s) (\<lambda>s.
     uvmfree pagetable sz s))"

definition freeproc :: "nat \<Rightarrow> 'a fsys_scheme \<Rightarrow> 'a fsys_scheme res" where
  "freeproc i s =
     rbind (if p_trapframe (procs s ! i) \<noteq> 0 then kfree (p_trapframe (procs s ! i)) s else Ret s)
       (\<lambda>s.
     let s = proc_upd i (\<lambda>p. p\<lparr>p_trapframe := 0\<rparr>) s in
     rbind (if p_pagetable (procs s ! i) \<noteq> 0
            then proc_freepagetable (p_pagetable (procs s ! i)) (p_sz (procs s ! i)) s else Ret s)
       (\<lambda>s.
     let s = proc_upd i (\<lambda>p. p\<lparr>p_pagetable := 0\<rparr>) s in
     rbind (case p_execfile (procs s ! i) of
              None \<Rightarrow> Ret s
            | Some ip \<Rightarrow>
                rbind (iput ip s) (\<lambda>s. Ret (proc_upd i (\<lambda>p. p\<lparr>p_execfile := None\<rparr>) s))) (\<lambda>s.
     rbind (if p_swapfile (procs s ! i) \<noteq> None then close_swapfile s else Ret s) (\<lambda>s.
     Ret (proc_upd i (\<lambda>p. p\<lparr>p_sz := 0, p_pid := 0, p_parent := None,
            p_name := (p_name p)[0 := 0], p_chan := ChNone, p_killed := False, p_xstate := 0,
            p_state := UNUSED\<rparr>) s)))))"

definition fresh_paging :: "proc \<Rightarrow> proc" where
  "fresh_paging p =
     p\<lparr>p_execfile := None, p_nsegments := 0, p_text_start := 0, p_text_end := 0, p_data_end := 0,
       p_segments := replicate MAX_SEGMENTS \<lparr>seg_vaddr = 0, seg_filesz = 0, seg_memsz = 0,
         seg_offset = 0, seg_flags = 0\<rparr>,
       p_nresident := 0, p_next_seq := 0, p_clock_hand := 0,
       p_swapfile := None, p_nswapped := 0, p_swapname := (p_swapname p)[0 := 0],
       p_swap_bitmap := replicate 32 0,
       p_resident := map (\<lambda>r. r\<lparr>rp_va := 0, rp_seq := 0, rp_dirty := False,
         rp_swap_offset := - 1, rp_in_memory := False\<rparr>) (p_resident p),
       p_swap_map := replicate MAX_SWAP_PAGES \<lparr>sw_va = - 1, sw_slot = - 1\<rparr>\<rparr>"

definition allocproc :: "'a fsys_scheme \<Rightarrow> (nat option \<times> 'a fsys_scheme) res" where
  "allocproc s =
     (case find (\<lambda>i. p_state (procs s ! i) = UNUSED) [0..<length (procs s)] of
        None \<Rightarrow> Ret (None, s)
      | Some i \<Rightarrow>
          let (pid, s) = allocpid s;
              s = proc_upd i (\<lambda>p. p\<lparr>p_pid := pid, p_state := USED\<rparr>) s;
              (tf, s) = kalloc s;
              s = proc_upd i (\<lambda>p. p\<lparr>p_trapframe := tf\<rparr>) s
          in
          if tf = 0 then rbind (freeproc i s) (\<lambda>s. Ret (None, s))
          else
            rbind (proc_pagetable i s) (\<lambda>(pagetable, s).
            let s = proc_upd i (\<lambda>p. p\<lparr>p_pagetable := pagetable\<rparr>) s in
            if pagetable = 0 then rbind (freeproc i s) (\<lambda>s. Ret (None, s))
            else Ret (Some i, proc_upd i fresh_paging s)))"

definition userinit :: "'a fsys_scheme \<Rightarrow> 'a fsys_scheme res" where
  "userinit s =
     rbind (allocproc s) (\<lambda>(p, s).
       case p of
         None \<Rightarrow> Panic ''kerneltrap''
       | Some i \<Rightarrow>
           rbind (namei [SLASH] (s\<lparr>initproc := i\<rparr>)) (\<lambda>(ip, s).
           Ret (proc_upd i (\<lambda>p. p\<lparr>p_cwd := ip, p_state := RUNNABLE\<rparr>) s)))"

definition growproc :: "int \<Rightarrow> 'a mach_scheme \<Rightarrow> (int \<times> 'a mach_scheme) res" where
  "growproc n s =
     (let p = myproc s; sz = p_sz p in
      if n > 0
      then
        rbind (uvmalloc (p_pagetable p) sz (sz + of_int n) PTE_W s) (\<lambda>(sz, s).
          if sz = 0 then Ret (- 1, s) else Ret (0, myproc_upd (\<lambda>p. p\<lparr>p_sz := sz\<rparr>) s))
      else if n < 0
      then
        rbind (uvmdealloc (p_pagetable p) sz (sz + of_int n) s) (\<lambda>(sz, s).
        Ret (0, myproc_upd (\<lambda>p. p\<lparr>p_sz := sz\<rparr>) s))
      else Ret (0, s))"

section \<open>Fork, exit and wait\<close>

text \<open>The open files, the executable and the working directory of the child.\<close>

definition dup_ofile :: "nat \<Rightarrow> nat \<Rightarrow> 'a kernel_scheme \<Rightarrow> 'a kernel_scheme res" where
  "dup_ofile np fd s =
     (case p_ofile (myproc s) ! fd of
        None \<Rightarrow> Ret s
      | Some f \<Rightarrow>
          rbind (filedup f s) (\<lambda>s.
          Ret (proc_upd np (\<lambda>p. p\<lparr>p_ofile := (p_ofile p)[fd := Some f]\<rparr>) s)))"

definition copy_exec_info :: "nat \<Rightarrow> 'a fsys_scheme \<Rightarrow> 'a fsys_scheme" where
  "copy_exec_info np s =
     (let p = myproc s;
          s = (case p_execfile p of
                 None \<Rightarrow> s
               | Some ip \<Rightarrow> proc_upd np (\<lambda>q. q\<lparr>p_execfile := Some ip\<rparr>) (idup ip s))
      in
      proc_upd np (\<lambda>q. q\<lparr>p_nsegments := p_nsegments p,
        p_segments := take (p_nsegments p) (p_segments p) @ drop (p_nsegments p) (p_segments q),
        p_text_start := p_text_start p, p_text_end := p_text_end p,
        p_data_end := p_data_end p\<rparr>) s)"

definition kfork :: "'a kernel_scheme \<Rightarrow> (int \<times> 'a kernel_scheme) res" where
  "kfork s =
     rbind (allocproc s) (\<lambda>(npo, s).
       case npo of
         None \<Rightarrow> Ret (- 1, s)
       | Some np \<Rightarrow>
           let p = myproc s in
           rbind (uvmcopy (p_pagetable p) (p_pagetable (procs s ! np)) (p_sz p) s) (\<lambda>(r, s).
             if r < 0 then rbind (freeproc np s) (\<lambda>s. Ret (- 1, s))
             else
               let s = proc_upd np (\<lambda>q. q\<lparr>p_sz := p_sz p\<rparr>) s;
                   s = copy_exec_info np s;
                   s = s\<lparr>mem := write_bytes (mem s) (p_trapframe (procs s ! np))
                         (read_bytes (mem s) (p_trapframe p) TF_SIZE)\<rparr>;
                   s = tf_set np TF_A0 0 s
               in
               rbind (rfold (dup_ofile np) [0..<NOFILE] s) (\<lambda>s.
               let s = idup (the (p_cwd p)) s;
                   s = proc_upd np (\<lambda>q. q\<lparr>p_cwd := p_cwd p,
                         p_name := safestrcpy (p_name q) (cptr (p_name p)) 16\<rparr>) s;
                   pid = p_pid (procs s ! np);
                   s = proc_upd np (\<lambda>q. q\<lparr>p_parent := Some (cur s), p_state := RUNNABLE\<rparr>) s
               in Ret (pid, s))))"

definition reparent :: "nat \<Rightarrow> 'a mach_scheme \<Rightarrow> 'a mach_scheme" where
  "reparent p s =
     fold (\<lambda>i s. if p_parent (procs s ! i) = Some p
           then wakeup (ChProc (initproc s))
                  (proc_upd i (\<lambda>q. q\<lparr>p_parent := Some (initproc s)\<rparr>) s)
           else s) [0..<length (procs s)] s"

definition close_fd :: "nat \<Rightarrow> 'a kernel_scheme \<Rightarrow> 'a kernel_scheme res" where
  "close_fd fd s =
     (case p_ofile (myproc s) ! fd of
        None \<Rightarrow> Ret s
      | Some f \<Rightarrow>
          rbind (fileclose f s) (\<lambda>s.
          Ret (myproc_upd (\<lambda>p. p\<lparr>p_ofile := (p_ofile p)[fd := None]\<rparr>) s)))"

text \<open>\<^verbatim>\<open>kexit\<close> does not return: the result is the state in which it calls \<^verbatim>\<open>sched\<close>.\<close>

definition kexit :: "int \<Rightarrow> 'a kernel_scheme \<Rightarrow> 'a kernel_scheme res" where
  "kexit status s =
     (if cur s = initproc s then Panic ''init exiting''
      else
        rbind (rfold close_fd [0..<NOFILE] s) (\<lambda>s.
        rbind (begin_op s) (\<lambda>s.
        rbind (iput (the (p_cwd (myproc s))) s) (\<lambda>s.
        rbind (end_op s) (\<lambda>s.
        let s = myproc_upd (\<lambda>p. p\<lparr>p_cwd := None\<rparr>) s;
            s = reparent (cur s) s;
            s = (case p_parent (myproc s) of None \<Rightarrow> s | Some q \<Rightarrow> wakeup (ChProc q) s)
        in Ret (myproc_upd (\<lambda>p. p\<lparr>p_xstate := status, p_state := ZOMBIE\<rparr>) s))))))"

definition kwait :: "u64 \<Rightarrow> 'a fsys_scheme \<Rightarrow> (unit outcome \<times> 'a fsys_scheme) res" where
  "kwait addr s =
     (let kids = filter (\<lambda>i. p_parent (procs s ! i) = Some (cur s)) [0..<length (procs s)] in
      case find (\<lambda>i. p_state (procs s ! i) = ZOMBIE) kids of
        Some i \<Rightarrow>
          let pid = p_pid (procs s ! i) in
          rbind (if addr \<noteq> 0
                 then copyout (p_pagetable (myproc s)) addr
                        (le_bytes 4 (of_int (p_xstate (procs s ! i)) :: u32)) s
                 else Ret (0, s)) (\<lambda>(r, s).
            if r < 0 then Ret (Finished (- 1), s)
            else rbind (freeproc i s) (\<lambda>s. Ret (Finished pid, s)))
      | None \<Rightarrow>
          if kids = [] \<or> killed (cur s) s then Ret (Finished (- 1), s)
          else Ret (Sleeping (ChProc (cur s)) (), s))"

end
