(* ===== verification/Exec.thy ===== *)
theory Exec
  imports Proc
begin

text \<open>
  Program loading (\<^verbatim>\<open>kernel/exec.c\<close>).  Segments are recorded and not loaded: the page fault
  handler reads them from the file.  The ELF structures are byte lists read at the offsets of
  their fields (\<^verbatim>\<open>kernel/elf.h\<close>).
\<close>

section \<open>ELF headers\<close>

abbreviation (input) ELF_MAGIC :: u32 where "ELF_MAGIC \<equiv> 0x464C457F"
abbreviation (input) ELF_PROG_LOAD :: u32 where "ELF_PROG_LOAD \<equiv> 1"

record elfhdr =
  e_magic :: u32
  e_entry :: u64
  e_phoff :: u64
  e_phnum :: u16

record proghdr =
  ph_type :: u32
  ph_flags :: u32
  ph_off :: u64
  ph_vaddr :: u64
  ph_filesz :: u64
  ph_memsz :: u64

definition get_elfhdr :: "byte list \<Rightarrow> elfhdr" where
  "get_elfhdr d =
     \<lparr>e_magic = get32 d 0, e_entry = get64 d 24, e_phoff = get64 d 32, e_phnum = get16 d 56\<rparr>"

definition get_proghdr :: "byte list \<Rightarrow> proghdr" where
  "get_proghdr d =
     \<lparr>ph_type = get32 d 0, ph_flags = get32 d 4, ph_off = get64 d 8, ph_vaddr = get64 d 16,
      ph_filesz = get64 d 32, ph_memsz = get64 d 40\<rparr>"

definition flags2perm :: "u32 \<Rightarrow> u64" where
  "flags2perm flags =
     (let perm = (if flags AND 0x1 \<noteq> 0 then PTE_X else 0)
      in if flags AND 0x2 \<noteq> 0 then perm OR PTE_W else perm)"

definition setup_lazy_segment :: "addr \<Rightarrow> u64 \<Rightarrow> u64 \<Rightarrow> int" where
  "setup_lazy_segment pagetable oldsz newsz = (if newsz < oldsz then - 1 else 0)"

section \<open>Recording the segments\<close>

definition seg_of :: "proghdr \<Rightarrow> seginfo" where
  "seg_of ph =
     \<lparr>seg_vaddr = ph_vaddr ph, seg_filesz = ph_filesz ph, seg_memsz = ph_memsz ph,
      seg_offset = ph_off ph, seg_flags = ph_flags ph\<rparr>"

text \<open>The checks on a segment that is to be loaded.\<close>

definition bad_proghdr :: "proghdr \<Rightarrow> bool" where
  "bad_proghdr ph \<longleftrightarrow> ph_memsz ph < ph_filesz ph \<or> ph_vaddr ph + ph_memsz ph < ph_vaddr ph \<or>
     ph_vaddr ph mod PGSIZE \<noteq> 0"

definition add_segment :: "proghdr \<Rightarrow> proc \<Rightarrow> proc" where
  "add_segment ph p =
     p\<lparr>p_segments := (p_segments p)[p_nsegments p := seg_of ph],
       p_nsegments := p_nsegments p + 1\<rparr>"

definition note_text :: "proghdr \<Rightarrow> proc \<Rightarrow> proc" where
  "note_text ph p =
     (if ph_flags ph AND 0x1 \<noteq> 0
      then p\<lparr>p_text_start := ph_vaddr ph, p_text_end := ph_vaddr ph + ph_memsz ph\<rparr> else p)"

text \<open>The loop over the program headers, with \<open>k\<close> of them left.  The first component of the
  result is false where the code goes to \<^verbatim>\<open>bad\<close>; the second is \<^verbatim>\<open>sz\<close>.\<close>

primrec exec_segments :: "nat \<Rightarrow> addr \<Rightarrow> nat \<Rightarrow> u32 \<Rightarrow> u64 \<Rightarrow> 'a fsys_scheme \<Rightarrow>
    (bool \<times> u64 \<times> 'a fsys_scheme) res" where
  "exec_segments ip pagetable 0 off sz s = Ret (True, sz, s)"
| "exec_segments ip pagetable (Suc k) off sz s =
     rbind (readi to_local ip 0 off 56 (replicate 56 0) s) (\<lambda>(r, d, s).
       let ph = get_proghdr d in
       if r \<noteq> 56 then Ret (False, sz, s)
       else if ph_type ph \<noteq> ELF_PROG_LOAD then exec_segments ip pagetable k (off + 56) sz s
       else if bad_proghdr ph then Ret (False, sz, s)
       else if p_nsegments (myproc s) \<ge> MAX_SEGMENTS then Ret (False, sz, s)
       else
         let s = myproc_upd (add_segment ph) s in
         if setup_lazy_segment pagetable sz (ph_vaddr ph + ph_memsz ph) < 0 then Ret (False, sz, s)
         else
           let s = myproc_upd (note_text ph) s;
               sz1 = ph_vaddr ph + ph_memsz ph
           in exec_segments ip pagetable k (off + 56) (if sz1 > sz then sz1 else sz) s)"

section \<open>The arguments\<close>

definition align16 :: "u64 \<Rightarrow> u64" where
  "align16 sp = sp - sp mod 16"

text \<open>The argument strings are pushed in order; \<open>ustack\<close> collects their addresses.\<close>

primrec exec_args :: "addr \<Rightarrow> u64 \<Rightarrow> byte list list \<Rightarrow> u64 \<Rightarrow> u64 list \<Rightarrow> 'a fsys_scheme \<Rightarrow>
    (bool \<times> u64 \<times> u64 list \<times> 'a fsys_scheme) res" where
  "exec_args pagetable stackbase [] sp ustack s = Ret (True, sp, ustack, s)"
| "exec_args pagetable stackbase (arg # args) sp ustack s =
     (if length ustack \<ge> MAXARG then Ret (False, sp, ustack, s)
      else
        let sp = align16 (sp - of_nat (length (cstr arg) + 1)) in
        if sp < stackbase then Ret (False, sp, ustack, s)
        else
          rbind (copyout pagetable sp (cstr arg @ [0]) s) (\<lambda>(r, s).
            if r < 0 then Ret (False, sp, ustack, s)
            else exec_args pagetable stackbase args sp (ustack @ [sp]) s))"

definition last_elem :: "byte list \<Rightarrow> byte list" where
  "last_elem path = rev (takeWhile (\<lambda>c. c \<noteq> SLASH) (rev (cstr path)))"

definition push_args :: "addr \<Rightarrow> u64 \<Rightarrow> byte list list \<Rightarrow> u64 \<Rightarrow> 'a fsys_scheme \<Rightarrow>
    ((nat \<times> u64) option \<times> 'a fsys_scheme) res" where
  "push_args pagetable stackbase argv sp s =
     rbind (exec_args pagetable stackbase argv sp [] s) (\<lambda>(ok, sp, ustack, s).
       if \<not> ok then Ret (None, s)
       else
         let argc = length ustack;
             sp = align16 (sp - of_nat ((argc + 1) * 8))
         in
         if sp < stackbase then Ret (None, s)
         else
           rbind (copyout pagetable sp (concat (map (le_bytes 8) (ustack @ [0]))) s) (\<lambda>(r, s).
           Ret (if r < 0 then None else Some (argc, sp), s)))"

section \<open>exec\<close>

text \<open>The cleanup at \<^verbatim>\<open>bad\<close>, where each resource may or may not have been taken.\<close>

definition exec_bad :: "nat option \<Rightarrow> addr \<Rightarrow> u64 \<Rightarrow> nat option \<Rightarrow> 'a fsys_scheme \<Rightarrow>
    (int \<times> 'a fsys_scheme) res" where
  "exec_bad new_execfile pagetable sz ipo s =
     rbind (case new_execfile of None \<Rightarrow> Ret s | Some f \<Rightarrow> iput f s) (\<lambda>s.
     rbind (if pagetable \<noteq> 0 then proc_freepagetable pagetable sz s else Ret s) (\<lambda>s.
       case ipo of
         None \<Rightarrow> Ret (- 1, s)
       | Some ip \<Rightarrow>
           rbind (iunlockput ip s) (\<lambda>s.
           rbind (end_op s) (\<lambda>s.
           Ret (- 1, s)))))"

definition exec_commit :: "byte list \<Rightarrow> addr \<Rightarrow> nat \<Rightarrow> u64 \<Rightarrow> u64 \<Rightarrow> u64 \<Rightarrow> nat \<Rightarrow> 'a fsys_scheme \<Rightarrow>
    (int \<times> 'a fsys_scheme) res" where
  "exec_commit path pagetable new_execfile sz entry sp argc s =
     (let oldsz = p_sz (myproc s);
          s = tf_set (cur s) TF_A1 sp s;
          s = myproc_upd (\<lambda>p. p\<lparr>p_name := safestrcpy (p_name p) (cptr (last_elem path)) 16\<rparr>) s;
          oldpagetable = p_pagetable (myproc s);
          old_execfile = p_execfile (myproc s);
          s = myproc_upd (\<lambda>p. p\<lparr>p_pagetable := pagetable, p_execfile := Some new_execfile,
                p_sz := sz\<rparr>) s;
          s = tf_set (cur s) TF_EPC entry s;
          s = tf_set (cur s) TF_SP sp s
      in
      rbind (proc_freepagetable oldpagetable oldsz s) (\<lambda>s.
      rbind (case old_execfile of None \<Rightarrow> Ret s | Some f \<Rightarrow> iput f s) (\<lambda>s.
      Ret (int argc, s))))"

text \<open>From the stack on; the file is already unlocked and its transaction ended.\<close>

definition exec_stack :: "byte list \<Rightarrow> byte list list \<Rightarrow> elfhdr \<Rightarrow> addr \<Rightarrow> nat \<Rightarrow> u64 \<Rightarrow>
    'a fsys_scheme \<Rightarrow> (int \<times> 'a fsys_scheme) res" where
  "exec_stack path argv elf pagetable new_execfile sz s =
     (let sz = PGROUNDUP sz;
          (page, s) = kalloc s
      in
      if page = 0 then exec_bad (Some new_execfile) pagetable sz None s
      else
        let s = s\<lparr>mem := memset (mem s) page 0 4096\<rparr>;
            sp = sz + (USERSTACK + 1) * PGSIZE;
            stackbase = sp - USERSTACK * PGSIZE
        in
        rbind (mappages pagetable (sp - PGSIZE) PGSIZE page (PTE_R OR PTE_W OR PTE_U) s)
          (\<lambda>(r, s).
          if r \<noteq> 0
          then rbind (kfree page s) (\<lambda>s. exec_bad (Some new_execfile) pagetable sz None s)
          else
            let sz = sz + (USERSTACK + 1) * PGSIZE in
            rbind (push_args pagetable stackbase argv sp s) (\<lambda>(x, s).
              case x of
                None \<Rightarrow> exec_bad (Some new_execfile) pagetable sz None s
              | Some (argc, sp) \<Rightarrow>
                  exec_commit path pagetable new_execfile sz (e_entry elf) sp argc s)))"

definition kexec :: "byte list \<Rightarrow> byte list list \<Rightarrow> 'a fsys_scheme \<Rightarrow>
    (int \<times> 'a fsys_scheme) res" where
  "kexec path argv s =
     rbind (begin_op s) (\<lambda>s.
     rbind (namei path s) (\<lambda>(ipo, s).
       case ipo of
         None \<Rightarrow> rbind (end_op s) (\<lambda>s. Ret (- 1, s))
       | Some ip \<Rightarrow>
           rbind (ilock (Some ip) s) (\<lambda>s.
           rbind (readi to_local ip 0 0 64 (replicate 64 0) s) (\<lambda>(r, d, s).
           let elf = get_elfhdr d in
           if r \<noteq> 64 \<or> e_magic elf \<noteq> ELF_MAGIC then exec_bad None 0 0 (Some ip) s
           else
             rbind (proc_pagetable (cur s) s) (\<lambda>(pagetable, s).
             if pagetable = 0 then exec_bad None 0 0 (Some ip) s
             else
               let s = idup ip s;
                   s = myproc_upd (\<lambda>p. p\<lparr>p_nsegments := 0, p_text_start := 0,
                         p_text_end := 0\<rparr>) s
               in
               rbind (exec_segments ip pagetable (unat (e_phnum elf)) (ucast (e_phoff elf)) 0 s)
                 (\<lambda>(ok, sz, s).
                 if \<not> ok then exec_bad (Some ip) pagetable sz (Some ip) s
                 else
                   let s = myproc_upd (\<lambda>p. p\<lparr>p_data_end := sz\<rparr>) s in
                   rbind (iunlockput ip s) (\<lambda>s.
                   rbind (end_op s) (\<lambda>s.
                   exec_stack path argv elf pagetable ip sz s))))))))"

end
