(* ===== verification/Sysfile.thy ===== *)
theory Sysfile
  imports Exec
begin

text \<open>
  System call arguments (the first half of \<^verbatim>\<open>kernel/syscall.c\<close>) and the file system calls
  (\<^verbatim>\<open>kernel/sysfile.c\<close>).  A call returns its result as an integer, which \<^verbatim>\<open>syscall\<close> stores in
  the register \<^verbatim>\<open>a0\<close> of the trapframe.
\<close>

section \<open>Arguments\<close>

definition fetchaddr :: "u64 \<Rightarrow> 'a fsys_scheme \<Rightarrow> (u64 option \<times> 'a fsys_scheme) res" where
  "fetchaddr addr s =
     (let p = myproc s in
      if addr \<ge> p_sz p \<or> addr + 8 > p_sz p then Ret (None, s)
      else
        rbind (copyin (p_pagetable p) addr 8 s) (\<lambda>(r, bs, s).
        Ret (if r \<noteq> 0 then None else Some (le_word bs), s)))"

text \<open>The length of the string (or \<open>- 1\<close>) and the bytes put into the buffer.\<close>

definition fetchstr :: "u64 \<Rightarrow> nat \<Rightarrow> 'a fsys_scheme \<Rightarrow> (int \<times> byte list \<times> 'a fsys_scheme) res" where
  "fetchstr addr maxlen s =
     rbind (copyinstr (p_pagetable (myproc s)) addr maxlen s) (\<lambda>(r, buf, s).
       if r < 0 then Ret (- 1, buf, s) else Ret (int (length (cstr buf)), buf, s))"

definition argraw :: "nat \<Rightarrow> 'a mach_scheme \<Rightarrow> u64 res" where
  "argraw n s = (if n < 6 then Ret (tf_get (cur s) (TF_A0 + 8 * of_nat n) s) else Panic ''argraw'')"

definition argint :: "nat \<Rightarrow> 'a mach_scheme \<Rightarrow> int res" where
  "argint n s = rbind (argraw n s) (\<lambda>x. Ret (sint (ucast x :: u32)))"

definition argaddr :: "nat \<Rightarrow> 'a mach_scheme \<Rightarrow> u64 res" where
  "argaddr n s = argraw n s"

definition argstr :: "nat \<Rightarrow> nat \<Rightarrow> 'a fsys_scheme \<Rightarrow> (int \<times> byte list \<times> 'a fsys_scheme) res" where
  "argstr n maxlen s = rbind (argaddr n s) (\<lambda>addr. fetchstr addr maxlen s)"

section \<open>File descriptors\<close>

definition argfd :: "nat \<Rightarrow> 'a mach_scheme \<Rightarrow> (nat \<times> nat) option res" where
  "argfd n s =
     rbind (argint n s) (\<lambda>fd.
       if fd < 0 \<or> fd \<ge> int NOFILE then Ret None
       else
         case p_ofile (myproc s) ! nat fd of
           None \<Rightarrow> Ret None
         | Some f \<Rightarrow> Ret (Some (nat fd, f)))"

definition set_ofile :: "nat \<Rightarrow> nat option \<Rightarrow> 'a mach_scheme \<Rightarrow> 'a mach_scheme" where
  "set_ofile fd x s = myproc_upd (\<lambda>p. p\<lparr>p_ofile := (p_ofile p)[fd := x]\<rparr>) s"

definition fdalloc :: "nat \<Rightarrow> 'a mach_scheme \<Rightarrow> int \<times> 'a mach_scheme" where
  "fdalloc f s =
     (case find (\<lambda>fd. p_ofile (myproc s) ! fd = None) [0..<NOFILE] of
        Some fd \<Rightarrow> (int fd, set_ofile fd (Some f) s)
      | None \<Rightarrow> (- 1, s))"

definition sys_dup :: "'a kernel_scheme \<Rightarrow> (int \<times> 'a kernel_scheme) res" where
  "sys_dup s =
     rbind (argfd 0 s) (\<lambda>x.
       case x of
         None \<Rightarrow> Ret (- 1, s)
       | Some (_, f) \<Rightarrow>
           let (fd, s) = fdalloc f s in
           if fd < 0 then Ret (- 1, s) else rbind (filedup f s) (\<lambda>s. Ret (fd, s)))"

definition sys_read :: "'a kernel_scheme \<Rightarrow> (int \<times> 'a kernel_scheme) res" where
  "sys_read s =
     rbind (argaddr 1 s) (\<lambda>p.
     rbind (argint 2 s) (\<lambda>n.
     rbind (argfd 0 s) (\<lambda>x.
       case x of None \<Rightarrow> Ret (- 1, s) | Some (_, f) \<Rightarrow> fileread f p n s)))"

definition sys_write :: "'a kernel_scheme \<Rightarrow> (int \<times> 'a kernel_scheme) res" where
  "sys_write s =
     rbind (argaddr 1 s) (\<lambda>p.
     rbind (argint 2 s) (\<lambda>n.
     rbind (argfd 0 s) (\<lambda>x.
       case x of None \<Rightarrow> Ret (- 1, s) | Some (_, f) \<Rightarrow> filewrite f p n s)))"

definition sys_close :: "'a kernel_scheme \<Rightarrow> (int \<times> 'a kernel_scheme) res" where
  "sys_close s =
     rbind (argfd 0 s) (\<lambda>x.
       case x of
         None \<Rightarrow> Ret (- 1, s)
       | Some (fd, f) \<Rightarrow> rbind (fileclose f (set_ofile fd None s)) (\<lambda>s. Ret (0, s)))"

definition sys_fstat :: "'a kernel_scheme \<Rightarrow> (int \<times> 'a kernel_scheme) res" where
  "sys_fstat s =
     rbind (argaddr 1 s) (\<lambda>st.
     rbind (argfd 0 s) (\<lambda>x.
       case x of None \<Rightarrow> Ret (- 1, s) | Some (_, f) \<Rightarrow> filestat f st s))"

section \<open>Names\<close>

definition fail_op :: "'a fsys_scheme \<Rightarrow> (int \<times> 'a fsys_scheme) res" where
  "fail_op s = rbind (end_op s) (\<lambda>s. Ret (- 1, s))"

definition link_bad :: "nat \<Rightarrow> 'a fsys_scheme \<Rightarrow> (int \<times> 'a fsys_scheme) res" where
  "link_bad ip s =
     rbind (ilock (Some ip) s) (\<lambda>s.
     rbind (iupdate ip (inode_upd ip (\<lambda>x. x\<lparr>i_nlink := i_nlink x - 1\<rparr>) s)) (\<lambda>s.
     rbind (iunlockput ip s) (\<lambda>s.
     fail_op s)))"

definition link_new :: "nat \<Rightarrow> byte list \<Rightarrow> 'a fsys_scheme \<Rightarrow> (int \<times> 'a fsys_scheme) res" where
  "link_new ip new s =
     rbind (nameiparent new s) (\<lambda>(dpo, name, s).
       case dpo of
         None \<Rightarrow> link_bad ip s
       | Some dp \<Rightarrow>
           rbind (ilock (Some dp) s) (\<lambda>s.
           rbind (if i_dev (ino dp s) \<noteq> i_dev (ino ip s) then Ret (- 1, s)
                  else dirlink dp name (i_inum (ino ip s)) s) (\<lambda>(r, s).
             if r < 0 then rbind (iunlockput dp s) (\<lambda>s. link_bad ip s)
             else
               rbind (iunlockput dp s) (\<lambda>s.
               rbind (iput ip s) (\<lambda>s.
               rbind (end_op s) (\<lambda>s.
               Ret (0, s)))))))"

definition sys_link :: "'a fsys_scheme \<Rightarrow> (int \<times> 'a fsys_scheme) res" where
  "sys_link s =
     rbind (argstr 0 MAXPATH s) (\<lambda>(r, old, s).
       if r < 0 then Ret (- 1, s)
       else
         rbind (argstr 1 MAXPATH s) (\<lambda>(r, new, s).
           if r < 0 then Ret (- 1, s)
           else
             rbind (begin_op s) (\<lambda>s.
             rbind (namei (cstr old) s) (\<lambda>(ipo, s).
               case ipo of
                 None \<Rightarrow> fail_op s
               | Some ip \<Rightarrow>
                   rbind (ilock (Some ip) s) (\<lambda>s.
                     if i_type (ino ip s) = T_DIR then rbind (iunlockput ip s) fail_op
                     else
                       rbind (iupdate ip (inode_upd ip (\<lambda>x. x\<lparr>i_nlink := i_nlink x + 1\<rparr>) s))
                         (\<lambda>s.
                       rbind (iunlock (Some ip) s) (\<lambda>s.
                       link_new ip (cstr new) s)))))))"

function isdirempty_loop :: "nat \<Rightarrow> nat \<Rightarrow> nat \<Rightarrow> 'a fsys_scheme \<Rightarrow>
    (bool \<times> 'a fsys_scheme) res" where
  "isdirempty_loop dp off sz s =
     (if off < sz
      then
        rbind (read_dirent ''isdirempty: readi'' dp off s) (\<lambda>(de, s).
          if de_inum de \<noteq> 0 then Ret (False, s) else isdirempty_loop dp (off + 16) sz s)
      else Ret (True, s))"
  by pat_completeness auto
termination by (relation "measure (\<lambda>(dp, off, sz, s). sz - off)") simp_all

declare isdirempty_loop.simps [simp del]

definition isdirempty :: "nat \<Rightarrow> 'a fsys_scheme \<Rightarrow> (bool \<times> 'a fsys_scheme) res" where
  "isdirempty dp s = isdirempty_loop dp 32 (unat (i_size (ino dp s))) s"

abbreviation dot :: "byte list" where "dot \<equiv> [0x2E]"
abbreviation dotdot :: "byte list" where "dotdot \<equiv> [0x2E, 0x2E]"

text \<open>Removing the entry at \<open>off\<close> of \<open>dp\<close>, which names the locked inode \<open>ip\<close>.\<close>

definition unlink_entry :: "nat \<Rightarrow> u32 \<Rightarrow> nat \<Rightarrow> 'a fsys_scheme \<Rightarrow> (int \<times> 'a fsys_scheme) res" where
  "unlink_entry dp off ip s =
     rbind (writei (from_local (replicate 16 0)) dp 0 off 16 s) (\<lambda>(r, s).
       if r \<noteq> 16 then Panic ''unlink: writei''
       else
         rbind (if i_type (ino ip s) = T_DIR
                then iupdate dp (inode_upd dp (\<lambda>x. x\<lparr>i_nlink := i_nlink x - 1\<rparr>) s)
                else Ret s) (\<lambda>s.
         rbind (iunlockput dp s) (\<lambda>s.
         rbind (iupdate ip (inode_upd ip (\<lambda>x. x\<lparr>i_nlink := i_nlink x - 1\<rparr>) s)) (\<lambda>s.
         rbind (iunlockput ip s) (\<lambda>s.
         rbind (end_op s) (\<lambda>s.
         Ret (0, s)))))))"

definition sys_unlink :: "'a fsys_scheme \<Rightarrow> (int \<times> 'a fsys_scheme) res" where
  "sys_unlink s =
     rbind (argstr 0 MAXPATH s) (\<lambda>(r, path, s).
       if r < 0 then Ret (- 1, s)
       else
         rbind (begin_op s) (\<lambda>s.
         rbind (nameiparent (cstr path) s) (\<lambda>(dpo, name, s).
           case dpo of
             None \<Rightarrow> fail_op s
           | Some dp \<Rightarrow>
               rbind (ilock (Some dp) s) (\<lambda>s.
                 if namecmp name dot = 0 \<or> namecmp name dotdot = 0
                 then rbind (iunlockput dp s) fail_op
                 else
                   rbind (dirlookup dp name s) (\<lambda>(x, s).
                     case x of
                       None \<Rightarrow> rbind (iunlockput dp s) fail_op
                     | Some (ip, off) \<Rightarrow>
                         rbind (ilock (Some ip) s) (\<lambda>s.
                           if sint (i_nlink (ino ip s)) < 1 then Panic ''unlink: nlink < 1''
                           else
                             rbind (if i_type (ino ip s) = T_DIR then isdirempty ip s
                                    else Ret (True, s)) (\<lambda>(empty, s).
                               if \<not> empty
                               then
                                 rbind (iunlockput ip s) (\<lambda>s.
                                 rbind (iunlockput dp s) fail_op)
                               else unlink_entry dp off ip s)))))))"

section \<open>Opening\<close>

abbreviation (input) O_RDONLY :: int where "O_RDONLY \<equiv> 0"
abbreviation (input) O_WRONLY :: int where "O_WRONLY \<equiv> 1"
abbreviation (input) O_RDWR :: int where "O_RDWR \<equiv> 2"
abbreviation (input) O_CREATE :: int where "O_CREATE \<equiv> 0x200"
abbreviation (input) O_TRUNC :: int where "O_TRUNC \<equiv> 0x400"

text \<open>The locked inode to open, or \<open>None\<close> when the transaction is over and the call fails.\<close>

definition open_inode :: "byte list \<Rightarrow> int \<Rightarrow> 'a fsys_scheme \<Rightarrow>
    (nat option \<times> 'a fsys_scheme) res" where
  "open_inode path omode s =
     (if omode AND O_CREATE \<noteq> 0
      then
        rbind (create path T_FILE 0 0 s) (\<lambda>(ipo, s).
          if ipo = None then rbind (end_op s) (\<lambda>s. Ret (None, s)) else Ret (ipo, s))
      else
        rbind (namei path s) (\<lambda>(ipo, s).
          case ipo of
            None \<Rightarrow> rbind (end_op s) (\<lambda>s. Ret (None, s))
          | Some ip \<Rightarrow>
              rbind (ilock (Some ip) s) (\<lambda>s.
                if i_type (ino ip s) = T_DIR \<and> omode \<noteq> O_RDONLY
                then
                  rbind (iunlockput ip s) (\<lambda>s.
                  rbind (end_op s) (\<lambda>s.
                  Ret (None, s)))
                else Ret (Some ip, s))))"

definition open_file :: "int \<Rightarrow> inode \<Rightarrow> nat \<Rightarrow> kfile \<Rightarrow> kfile" where
  "open_file omode node ip x =
     (let x = (if i_type node = T_DEVICE then x\<lparr>f_type := FD_DEVICE, f_major := i_major node\<rparr>
               else x\<lparr>f_type := FD_INODE, f_off := 0\<rparr>)
      in x\<lparr>f_ip := Some ip, f_readable := omode AND O_WRONLY = 0,
           f_writable := omode AND O_WRONLY \<noteq> 0 \<or> omode AND O_RDWR \<noteq> 0\<rparr>)"

definition sys_open :: "'a kernel_scheme \<Rightarrow> (int \<times> 'a kernel_scheme) res" where
  "sys_open s =
     rbind (argint 1 s) (\<lambda>omode.
     rbind (argstr 0 MAXPATH s) (\<lambda>(n, path, s).
       if n < 0 then Ret (- 1, s)
       else
         rbind (begin_op s) (\<lambda>s.
         rbind (open_inode (cstr path) omode s) (\<lambda>(ipo, s).
           case ipo of
             None \<Rightarrow> Ret (- 1, s)
           | Some ip \<Rightarrow>
               if i_type (ino ip s) = T_DEVICE \<and>
                  (sint (i_major (ino ip s)) < 0 \<or> sint (i_major (ino ip s)) \<ge> int NDEV)
               then rbind (iunlockput ip s) fail_op
               else
                 case filealloc s of
                   (None, s) \<Rightarrow> rbind (iunlockput ip s) fail_op
                 | (Some f, s) \<Rightarrow>
                     let (fd, s) = fdalloc f s in
                     if fd < 0
                     then
                       rbind (fileclose f s) (\<lambda>s.
                       rbind (iunlockput ip s) fail_op)
                     else
                       let s = file_upd f (open_file omode (ino ip s) ip) s in
                       rbind (if omode AND O_TRUNC \<noteq> 0 \<and> i_type (ino ip s) = T_FILE
                              then itrunc ip s else Ret s) (\<lambda>s.
                       rbind (iunlock (Some ip) s) (\<lambda>s.
                       rbind (end_op s) (\<lambda>s.
                       Ret (fd, s))))))))"

definition make_node :: "u16 \<Rightarrow> u16 \<Rightarrow> u16 \<Rightarrow> 'a fsys_scheme \<Rightarrow> (int \<times> 'a fsys_scheme) res" where
  "make_node type major minor s =
     rbind (argstr 0 MAXPATH s) (\<lambda>(r, path, s).
       if r < 0 then fail_op s
       else
         rbind (create (cstr path) type major minor s) (\<lambda>(ipo, s).
           case ipo of
             None \<Rightarrow> fail_op s
           | Some ip \<Rightarrow>
               rbind (iunlockput ip s) (\<lambda>s.
               rbind (end_op s) (\<lambda>s.
               Ret (0, s)))))"

definition sys_mkdir :: "'a fsys_scheme \<Rightarrow> (int \<times> 'a fsys_scheme) res" where
  "sys_mkdir s = rbind (begin_op s) (\<lambda>s. make_node T_DIR 0 0 s)"

definition sys_mknod :: "'a fsys_scheme \<Rightarrow> (int \<times> 'a fsys_scheme) res" where
  "sys_mknod s =
     rbind (begin_op s) (\<lambda>s.
     rbind (argint 1 s) (\<lambda>major.
     rbind (argint 2 s) (\<lambda>minor.
     make_node T_DEVICE (of_int major) (of_int minor) s)))"

definition sys_chdir :: "'a fsys_scheme \<Rightarrow> (int \<times> 'a fsys_scheme) res" where
  "sys_chdir s =
     rbind (begin_op s) (\<lambda>s.
     rbind (argstr 0 MAXPATH s) (\<lambda>(r, path, s).
       if r < 0 then fail_op s
       else
         rbind (namei (cstr path) s) (\<lambda>(ipo, s).
           case ipo of
             None \<Rightarrow> fail_op s
           | Some ip \<Rightarrow>
               rbind (ilock (Some ip) s) (\<lambda>s.
                 if i_type (ino ip s) \<noteq> T_DIR then rbind (iunlockput ip s) fail_op
                 else
                   rbind (iunlock (Some ip) s) (\<lambda>s.
                   rbind (iput (the (p_cwd (myproc s))) s) (\<lambda>s.
                   rbind (end_op s) (\<lambda>s.
                   Ret (0, myproc_upd (\<lambda>p. p\<lparr>p_cwd := Some ip\<rparr>) s))))))))"

section \<open>exec and pipe\<close>

text \<open>Fetching the arguments into pages of their own, with \<open>k\<close> slots of \<^verbatim>\<open>argv\<close> left; the
  result lists the pages with what was put into them, in order.\<close>

primrec fetch_args :: "nat \<Rightarrow> u64 \<Rightarrow> (addr \<times> byte list) list \<Rightarrow> 'a fsys_scheme \<Rightarrow>
    (bool \<times> (addr \<times> byte list) list \<times> 'a fsys_scheme) res" where
  "fetch_args 0 uargv args s = Ret (False, args, s)"
| "fetch_args (Suc k) uargv args s =
     rbind (fetchaddr (uargv + 8 * of_nat (length args)) s) (\<lambda>(x, s).
       case x of
         None \<Rightarrow> Ret (False, args, s)
       | Some uarg \<Rightarrow>
           if uarg = 0 then Ret (True, args, s)
           else
             let (page, s) = kalloc s in
             if page = 0 then Ret (False, args, s)
             else
               rbind (fetchstr uarg 4096 s) (\<lambda>(r, buf, s).
               let s = s\<lparr>mem := write_bytes (mem s) page buf\<rparr>;
                   args = args @ [(page, buf)]
               in if r < 0 then Ret (False, args, s) else fetch_args k uargv args s))"

definition sys_exec :: "'a fsys_scheme \<Rightarrow> (int \<times> 'a fsys_scheme) res" where
  "sys_exec s =
     rbind (argaddr 1 s) (\<lambda>uargv.
     rbind (argstr 0 MAXPATH s) (\<lambda>(r, path, s).
       if r < 0 then Ret (- 1, s)
       else
         rbind (fetch_args MAXARG uargv [] s) (\<lambda>(ok, args, s).
         rbind (if ok then kexec (cstr path) (map snd args) s else Ret (- 1, s)) (\<lambda>(ret, s).
         rbind (rfold kfree (map fst args) s) (\<lambda>s.
         Ret (ret, s))))))"

definition close_both :: "nat \<Rightarrow> nat \<Rightarrow> 'a kernel_scheme \<Rightarrow> (int \<times> 'a kernel_scheme) res" where
  "close_both rfile wfile s =
     rbind (fileclose rfile s) (\<lambda>s.
     rbind (fileclose wfile s) (\<lambda>s.
     Ret (- 1, s)))"

definition sys_pipe :: "'a kernel_scheme \<Rightarrow> (int \<times> 'a kernel_scheme) res" where
  "sys_pipe s =
     rbind (argaddr 0 s) (\<lambda>fdarray.
     rbind (pipealloc s) (\<lambda>(x, s).
       case x of
         None \<Rightarrow> Ret (- 1, s)
       | Some (rfile, wfile) \<Rightarrow>
           let (fd0, s) = fdalloc rfile s in
           if fd0 < 0 then close_both rfile wfile s
           else
             let (fd1, s) = fdalloc wfile s in
             if fd1 < 0 then close_both rfile wfile (set_ofile (nat fd0) None s)
             else
               let pt = p_pagetable (myproc s) in
               rbind (copyout pt fdarray (le_bytes 4 (of_int fd0 :: u32)) s) (\<lambda>(r, s).
               rbind (if r < 0 then Ret (r, s)
                      else copyout pt (fdarray + 4) (le_bytes 4 (of_int fd1 :: u32)) s) (\<lambda>(r, s).
                 if r < 0
                 then close_both rfile wfile (set_ofile (nat fd1) None (set_ofile (nat fd0) None s))
                 else Ret (0, s)))))"

definition sys_sbrklazy :: "'a mach_scheme \<Rightarrow> (int \<times> 'a mach_scheme) res" where
  "sys_sbrklazy s =
     rbind (argaddr 0 s) (\<lambda>n.
     let old_sz = p_sz (myproc s)
     in Ret (uint old_sz, myproc_upd (\<lambda>p. p\<lparr>p_sz := old_sz + n\<rparr>) s))"

end
