(* ===== verification/Sysproc.thy ===== *)
theory Sysproc
  imports Sysfile
begin

text \<open>
  The process system calls (\<^verbatim>\<open>kernel/sysproc.c\<close>), with the memory statistics of
  \<^verbatim>\<open>sys_memstat\<close> (\<^verbatim>\<open>kernel/memstat.h\<close>), and the dispatch of system calls
  (\<^verbatim>\<open>kernel/syscall.c\<close>).
\<close>

section \<open>Process calls\<close>

definition sys_exit :: "'a kernel_scheme \<Rightarrow> 'a kernel_scheme res" where
  "sys_exit s = rbind (argint 0 s) (\<lambda>n. kexit n s)"

definition sys_getpid :: "'a mach_scheme \<Rightarrow> (int \<times> 'a mach_scheme) res" where
  "sys_getpid s = Ret (p_pid (myproc s), s)"

definition sys_fork :: "'a kernel_scheme \<Rightarrow> (int \<times> 'a kernel_scheme) res" where
  "sys_fork s = kfork s"

definition sys_wait :: "'a fsys_scheme \<Rightarrow> (unit outcome \<times> 'a fsys_scheme) res" where
  "sys_wait s = rbind (argaddr 0 s) (\<lambda>p. kwait p s)"

abbreviation (input) SBRK_EAGER :: int where "SBRK_EAGER \<equiv> 1"

definition sys_sbrk :: "'a mach_scheme \<Rightarrow> (int \<times> 'a mach_scheme) res" where
  "sys_sbrk s =
     rbind (argint 0 s) (\<lambda>n.
     rbind (argint 1 s) (\<lambda>t.
     let addr = p_sz (myproc s) in
     if t = SBRK_EAGER \<or> n < 0
     then
       rbind (growproc n s) (\<lambda>(r, s).
         if r < 0 then Ret (- 1, s) else Ret (uint addr, s))
     else if addr + of_int n < addr then Ret (- 1, s)
     else Ret (uint addr, myproc_upd (\<lambda>p. p\<lparr>p_sz := p_sz p + of_int n\<rparr>) s)))"

text \<open>The wait of \<^verbatim>\<open>sys_pause\<close>, entered again after each wakeup.\<close>

definition pause_loop :: "u32 \<Rightarrow> int \<Rightarrow> 'a mach_scheme \<Rightarrow> u32 outcome \<times> 'a mach_scheme" where
  "pause_loop ticks0 n s =
     (if int (unat (ticks s - ticks0)) < n
      then if killed (cur s) s then (Finished (- 1), s) else (Sleeping ChTicks ticks0, s)
      else (Finished 0, s))"

definition sys_pause :: "'a mach_scheme \<Rightarrow> (u32 outcome \<times> 'a mach_scheme) res" where
  "sys_pause s =
     rbind (argint 0 s) (\<lambda>n. Ret (pause_loop (ticks s) (if n < 0 then 0 else n) s))"

definition sys_kill :: "'a mach_scheme \<Rightarrow> (int \<times> 'a mach_scheme) res" where
  "sys_kill s = rbind (argint 0 s) (\<lambda>pid. Ret (kkill pid s))"

definition sys_uptime :: "'a mach_scheme \<Rightarrow> (int \<times> 'a mach_scheme) res" where
  "sys_uptime s = Ret (int (unat (ticks s)), s)"

section \<open>Memory statistics\<close>

abbreviation (input) MAX_PAGES_INFO :: nat where "MAX_PAGES_INFO \<equiv> 128"

datatype page_state = UNMAPPED | RESIDENT | SWAPPED

record page_stat =
  ps_va :: u64
  ps_state :: page_state
  ps_is_dirty :: bool
  ps_seq :: u32
  ps_swap_slot :: int

record proc_mem_stat =
  ms_pid :: int
  ms_num_pages_total :: u64
  ms_num_resident_pages :: nat
  ms_num_swapped_pages :: int
  ms_next_fifo_seq :: u64
  ms_pages :: "page_stat list"

definition page_info :: "u64 \<Rightarrow> 'a mach_scheme \<Rightarrow> page_stat res" where
  "page_info va s =
     (let p = myproc s;
          ps = \<lparr>ps_va = va, ps_state = UNMAPPED, ps_is_dirty = False, ps_seq = - 1,
                ps_swap_slot = - 1\<rparr>
      in
      case find (\<lambda>r. rp_va r = va \<and> rp_in_memory r) (take (p_nresident p) (p_resident p)) of
        Some r \<Rightarrow>
          Ret (ps\<lparr>ps_state := RESIDENT, ps_is_dirty := rp_dirty r, ps_seq := ucast (rp_seq r)\<rparr>)
      | None \<Rightarrow>
          case find (\<lambda>e. sw_va e = va) (p_swap_map p) of
            Some e \<Rightarrow>
              Ret (ps\<lparr>ps_state := SWAPPED, ps_is_dirty := True, ps_swap_slot := sw_slot e\<rparr>)
          | None \<Rightarrow>
              rbind (walk (p_pagetable p) va False s) (\<lambda>(pte, s).
              Ret (if pte \<noteq> 0 \<and> load64 (mem s) pte AND PTE_V \<noteq> 0
                   then ps\<lparr>ps_state := RESIDENT\<rparr> else ps)))"

text \<open>The entries from the page \<open>va\<close> on, with room for \<open>k\<close> more.\<close>

primrec page_infos :: "nat \<Rightarrow> u64 \<Rightarrow> 'a mach_scheme \<Rightarrow> page_stat list res" where
  "page_infos 0 va s = Ret []"
| "page_infos (Suc k) va s =
     (if va < p_sz (myproc s)
      then
        rbind (page_info (PGROUNDDOWN va) s) (\<lambda>ps.
        rbind (page_infos k (va + PGSIZE) s) (\<lambda>rest.
        Ret (ps # rest)))
      else Ret [])"

definition memstat_info :: "'a mach_scheme \<Rightarrow> proc_mem_stat res" where
  "memstat_info s =
     (let p = myproc s in
      rbind (page_infos MAX_PAGES_INFO 0 s) (\<lambda>pages.
      Ret \<lparr>ms_pid = p_pid p, ms_num_pages_total = PGROUNDUP (p_sz p) div PGSIZE,
           ms_num_resident_pages = p_nresident p, ms_num_swapped_pages = p_nswapped p,
           ms_next_fifo_seq = p_next_seq p, ms_pages = pages\<rparr>))"

text \<open>The layout of the structures.  The function fills a variable on the kernel stack;
  \<open>old\<close> is what the stack holds there, which stays where the code writes nothing.\<close>

definition state_code :: "page_state \<Rightarrow> u32" where
  "state_code st = (case st of UNMAPPED \<Rightarrow> 0 | RESIDENT \<Rightarrow> 1 | SWAPPED \<Rightarrow> 2)"

definition page_stat_bytes :: "page_stat \<Rightarrow> byte list" where
  "page_stat_bytes ps =
     le_bytes 8 (ps_va ps) @ le_bytes 4 (state_code (ps_state ps)) @
     le_bytes 4 (if ps_is_dirty ps then 1 else 0 :: u32) @ le_bytes 4 (ps_seq ps) @
     le_bytes 4 (of_int (ps_swap_slot ps) :: u32)"

abbreviation (input) MEMSTAT_SIZE :: nat where "MEMSTAT_SIZE \<equiv> 3096"

definition memstat_bytes :: "byte list \<Rightarrow> proc_mem_stat \<Rightarrow> byte list" where
  "memstat_bytes old ms =
     (let written = concat (map page_stat_bytes (ms_pages ms)) in
      le_bytes 4 (of_int (ms_pid ms) :: u32) @
      le_bytes 4 (ucast (ms_num_pages_total ms) :: u32) @
      le_bytes 4 (of_nat (ms_num_resident_pages ms) :: u32) @
      le_bytes 4 (of_int (ms_num_swapped_pages ms) :: u32) @
      le_bytes 4 (ucast (ms_next_fifo_seq ms) :: u32) @
      get_bytes old 20 4 @ written @
      get_bytes old (24 + length written) (MEMSTAT_SIZE - 24 - length written))"

definition sys_memstat :: "byte list \<Rightarrow> 'a fsys_scheme \<Rightarrow> (int \<times> 'a fsys_scheme) res" where
  "sys_memstat old s =
     rbind (argaddr 0 s) (\<lambda>addr.
     rbind (memstat_info s) (\<lambda>info.
     rbind (copyout (p_pagetable (myproc s)) addr (memstat_bytes old info) s) (\<lambda>(r, s).
       if r < 0 then Ret (- 1, s) else Ret (0, s))))"

section \<open>Dispatch\<close>

text \<open>A system call ends by returning a value or, for \<^verbatim>\<open>sys_exit\<close>, with the process gone.\<close>

datatype 's flow = Continue 's | Exited 's

definition syscalls :: "byte list \<Rightarrow> int \<Rightarrow>
    ('a kernel_scheme \<Rightarrow> (int \<times> 'a kernel_scheme) res) option" where
  "syscalls old num =
     (if num = 1 then Some sys_fork
      else if num = 3 then Some (\<lambda>s. completed (sys_wait s))
      else if num = 4 then Some sys_pipe
      else if num = 5 then Some sys_read
      else if num = 6 then Some sys_kill
      else if num = 7 then Some sys_exec
      else if num = 8 then Some sys_fstat
      else if num = 9 then Some sys_chdir
      else if num = 10 then Some sys_dup
      else if num = 11 then Some sys_getpid
      else if num = 12 then Some sys_sbrk
      else if num = 13 then Some (\<lambda>s. completed (sys_pause s))
      else if num = 14 then Some sys_uptime
      else if num = 15 then Some sys_open
      else if num = 16 then Some sys_write
      else if num = 17 then Some sys_mknod
      else if num = 18 then Some sys_unlink
      else if num = 19 then Some sys_link
      else if num = 20 then Some sys_mkdir
      else if num = 21 then Some sys_close
      else if num = 22 then Some (sys_memstat old)
      else None)"

definition syscall :: "byte list \<Rightarrow> 'a kernel_scheme \<Rightarrow> 'a kernel_scheme flow res" where
  "syscall old s =
     (let num = sint (ucast (tf_get (cur s) TF_A7 s) :: u32) in
      if num = 2 then rbind (sys_exit s) (\<lambda>s. Ret (Exited s))
      else
        case syscalls old num of
          Some f \<Rightarrow> rbind (f s) (\<lambda>(r, s). Ret (Continue (tf_set (cur s) TF_A0 (of_int r) s)))
        | None \<Rightarrow>
            let s = kprintf ''%d %s: unknown sys call %d''
                      [PInt (p_pid (myproc s)), PStr (name_str (p_name (myproc s))), PInt num] s
            in Ret (Continue (tf_set (cur s) TF_A0 (- 1) s)))"

end
