(* ===== verification/Virtio.thy ===== *)
theory Virtio
  imports Console
begin

text \<open>
  The disk driver (\<^verbatim>\<open>kernel/virtio_disk.c\<close>).  \<^verbatim>\<open>virtio_disk_rw\<close> sleeps between handing a
  request to the device and freeing its descriptors, so it is two operations here,
  \<open>virtio_disk_start\<close> and \<open>virtio_disk_finish\<close>; the interrupt handler runs between them.

  The device's registers are an argument (\<open>reg\<close>); \<open>device_serve\<close> is what the device does with
  the next request according to the virtio specification: it follows the chain of descriptors,
  transfers the data, stores 0 in the status byte and appends the head to the used ring.
\<close>

section \<open>Definitions\<close>

abbreviation (input) NUM :: nat where "NUM \<equiv> 8"
abbreviation (input) VRING_DESC_F_NEXT :: u16 where "VRING_DESC_F_NEXT \<equiv> 1"
abbreviation (input) VRING_DESC_F_WRITE :: u16 where "VRING_DESC_F_WRITE \<equiv> 2"
abbreviation (input) VIRTIO_BLK_T_IN :: u32 where "VIRTIO_BLK_T_IN \<equiv> 0"
abbreviation (input) VIRTIO_BLK_T_OUT :: u32 where "VIRTIO_BLK_T_OUT \<equiv> 1"
abbreviation (input) QUEUE_NOTIFY :: nat where "QUEUE_NOTIFY \<equiv> 0x050"

definition vdisk_upd :: "(vdisk \<Rightarrow> vdisk) \<Rightarrow> 'a kernel_scheme \<Rightarrow> 'a kernel_scheme" where
  "vdisk_upd f s = s\<lparr>vdisk := f (vdisk s)\<rparr>"

definition wreg :: "nat \<Rightarrow> u32 \<Rightarrow> 'a kernel_scheme \<Rightarrow> 'a kernel_scheme" where
  "wreg r v s = vdisk_upd (\<lambda>d. d\<lparr>vq_regs := vq_regs d @ [(r, v)]\<rparr>) s"

definition negotiate :: "u32 \<Rightarrow> u32" where
  "negotiate features =
     fold (\<lambda>b f. f AND NOT (push_bit b 1)) [5, 7, 11, 12, 27, 29, 28] features"

definition null_desc :: virtq_desc where
  "null_desc = \<lparr>vd_addr = VNull, vd_len = 0, vd_flags = 0, vd_next = 0\<rparr>"

definition write_queue_addrs :: "addr \<Rightarrow> addr \<Rightarrow> addr \<Rightarrow> 'a kernel_scheme \<Rightarrow> 'a kernel_scheme" where
  "write_queue_addrs desc avail used s =
     (let s = wreg 0x080 (ucast desc) s;
          s = wreg 0x084 (ucast (drop_bit 32 desc)) s;
          s = wreg 0x090 (ucast avail) s;
          s = wreg 0x094 (ucast (drop_bit 32 avail)) s;
          s = wreg 0x0a0 (ucast used) s
      in wreg 0x0a4 (ucast (drop_bit 32 used)) s)"

definition virtio_disk_init :: "(nat \<Rightarrow> u32) \<Rightarrow> 'a kernel_scheme \<Rightarrow> 'a kernel_scheme res" where
  "virtio_disk_init reg s =
     (if reg 0x000 \<noteq> 0x74726976 \<or> reg 0x004 \<noteq> 2 \<or> reg 0x008 \<noteq> 2 \<or> reg 0x00c \<noteq> 0x554d4551
      then Panic ''could not find virtio disk''
      else
        let s = wreg 0x070 0 s;
            s = wreg 0x070 1 s;
            s = wreg 0x070 3 s;
            s = wreg 0x020 (negotiate (reg 0x010)) s;
            s = wreg 0x070 11 s;
            status = reg 0x070
        in
        if status AND 8 = 0 then Panic ''virtio disk FEATURES_OK unset''
        else
          let s = wreg 0x030 0 s in
          if reg 0x044 \<noteq> 0 then Panic ''virtio disk should not be ready''
          else if reg 0x034 = 0 then Panic ''virtio disk has no queue 0''
          else if reg 0x034 < of_nat NUM then Panic ''virtio disk max queue too short''
          else
            let (desc, s) = kalloc s; (avail, s) = kalloc s; (used, s) = kalloc s in
            if desc = 0 \<or> avail = 0 \<or> used = 0 then Panic ''virtio disk kalloc''
            else
              let s = vdisk_upd (\<lambda>d. d\<lparr>vq_desc := replicate NUM null_desc,
                        vq_avail := replicate NUM 0, vq_avail_idx := 0,
                        vq_used := replicate NUM 0, vq_used_dev := 0\<rparr>) s;
                  s = wreg 0x038 (of_nat NUM) s;
                  s = write_queue_addrs desc avail used s;
                  s = wreg 0x044 1 s;
                  s = vdisk_upd (\<lambda>d. d\<lparr>vq_free := replicate NUM True\<rparr>) s
              in Ret (wreg 0x070 (status OR 4) s))"

definition alloc_desc :: "'a kernel_scheme \<Rightarrow> int \<times> 'a kernel_scheme" where
  "alloc_desc s =
     (case find (\<lambda>i. vq_free (vdisk s) ! i) [0..<NUM] of
        Some i \<Rightarrow> (int i, vdisk_upd (\<lambda>d. d\<lparr>vq_free := (vq_free d)[i := False]\<rparr>) s)
      | None \<Rightarrow> (- 1, s))"

definition free_desc :: "nat \<Rightarrow> 'a kernel_scheme \<Rightarrow> 'a kernel_scheme res" where
  "free_desc i s =
     (if i \<ge> NUM then Panic ''free_desc 1''
      else if vq_free (vdisk s) ! i then Panic ''free_desc 2''
      else Ret (wakeup ChDiskFree (vdisk_upd (\<lambda>d. d\<lparr>vq_desc := (vq_desc d)[i := null_desc],
                  vq_free := (vq_free d)[i := True]\<rparr>) s)))"

text \<open>Each round frees a descriptor that was in use, and a round on a free one is a panic, so
  \<^verbatim>\<open>NUM + 1\<close> rounds are enough.\<close>

primrec free_chain_loop :: "nat \<Rightarrow> nat \<Rightarrow> 'a kernel_scheme \<Rightarrow> 'a kernel_scheme res" where
  "free_chain_loop 0 i s = Blocked ''free_chain''"
| "free_chain_loop (Suc k) i s =
     (let flag = vd_flags (vq_desc (vdisk s) ! i); nxt = vd_next (vq_desc (vdisk s) ! i) in
      rbind (free_desc i s) (\<lambda>s.
        if flag AND VRING_DESC_F_NEXT \<noteq> 0 then free_chain_loop k (unat nxt) s else Ret s))"

definition free_chain :: "nat \<Rightarrow> 'a kernel_scheme \<Rightarrow> 'a kernel_scheme res" where
  "free_chain i s = free_chain_loop (Suc NUM) i s"

text \<open>\<open>k\<close> descriptors are missing; \<open>idx\<close> holds those that are taken.\<close>

primrec alloc3_loop :: "nat \<Rightarrow> nat list \<Rightarrow> 'a kernel_scheme \<Rightarrow>
    (nat list option \<times> 'a kernel_scheme) res" where
  "alloc3_loop 0 idx s = Ret (Some idx, s)"
| "alloc3_loop (Suc k) idx s =
     (let (i, s) = alloc_desc s in
      if i < 0 then rbind (rfold free_desc idx s) (\<lambda>s. Ret (None, s))
      else alloc3_loop k (idx @ [nat i]) s)"

definition alloc3_desc :: "'a kernel_scheme \<Rightarrow> (nat list option \<times> 'a kernel_scheme) res" where
  "alloc3_desc s = alloc3_loop 3 [] s"

definition desc_upd :: "nat \<Rightarrow> virtq_desc \<Rightarrow> vdisk \<Rightarrow> vdisk" where
  "desc_upd i x d = d\<lparr>vq_desc := (vq_desc d)[i := x]\<rparr>"

definition format_chain :: "nat \<Rightarrow> u32 \<Rightarrow> bool \<Rightarrow> nat \<Rightarrow> nat \<Rightarrow> nat \<Rightarrow> vdisk \<Rightarrow> vdisk" where
  "format_chain b blockno write i0 i1 i2 d =
     (let sector = ucast (blockno * of_nat (BSIZE div 512));
          d = d\<lparr>vq_ops := (vq_ops d)[i0 :=
                \<lparr>rq_type = if write then VIRTIO_BLK_T_OUT else VIRTIO_BLK_T_IN, rq_reserved = 0,
                 rq_sector = sector\<rparr>]\<rparr>;
          d = desc_upd i0 \<lparr>vd_addr = VOp i0, vd_len = 16, vd_flags = VRING_DESC_F_NEXT,
                vd_next = of_nat i1\<rparr> d;
          d = desc_upd i1 \<lparr>vd_addr = VBuf b, vd_len = of_nat BSIZE,
                vd_flags = (if write then 0 else VRING_DESC_F_WRITE) OR VRING_DESC_F_NEXT,
                vd_next = of_nat i2\<rparr> d;
          d = d\<lparr>vq_status := (vq_status d)[i0 := 0xff]\<rparr>
      in desc_upd i2 \<lparr>vd_addr = VStatus i0, vd_len = 1, vd_flags = VRING_DESC_F_WRITE,
           vd_next = 0\<rparr> d)"

text \<open>Up to the sleep on the buffer.  The result is the head of the chain, or \<open>None\<close> when the
  driver sleeps because descriptors are missing.\<close>

definition virtio_disk_start :: "nat \<Rightarrow> bool \<Rightarrow> 'a kernel_scheme \<Rightarrow>
    (nat option \<times> 'a kernel_scheme) res" where
  "virtio_disk_start b write s =
     rbind (alloc3_desc s) (\<lambda>(x, s).
       case x of
         None \<Rightarrow> Ret (None, s)
       | Some idx \<Rightarrow>
           let i0 = idx ! 0;
               s = vdisk_upd (format_chain b (b_blockno (bufs s ! b)) write i0 (idx ! 1) (idx ! 2)) s;
               s = s\<lparr>bdisk := (bdisk s)[b := True]\<rparr>;
               s = vdisk_upd (\<lambda>d. d\<lparr>vq_info_b := (vq_info_b d)[i0 := Some b],
                     vq_avail := (vq_avail d)[unat (vq_avail_idx d) mod NUM := of_nat i0]\<rparr>) s;
               s = vdisk_upd (\<lambda>d. d\<lparr>vq_avail_idx := vq_avail_idx d + 1\<rparr>) s
           in Ret (Some i0, wreg QUEUE_NOTIFY 0 s))"

definition virtio_disk_finish :: "nat \<Rightarrow> nat \<Rightarrow> 'a kernel_scheme \<Rightarrow>
    (unit outcome \<times> 'a kernel_scheme) res" where
  "virtio_disk_finish b i0 s =
     (if bdisk s ! b then Ret (Sleeping (ChDiskBuf b) (), s)
      else
        let s = vdisk_upd (\<lambda>d. d\<lparr>vq_info_b := (vq_info_b d)[i0 := None]\<rparr>) s in
        rbind (free_chain i0 s) (\<lambda>s. Ret (Finished 0, s)))"

text \<open>The handler's loop over the used ring, whose index is 16 bits wide; it makes
  \<open>used->idx - used_idx\<close> rounds.\<close>

primrec intr_loop :: "nat \<Rightarrow> 'a kernel_scheme \<Rightarrow> 'a kernel_scheme res" where
  "intr_loop 0 s = Ret s"
| "intr_loop (Suc k) s =
     (let d = vdisk s; i = unat (vq_used d ! (unat (vq_used_idx d) mod NUM)) in
      if vq_status d ! i \<noteq> 0 then Panic ''virtio_disk_intr status''
      else
        case vq_info_b d ! i of
          None \<Rightarrow> Panic ''kerneltrap''
        | Some b \<Rightarrow>
            let s = wakeup (ChDiskBuf b) (s\<lparr>bdisk := (bdisk s)[b := False]\<rparr>)
            in intr_loop k (vdisk_upd (\<lambda>d. d\<lparr>vq_used_idx := vq_used_idx d + 1\<rparr>) s))"

definition virtio_disk_intr :: "u32 \<Rightarrow> 'a kernel_scheme \<Rightarrow> 'a kernel_scheme res" where
  "virtio_disk_intr interrupt_status s =
     (let s = wreg 0x064 (interrupt_status AND 3) s in
      intr_loop (unat (vq_used_dev (vdisk s) - vq_used_idx (vdisk s))) s)"

section \<open>The device\<close>

definition device_serve :: "nat \<Rightarrow> 'a kernel_scheme \<Rightarrow> 'a kernel_scheme" where
  "device_serve head s =
     (let d = vdisk s;
          d0 = vq_desc d ! head; d1 = vq_desc d ! unat (vd_next d0);
          d2 = vq_desc d ! unat (vd_next d1);
          rq = (case vd_addr d0 of VOp i \<Rightarrow> vq_ops d ! i | _ \<Rightarrow> vq_ops d ! 0);
          blockno = ucast (rq_sector rq div 2) :: u32;
          s = (case vd_addr d1 of
                 VBuf b \<Rightarrow>
                   if rq_type rq = VIRTIO_BLK_T_OUT
                   then s\<lparr>disk := (disk s)(blockno := b_data (bufs s ! b)),
                          dwrites := dwrites s @ [(blockno, b_data (bufs s ! b))]\<rparr>
                   else s\<lparr>bufs := (bufs s)[b := (bufs s ! b)\<lparr>b_data := disk s blockno\<rparr>]\<rparr>
               | _ \<Rightarrow> s);
          s = (case vd_addr d2 of
                 VStatus i \<Rightarrow> vdisk_upd (\<lambda>d. d\<lparr>vq_status := (vq_status d)[i := 0]\<rparr>) s | _ \<Rightarrow> s)
      in vdisk_upd (\<lambda>d. d\<lparr>vq_used := (vq_used d)[unat (vq_used_dev d) mod NUM := of_nat head],
           vq_used_dev := vq_used_dev d + 1\<rparr>) s)"

end
