(* ===== verification/Trap.thy ===== *)
theory Trap
  imports Sysproc Virtio
begin

text \<open>
  Traps and interrupts (\<^verbatim>\<open>kernel/trap.c\<close>) and \<^verbatim>\<open>forkret\<close> (\<^verbatim>\<open>kernel/proc.c\<close>).  What the
  hardware answers during a trap is collected in \<open>trap_in\<close>: the control registers, the
  interrupt number that the PLIC hands out and what the two devices report.  The registers that
  are written are collected in \<open>trap_out\<close>.
\<close>

section \<open>Hardware\<close>

record trap_in =
  t_sstatus :: u64
  t_sepc :: u64
  t_scause :: u64
  t_stval :: u64
  t_satp :: u64
  t_hartid :: u64
  t_intr :: bool
  t_irq :: nat
  t_tx_idle :: bool
  t_chars :: "byte list"
  t_vstatus :: u32
  t_stack :: "byte list"

record trap_out =
  o_stvec :: u64
  o_sstatus :: u64
  o_sepc :: u64
  o_satp :: u64

abbreviation (input) SSTATUS_SPP :: u64 where "SSTATUS_SPP \<equiv> 0x100"
abbreviation (input) SSTATUS_SPIE :: u64 where "SSTATUS_SPIE \<equiv> 0x20"
abbreviation (input) UART0_IRQ :: nat where "UART0_IRQ \<equiv> 10"
abbreviation (input) VIRTIO0_IRQ :: nat where "VIRTIO0_IRQ \<equiv> 1"

section \<open>Interrupts\<close>

definition clockintr :: "trap_in \<Rightarrow> 'a mach_scheme \<Rightarrow> 'a mach_scheme" where
  "clockintr t s =
     (if t_hartid t = 0 then wakeup ChTicks (s\<lparr>ticks := ticks s + 1\<rparr>) else s)"

text \<open>2 for the timer, 1 for another device, 0 when the cause is not an interrupt.\<close>

definition devintr :: "trap_in \<Rightarrow> 'a kernel_scheme \<Rightarrow> (nat \<times> 'a kernel_scheme) res" where
  "devintr t s =
     (if t_scause t = 0x8000000000000009
      then
        rbind (if t_irq t = UART0_IRQ then uartintr (t_tx_idle t) (t_chars t) s
               else if t_irq t = VIRTIO0_IRQ then virtio_disk_intr (t_vstatus t) s
               else if t_irq t \<noteq> 0
               then Ret (kprintf ''unexpected interrupt irq=%d'' [PInt (int (t_irq t))] s)
               else Ret s) (\<lambda>s. Ret (1, s))
      else if t_scause t = 0x8000000000000005 then Ret (2, clockintr t s)
      else Ret (0, s))"

text \<open>Giving up the CPU makes the process runnable and switches to the scheduler; the call returns
  when a scheduler has picked the process again.\<close>

definition yield :: "'a mach_scheme \<Rightarrow> 'a mach_scheme" where
  "yield s = myproc_upd (\<lambda>p. p\<lparr>p_state := RUNNABLE\<rparr>) s"

text \<open>The result has the values to which \<^verbatim>\<open>sepc\<close> and \<^verbatim>\<open>sstatus\<close> are restored.  A panic carries no
  state, so the line with the cause that is printed before the last panic is not visible.\<close>

definition kerneltrap :: "bool \<Rightarrow> trap_in \<Rightarrow> 'a kernel_scheme \<Rightarrow>
    (u64 \<times> u64 \<times> 'a kernel_scheme) res" where
  "kerneltrap have_proc t s =
     (if t_sstatus t AND SSTATUS_SPP = 0 then Panic ''kerneltrap: not from supervisor mode''
      else if t_intr t then Panic ''kerneltrap: interrupts enabled''
      else
        rbind (devintr t s) (\<lambda>(which_dev, s).
          if which_dev = 0 then Panic ''kerneltrap''
          else
            let s = (if which_dev = 2 \<and> have_proc then yield s else s)
            in Ret (t_sepc t, t_sstatus t, s)))"

section \<open>Returning to user space\<close>

text \<open>\<open>uservec\<close> and \<open>usertrap_addr\<close> are addresses of code, \<open>uservec\<close> relative to the
  trampoline.\<close>

definition prepare_return :: "u64 \<Rightarrow> u64 \<Rightarrow> trap_in \<Rightarrow> 'a mach_scheme \<Rightarrow>
    trap_out \<times> 'a mach_scheme" where
  "prepare_return uservec usertrap_addr t s =
     (let p = myproc s; i = cur s;
          s = tf_set i TF_KERNEL_SATP (t_satp t) s;
          s = tf_set i TF_KERNEL_SP (p_kstack p + PGSIZE) s;
          s = tf_set i TF_KERNEL_TRAP usertrap_addr s;
          s = tf_set i TF_KERNEL_HARTID (t_hartid t) s
      in (\<lparr>o_stvec = TRAMPOLINE + uservec,
           o_sstatus = (t_sstatus t AND NOT SSTATUS_SPP) OR SSTATUS_SPIE,
           o_sepc = tf_get i TF_EPC s, o_satp = MAKE_SATP (p_pagetable p)\<rparr>, s))"

section \<open>Traps from user space\<close>

text \<open>The result is \<open>Continue\<close> with the registers for the return to user space, or
  \<open>Exited\<close>.\<close>

definition page_fault :: "trap_in \<Rightarrow> 'a kernel_scheme \<Rightarrow> 'a kernel_scheme res" where
  "page_fault t s =
     rbind (vmfault (p_pagetable (myproc s)) (t_stval t) (t_scause t = 15) s) (\<lambda>(r, s).
       if r = 0
       then
         let s = kprintf ''usertrap(): page fault not handled, killing process pid=%d''
                   [PInt (p_pid (myproc s))] s;
             s = kprintf ''            va=0x%lx scause=%ld sepc=0x%lx''
                   [PLong (t_stval t), PLong (t_scause t), PLong (t_sepc t)] s
         in Ret (setkilled (cur s) s)
       else Ret s)"

definition bad_trap :: "trap_in \<Rightarrow> 'a mach_scheme \<Rightarrow> 'a mach_scheme" where
  "bad_trap t s =
     (let s = kprintf ''usertrap(): unexpected scause 0x%lx pid=%d''
                [PLong (t_scause t), PInt (p_pid (myproc s))] s;
          s = kprintf ''            sepc=0x%lx stval=0x%lx'' [PLong (t_sepc t), PLong (t_stval t)] s
      in setkilled (cur s) s)"

definition exit_killed :: "'a kernel_scheme \<Rightarrow> 'a kernel_scheme flow res" where
  "exit_killed s =
     (if killed (cur s) s then rbind (kexit (- 1) s) (\<lambda>s. Ret (Exited s)) else Ret (Continue s))"

text \<open>Handling the cause; the number is that of \<open>devintr\<close>.\<close>

definition handle_trap :: "trap_in \<Rightarrow> 'a kernel_scheme \<Rightarrow>
    (nat \<times> 'a kernel_scheme flow) res" where
  "handle_trap t s =
     (if t_scause t = 8
      then
        rbind (exit_killed s) (\<lambda>x.
          case x of
            Exited s \<Rightarrow> Ret (0, Exited s)
          | Continue s \<Rightarrow>
              let s = tf_set (cur s) TF_EPC (tf_get (cur s) TF_EPC s + 4) s
              in rbind (syscall (t_stack t) s) (\<lambda>x. Ret (0, x)))
      else
        rbind (devintr t s) (\<lambda>(which_dev, s).
          if which_dev \<noteq> 0 then Ret (which_dev, Continue s)
          else if t_scause t = 12 \<or> t_scause t = 13 \<or> t_scause t = 15
          then rbind (page_fault t s) (\<lambda>s. Ret (0, Continue s))
          else Ret (0, Continue (bad_trap t s))))"

definition usertrap :: "u64 \<Rightarrow> u64 \<Rightarrow> trap_in \<Rightarrow> 'a kernel_scheme \<Rightarrow>
    (trap_out option \<times> 'a kernel_scheme) res" where
  "usertrap uservec usertrap_addr t s =
     (if t_sstatus t AND SSTATUS_SPP \<noteq> 0 then Panic ''usertrap: not from user mode''
      else
        let s = tf_set (cur s) TF_EPC (t_sepc t) s in
        rbind (handle_trap t s) (\<lambda>(which_dev, x).
          case x of
            Exited s \<Rightarrow> Ret (None, s)
          | Continue s \<Rightarrow>
              rbind (exit_killed s) (\<lambda>x.
                case x of
                  Exited s \<Rightarrow> Ret (None, s)
                | Continue s \<Rightarrow>
                    let s = (if which_dev = 2 then yield s else s);
                        (regs, s) = prepare_return uservec usertrap_addr t s
                    in Ret (Some regs, s))))"

section \<open>The first return of a process\<close>

abbreviation init_path :: "byte list" where
  "init_path \<equiv> [0x2F, 0x69, 0x6E, 0x69, 0x74]"

definition forkret :: "u64 \<Rightarrow> u64 \<Rightarrow> trap_in \<Rightarrow> 'a kernel_scheme \<Rightarrow>
    (trap_out \<times> 'a kernel_scheme) res" where
  "forkret uservec usertrap_addr t s =
     rbind
       (if forkret_first s
        then
          rbind (fsinit ROOTDEV s) (\<lambda>s.
          rbind (kexec init_path [init_path] (s\<lparr>forkret_first := False\<rparr>)) (\<lambda>(r, s).
          let s = tf_set (cur s) TF_A0 (of_int r) s in
          if r = - 1 then Panic ''exec'' else Ret s))
        else Ret s)
       (\<lambda>s. Ret (prepare_return uservec usertrap_addr t s))"

end
