(* ===== verification/Spinlock.thy ===== *)
theory Spinlock
  imports Prelude
begin

text \<open>
  Spin locks (\<^verbatim>\<open>kernel/spinlock.c\<close>) on a machine with any number of processors.  The other
  theories take a region that a spin lock protects for one step; this theory shows why they may.

  \<open>acquire\<close> and \<open>release\<close> are sequences of atomic steps: the check of the caller, the atomic
  swap, the store of the owner.  \<open>step\<close> is the relation in which the steps of all processors
  interleave; a processor can hold several locks, and acquires a lock only when it does not
  hold it and releases only what it holds, which is the discipline of the kernel's code.
\<close>

section \<open>Definitions\<close>

text \<open>The depth of nesting is a C \<^verbatim>\<open>int\<close>; it is at most one more than the number of locks, so
  it is an integer here.\<close>

record cpu =
  noff :: int
  intena :: bool
  intr :: bool

record spinlock =
  locked :: bool
  lk_cpu :: "nat option"

text \<open>The processors and the locks, by their numbers.\<close>

record smp =
  cpus :: "nat \<Rightarrow> cpu"
  locks :: "nat \<Rightarrow> spinlock"

definition initlock :: spinlock where
  "initlock = \<lparr>locked = False, lk_cpu = None\<rparr>"

definition holding :: "nat \<Rightarrow> nat \<Rightarrow> smp \<Rightarrow> bool" where
  "holding c l s \<longleftrightarrow> locked (locks s l) \<and> lk_cpu (locks s l) = Some c"

definition push_off :: "cpu \<Rightarrow> cpu" where
  "push_off p =
     (let old = intr p;
          p = p\<lparr>intr := False\<rparr>;
          p = (if noff p = 0 then p\<lparr>intena := old\<rparr> else p)
      in p\<lparr>noff := noff p + 1\<rparr>)"

definition pop_off :: "cpu \<Rightarrow> cpu res" where
  "pop_off p =
     (if intr p then Panic ''pop_off - interruptible''
      else if noff p < 1 then Panic ''pop_off''
      else
        let p = p\<lparr>noff := noff p - 1\<rparr> in
        Ret (if noff p = 0 \<and> intena p then p\<lparr>intr := True\<rparr> else p))"

abbreviation cpu_set :: "nat \<Rightarrow> cpu \<Rightarrow> smp \<Rightarrow> smp" where
  "cpu_set c p s \<equiv> s\<lparr>cpus := (cpus s)(c := p)\<rparr>"

abbreviation lock_set :: "nat \<Rightarrow> spinlock \<Rightarrow> smp \<Rightarrow> smp" where
  "lock_set l k s \<equiv> s\<lparr>locks := (locks s)(l := k)\<rparr>"

text \<open>The steps of \<^verbatim>\<open>acquire\<close>; \<open>acquire_swap\<close> returns the old value of the lock.\<close>

definition acquire_enter :: "nat \<Rightarrow> nat \<Rightarrow> smp \<Rightarrow> smp res" where
  "acquire_enter c l s =
     (let s = cpu_set c (push_off (cpus s c)) s in
      if holding c l s then Panic ''acquire'' else Ret s)"

definition acquire_swap :: "nat \<Rightarrow> smp \<Rightarrow> bool \<times> smp" where
  "acquire_swap l s = (locked (locks s l), lock_set l ((locks s l)\<lparr>locked := True\<rparr>) s)"

definition acquire_own :: "nat \<Rightarrow> nat \<Rightarrow> smp \<Rightarrow> smp" where
  "acquire_own c l s = lock_set l ((locks s l)\<lparr>lk_cpu := Some c\<rparr>) s"

text \<open>A call that finds the lock taken spins until another processor releases it.\<close>

definition acquire :: "nat \<Rightarrow> nat \<Rightarrow> smp \<Rightarrow> smp res" where
  "acquire c l s =
     rbind (acquire_enter c l s) (\<lambda>s.
       let (old, s) = acquire_swap l s in
       if old then Blocked ''acquire'' else Ret (acquire_own c l s))"

definition release_enter :: "nat \<Rightarrow> nat \<Rightarrow> smp \<Rightarrow> smp res" where
  "release_enter c l s =
     (if \<not> holding c l s then Panic ''release''
      else Ret (lock_set l ((locks s l)\<lparr>lk_cpu := None\<rparr>) s))"

definition release_leave :: "nat \<Rightarrow> nat \<Rightarrow> smp \<Rightarrow> smp res" where
  "release_leave c l s =
     (let s = lock_set l ((locks s l)\<lparr>locked := False\<rparr>) s in
      rbind (pop_off (cpus s c)) (\<lambda>p. Ret (cpu_set c p s)))"

definition release :: "nat \<Rightarrow> nat \<Rightarrow> smp \<Rightarrow> smp res" where
  "release c l s = rbind (release_enter c l s) (\<lambda>s. release_leave c l s)"

section \<open>Interleavings\<close>

text \<open>Where a processor is, and the locks whose critical section it is in.\<close>

datatype pc = Running | Spinning nat | Swapped nat | Leaving nat

record sys =
  smp :: smp
  pc :: "nat \<Rightarrow> pc"
  crit :: "nat \<Rightarrow> nat set"

inductive step :: "sys \<Rightarrow> sys \<Rightarrow> bool" where
  enter: "pc y c = Running \<Longrightarrow> l \<notin> crit y c \<Longrightarrow> acquire_enter c l (smp y) = Ret s \<Longrightarrow>
    step y (y\<lparr>smp := s, pc := (pc y)(c := Spinning l)\<rparr>)"
| spin: "pc y c = Spinning l \<Longrightarrow> acquire_swap l (smp y) = (True, s) \<Longrightarrow> step y (y\<lparr>smp := s\<rparr>)"
| swap: "pc y c = Spinning l \<Longrightarrow> acquire_swap l (smp y) = (False, s) \<Longrightarrow>
    step y (y\<lparr>smp := s, pc := (pc y)(c := Swapped l)\<rparr>)"
| own: "pc y c = Swapped l \<Longrightarrow>
    step y (y\<lparr>smp := acquire_own c l (smp y), pc := (pc y)(c := Running), crit := (crit y)(c := insert l (crit y c))\<rparr>)"
| leave: "pc y c = Running \<Longrightarrow> l \<in> crit y c \<Longrightarrow> release_enter c l (smp y) = Ret s \<Longrightarrow>
    step y (y\<lparr>smp := s, pc := (pc y)(c := Leaving l), crit := (crit y)(c := crit y c - {l})\<rparr>)"
| free: "pc y c = Leaving l \<Longrightarrow> release_leave c l (smp y) = Ret s \<Longrightarrow>
    step y (y\<lparr>smp := s, pc := (pc y)(c := Running)\<rparr>)"

definition start :: "sys \<Rightarrow> bool" where
  "start y \<longleftrightarrow> (\<forall>c. pc y c = Running \<and> crit y c = {} \<and> noff (cpus (smp y) c) = 0) \<and>
     (\<forall>l. locks (smp y) l = initlock)"

inductive reach :: "sys \<Rightarrow> bool" where
  init: "start y \<Longrightarrow> reach y"
| more: "reach y \<Longrightarrow> step y y' \<Longrightarrow> reach y'"

section \<open>The invariant\<close>

text \<open>The processor is between the swap of a lock and its release.\<close>

definition owns :: "sys \<Rightarrow> nat \<Rightarrow> nat \<Rightarrow> bool" where
  "owns y c l \<longleftrightarrow> l \<in> crit y c \<or> pc y c = Swapped l \<or> pc y c = Leaving l"

definition depth :: "sys \<Rightarrow> nat \<Rightarrow> nat" where
  "depth y c = card (crit y c) + (if pc y c = Running then 0 else 1)"

definition cpu_ok :: "cpu \<Rightarrow> nat \<Rightarrow> bool" where
  "cpu_ok p n \<longleftrightarrow> noff p = int n \<and> (0 < n \<longrightarrow> \<not> intr p)"

definition lock_ok :: "sys \<Rightarrow> nat \<Rightarrow> bool" where
  "lock_ok y l \<longleftrightarrow>
     (locked (locks (smp y) l) \<longleftrightarrow> (\<exists>c. owns y c l)) \<and>
     (\<forall>c. lk_cpu (locks (smp y) l) = Some c \<longleftrightarrow> l \<in> crit y c) \<and>
     (\<forall>c d. owns y c l \<longrightarrow> owns y d l \<longrightarrow> c = d)"

definition pc_ok :: "pc \<Rightarrow> nat set \<Rightarrow> bool" where
  "pc_ok p h \<longleftrightarrow> finite h \<and> (\<forall>l. p = Spinning l \<or> p = Swapped l \<or> p = Leaving l \<longrightarrow> l \<notin> h)"

definition smp_ok :: "sys \<Rightarrow> bool" where
  "smp_ok y \<longleftrightarrow> (\<forall>c. cpu_ok (cpus (smp y) c) (depth y c) \<and> pc_ok (pc y c) (crit y c)) \<and> (\<forall>l. lock_ok y l)"

lemma cpu_ok_push: "cpu_ok p n \<Longrightarrow> cpu_ok (push_off p) (Suc n)"
  by (simp add: cpu_ok_def push_off_def Let_def)

lemma cpu_ok_pop: "cpu_ok p (Suc n) \<Longrightarrow> \<exists>q. pop_off p = Ret q \<and> cpu_ok q n"
  by (auto simp: cpu_ok_def pop_off_def Let_def)

lemma smp_okD:
  assumes "smp_ok y"
  shows "cpu_ok (cpus (smp y) c) (depth y c)" "pc_ok (pc y c) (crit y c)" "lock_ok y l"
  using assms by (simp_all add: smp_ok_def)

lemma start_ok: "start y \<Longrightarrow> smp_ok y"
  by (simp add: start_def smp_ok_def cpu_ok_def depth_def pc_ok_def lock_ok_def owns_def initlock_def)

text \<open>A step changes one processor and one lock.\<close>

lemma smp_ok_change:
  assumes ok: "smp_ok y"
    and cpu: "\<And>d. d \<noteq> c \<Longrightarrow> cpus (smp y') d = cpus (smp y) d \<and> pc y' d = pc y d \<and> crit y' d = crit y d"
    and c: "cpu_ok (cpus (smp y') c) (depth y' c)" "pc_ok (pc y' c) (crit y' c)"
    and lk: "\<And>k. k \<noteq> l \<Longrightarrow> locks (smp y') k = locks (smp y) k \<and> owns y' c k = owns y c k \<and>
      (k \<in> crit y' c \<longleftrightarrow> k \<in> crit y c)"
    and l: "lock_ok y' l"
  shows "smp_ok y'"
proof -
  note D = smp_okD [OF ok]
  have "cpu_ok (cpus (smp y') d) (depth y' d) \<and> pc_ok (pc y' d) (crit y' d)" for d
    using D(1) [of d] D(2) [of d] cpu [of d] c by (cases "d = c") (auto simp: depth_def)
  moreover have "lock_ok y' k" for k
  proof (cases "k = l")
    case False
    have "owns y' d k = owns y d k" "k \<in> crit y' d \<longleftrightarrow> k \<in> crit y d" for d
      using cpu [of d] lk [OF False] by (cases "d = c"; auto simp: owns_def)+
    then show ?thesis using D(3) [of k] lk [OF False] by (simp add: lock_ok_def)
  qed (use l in simp)
  ultimately show ?thesis by (simp add: smp_ok_def)
qed

lemma owner_unique: "smp_ok y \<Longrightarrow> owns y c l \<Longrightarrow> owns y d l \<longleftrightarrow> d = c"
  using smp_okD(3) [of y l] by (auto simp: lock_ok_def)

lemma enter_ok:
  assumes ok: "smp_ok y" and "pc y c = Running" "l \<notin> crit y c" "acquire_enter c l (smp y) = Ret s"
  shows "smp_ok (y\<lparr>smp := s, pc := (pc y)(c := Spinning l)\<rparr>)" (is "smp_ok ?y")
proof -
  note D = smp_okD [OF ok]
  have s: "s = cpu_set c (push_off (cpus (smp y) c)) (smp y)"
    using assms(4) by (auto simp: acquire_enter_def Let_def split: if_splits)
  have "owns ?y d l \<longleftrightarrow> owns y d l" for d using assms(2) by (auto simp: owns_def)
  then have "lock_ok ?y l" using D(3) [of l] by (simp add: lock_ok_def s)
  then show ?thesis
    by (intro smp_ok_change [OF ok, of c _ l])
      (use D(1) [of c] D(2) [of c] assms(2,3) cpu_ok_push in
        \<open>auto simp: s depth_def pc_ok_def owns_def\<close>)
qed

lemma spin_ok:
  assumes "smp_ok y" "acquire_swap l (smp y) = (True, s)"
  shows "smp_ok (y\<lparr>smp := s\<rparr>)"
proof -
  have "locks (smp y) l = (locks (smp y) l)\<lparr>locked := True\<rparr>" using assms(2) by (simp add: acquire_swap_def)
  then have "s = smp y" using assms(2) by (simp add: acquire_swap_def fun_upd_idem_iff)
  then show ?thesis using assms(1) by simp
qed

lemma swap_ok:
  assumes ok: "smp_ok y" and "pc y c = Spinning l" "acquire_swap l (smp y) = (False, s)"
  shows "smp_ok (y\<lparr>smp := s, pc := (pc y)(c := Swapped l)\<rparr>)" (is "smp_ok ?y")
proof -
  note D = smp_okD [OF ok]
  have s: "s = lock_set l ((locks (smp y) l)\<lparr>locked := True\<rparr>) (smp y)" "\<not> locked (locks (smp y) l)"
    using assms(3) by (simp_all add: acquire_swap_def)
  have no: "\<not> owns y d l" for d using D(3) [of l] s by (auto simp: lock_ok_def)
  have "owns ?y d l \<longleftrightarrow> d = c" for d using no [of d] assms(2) by (auto simp: owns_def)
  then have "lock_ok ?y l" using D(3) [of l] no s by (auto simp: lock_ok_def owns_def)
  then show ?thesis
    by (intro smp_ok_change [OF ok, of c _ l])
      (use D(1) [of c] D(2) [of c] assms(2) in \<open>auto simp: s depth_def pc_ok_def owns_def\<close>)
qed

lemma own_ok:
  assumes ok: "smp_ok y" and "pc y c = Swapped l"
  shows "smp_ok (y\<lparr>smp := acquire_own c l (smp y), pc := (pc y)(c := Running),
    crit := (crit y)(c := insert l (crit y c))\<rparr>)" (is "smp_ok ?y")
proof -
  note D = smp_okD [OF ok]
  have o: "owns y d l \<longleftrightarrow> d = c" for d
    using assms(2) by (intro owner_unique [OF ok]) (simp add: owns_def)
  have "owns ?y d l \<longleftrightarrow> d = c" "l \<in> crit ?y d \<longleftrightarrow> d = c" for d using o [of d] by (auto simp: owns_def)
  then have "lock_ok ?y l" using D(3) [of l] o by (auto simp: lock_ok_def acquire_own_def)
  then show ?thesis
    by (intro smp_ok_change [OF ok, of c _ l])
      (use D(1) [of c] D(2) [of c] assms(2) in \<open>auto simp: depth_def pc_ok_def owns_def acquire_own_def\<close>)
qed

lemma leave_ok:
  assumes ok: "smp_ok y" and "pc y c = Running" "l \<in> crit y c" "release_enter c l (smp y) = Ret s"
  shows "smp_ok (y\<lparr>smp := s, pc := (pc y)(c := Leaving l), crit := (crit y)(c := crit y c - {l})\<rparr>)"
    (is "smp_ok ?y")
proof -
  note D = smp_okD [OF ok]
  have s: "s = lock_set l ((locks (smp y) l)\<lparr>lk_cpu := None\<rparr>) (smp y)"
    using assms(4) by (simp add: release_enter_def split: if_splits)
  have o: "owns y d l \<longleftrightarrow> d = c" for d
    using assms(3) by (intro owner_unique [OF ok]) (simp add: owns_def)
  have "owns ?y d l \<longleftrightarrow> d = c" "l \<notin> crit ?y d" for d using o [of d] by (auto simp: owns_def)
  then have "lock_ok ?y l" using D(3) [of l] o by (auto simp: lock_ok_def s)
  then show ?thesis
    by (intro smp_ok_change [OF ok, of c _ l])
      (use D(1) [of c] D(2) [of c] assms(2,3) card_Suc_Diff1 [of "crit y c" l] in
        \<open>auto simp: s depth_def pc_ok_def owns_def\<close>)
qed

lemma free_ok:
  assumes ok: "smp_ok y" and p: "pc y c = Leaving l" and r: "release_leave c l (smp y) = Ret s"
  shows "smp_ok (y\<lparr>smp := s, pc := (pc y)(c := Running)\<rparr>)" (is "smp_ok ?y")
proof -
  note D = smp_okD [OF ok]
  have "cpu_ok (cpus (smp y) c) (Suc (card (crit y c)))" using D(1) [of c] p by (simp add: depth_def)
  from cpu_ok_pop [OF this] obtain q where q: "pop_off (cpus (smp y) c) = Ret q" "cpu_ok q (card (crit y c))"
    by blast
  have s: "s = cpu_set c q (lock_set l ((locks (smp y) l)\<lparr>locked := False\<rparr>) (smp y))"
    using r q by (simp add: release_leave_def)
  have o: "owns y d l \<longleftrightarrow> d = c" for d
    using p by (intro owner_unique [OF ok]) (simp add: owns_def)
  have "\<not> owns ?y d l" "l \<notin> crit ?y d" for d
    using o [of d] D(2) [of c] p by (auto simp: owns_def pc_ok_def)
  then have "lock_ok ?y l" using D(3) [of l] by (auto simp: lock_ok_def s)
  then show ?thesis
    by (intro smp_ok_change [OF ok, of c _ l])
      (use q D(2) [of c] p in \<open>auto simp: s depth_def pc_ok_def owns_def\<close>)
qed

lemma step_ok: "step y y' \<Longrightarrow> smp_ok y \<Longrightarrow> smp_ok y'"
  by (induction rule: step.induct) (blast intro: enter_ok spin_ok swap_ok own_ok leave_ok free_ok)+

lemma reach_ok: "reach y \<Longrightarrow> smp_ok y"
  by (induction rule: reach.induct) (auto intro: start_ok step_ok)

lemma pushes:
  assumes "0 \<le> noff p" "0 < noff p \<longrightarrow> \<not> intr p"
  shows "noff ((push_off ^^ n) p) = noff p + int n \<and> (0 < n \<longrightarrow> \<not> intr ((push_off ^^ n) p)) \<and>
    (noff p = 0 \<longrightarrow> 0 < n \<longrightarrow> intena ((push_off ^^ n) p) = intr p) \<and> (n = 0 \<longrightarrow> (push_off ^^ n) p = p)"
  using assms by (induction n) (auto simp: push_off_def Let_def)

lemma pops:
  assumes "noff q = m + int (length xs)" "0 \<le> m" "\<not> intr q" "xs \<noteq> []"
  shows "\<exists>r. rfold (\<lambda>_. pop_off) xs q = Ret r \<and> noff r = m \<and> intr r = (m = 0 \<and> intena q)"
  using assms
proof (induction xs arbitrary: q)
  case (Cons x xs)
  show ?case
  proof (cases "xs = []")
    case True
    then show ?thesis using Cons.prems by (auto simp: pop_off_def Let_def)
  next
    case False
    have "pop_off q = Ret (q\<lparr>noff := noff q - 1\<rparr>)"
      using Cons.prems False by (cases xs) (auto simp: pop_off_def Let_def)
    then show ?thesis using Cons.IH [of "q\<lparr>noff := noff q - 1\<rparr>"] Cons.prems False by simp
  qed
qed simp

text \<open>Examples: two processors, of which the first holds lock 3.\<close>

definition demo_sys :: sys where
  "demo_sys = \<lparr>smp = \<lparr>cpus = (\<lambda>_. \<lparr>noff = 0, intena = False, intr = True\<rparr>), locks = (\<lambda>_. initlock)\<rparr>,
     pc = (\<lambda>_. Running), crit = (\<lambda>_. {})\<rparr>"

definition demo_held :: sys where
  "demo_held = demo_sys\<lparr>smp := \<lparr>cpus = (\<lambda>_. \<lparr>noff = 0, intena = False, intr = True\<rparr>)
       (0 := \<lparr>noff = 1, intena = True, intr = False\<rparr>), locks = (\<lambda>_. initlock)(3 := \<lparr>locked = True, lk_cpu = Some 0\<rparr>)\<rparr>,
     crit := (\<lambda>_. {})(0 := {3})\<rparr>"

text \<open>The second processor waits for the lock that the first one holds.\<close>

definition demo_spin :: sys where
  "demo_spin = demo_held\<lparr>smp := cpu_set 1 \<lparr>noff = 1, intena = True, intr = False\<rparr> (smp demo_held),
     pc := (pc demo_held)(1 := Spinning 3)\<rparr>"

lemma demo_reach: "reach demo_held" "reach demo_spin"
proof -
  let ?p = "push_off (cpus (smp demo_sys) 0)"
  define y1 where "y1 = demo_sys\<lparr>smp := cpu_set 0 ?p (smp demo_sys), pc := (pc demo_sys)(0 := Spinning 3)\<rparr>"
  define y2 where "y2 = y1\<lparr>smp := lock_set 3 \<lparr>locked = True, lk_cpu = None\<rparr> (smp y1), pc := (pc y1)(0 := Swapped 3)\<rparr>"
  have "reach demo_sys" by (rule reach.init) (simp add: start_def demo_sys_def)
  moreover have "step demo_sys y1"
    unfolding y1_def by (rule step.enter) (simp_all add: demo_sys_def acquire_enter_def holding_def initlock_def)
  moreover have "step y1 y2"
    unfolding y2_def by (rule step.swap) (simp_all add: y1_def demo_sys_def acquire_swap_def initlock_def)
  moreover have "step y2 demo_held"
    using step.own [of y2 0 3]
    by (simp add: y2_def y1_def demo_held_def demo_sys_def acquire_own_def push_off_def fun_upd_idem)
  ultimately show r: "reach demo_held" using reach.more by blast
  have "step demo_held demo_spin"
    unfolding demo_spin_def
    by (rule step.enter)
      (simp_all add: demo_held_def demo_sys_def acquire_enter_def push_off_def holding_def initlock_def)
  with r show "reach demo_spin" by (rule reach.more)
qed

section \<open>Properties\<close>

text \<open>C12: spin locks exclude.  However the steps of the processors interleave, two processors are never
  inside the critical section of the same lock.\<close>

theorem mutual_exclusion:
  assumes "reach y" "l \<in> crit y c" "l \<in> crit y d"
  shows "c = d"
  using owner_unique [OF reach_ok [OF assms(1)], of c l d] assms(2,3) by (simp add: owns_def)

theorem mutual_exclusion_witness: "3 \<in> crit demo_held 0 \<and> 3 \<notin> crit demo_held 1"
  using mutual_exclusion [OF demo_reach(1), of 3 0 1] by (auto simp: demo_held_def)

text \<open>C14: the calls of spin locks never stop the machine.  In every reachable state a processor that
  does not hold a lock can enter \<^verbatim>\<open>acquire\<close>, one that holds it can enter \<^verbatim>\<open>release\<close> and can leave
  it, without any of the panics in \<^verbatim>\<open>acquire\<close>, \<^verbatim>\<open>release\<close> and \<^verbatim>\<open>pop_off\<close>.\<close>

theorem locks_no_panic:
  assumes "reach y"
  shows "(pc y c = Running \<longrightarrow> l \<notin> crit y c \<longrightarrow> returns (acquire_enter c l (smp y))) \<and>
    (l \<in> crit y c \<longrightarrow> returns (release_enter c l (smp y))) \<and>
    (pc y c = Leaving l \<longrightarrow> returns (release_leave c l (smp y)))"
proof -
  note D = smp_okD [OF reach_ok [OF assms]]
  have "returns (release_leave c l (smp y))" if "pc y c = Leaving l"
    using cpu_ok_pop [of "cpus (smp y) c" "card (crit y c)"] D(1) [of c] that
    by (auto simp: depth_def release_leave_def)
  moreover have "returns (acquire_enter c l (smp y))" if "l \<notin> crit y c"
    using D(3) [of l] that by (auto simp: acquire_enter_def holding_def lock_ok_def Let_def)
  moreover have "returns (release_enter c l (smp y))" if "l \<in> crit y c"
    using D(3) [of l] that by (auto simp: release_enter_def holding_def lock_ok_def owns_def)
  ultimately show ?thesis by blast
qed

theorem locks_no_panic_witness:
  "returns (acquire_enter 0 4 (smp demo_held)) \<and> returns (release_enter 0 3 (smp demo_held))"
  using locks_no_panic [OF demo_reach(1), of 0 4] locks_no_panic [OF demo_reach(1), of 0 3] by (auto simp: demo_held_def demo_sys_def)

text \<open>C13: the state of a processor is well formed in every reachable state: the nesting depth is the number
  of locks that the processor holds, is acquiring or is releasing, and interrupts are off
  whenever there is such a lock: while the processor spins for its first lock, while it holds
  one, and until it has released the last.\<close>

theorem cpu_well_formed:
  assumes "reach y"
  shows "finite (crit y c) \<and>
    noff (cpus (smp y) c) = int (card (crit y c)) + (if pc y c = Running then 0 else 1) \<and>
    (crit y c \<noteq> {} \<or> pc y c \<noteq> Running \<longrightarrow> \<not> intr (cpus (smp y) c))"
proof -
  note D = smp_okD [OF reach_ok [OF assms]]
  have f: "finite (crit y c)" using D(2) [of c] by (simp add: pc_ok_def)
  moreover have "0 < depth y c" if "crit y c \<noteq> {} \<or> pc y c \<noteq> Running"
    using that f by (auto simp: depth_def card_gt_0_iff)
  ultimately show ?thesis using D(1) [of c] by (auto simp: cpu_ok_def depth_def)
qed

theorem cpu_well_formed_witness:
  "pc demo_spin 1 = Spinning 3 \<and> crit demo_spin 1 = {} \<and> \<not> intr (cpus (smp demo_spin) 1) \<and>
   crit demo_spin 0 = {3} \<and> \<not> intr (cpus (smp demo_spin) 0) \<and> noff (cpus (smp demo_spin) 0) = 1"
  using cpu_well_formed [OF demo_reach(2), of 0] cpu_well_formed [OF demo_reach(2), of 1]
  by (auto simp: demo_spin_def demo_held_def demo_sys_def)

text \<open>C25: \<^verbatim>\<open>push_off\<close> and \<^verbatim>\<open>pop_off\<close> are matched: after \<open>n\<close> calls of one and \<open>n\<close> of the other the depth
  and the interrupt flag are as before, and no call in between turned interrupts on.\<close>

theorem push_pop_matched:
  assumes "0 \<le> noff p" "0 < noff p \<longrightarrow> \<not> intr p"
  shows "\<exists>q. rfold (\<lambda>_. pop_off) [0..<n] ((push_off ^^ n) p) = Ret q \<and> noff q = noff p \<and> intr q = intr p"
proof (cases "n = 0")
  case False
  note P = pushes [OF assms, of n]
  have "\<exists>r. rfold (\<lambda>_. pop_off) [0..<n] ((push_off ^^ n) p) = Ret r \<and> noff r = noff p \<and>
      intr r = (noff p = 0 \<and> intena ((push_off ^^ n) p))"
    by (rule pops) (use P assms(1) False in auto)
  then show ?thesis using P assms False by (cases "noff p = 0") auto
qed simp

theorem push_pop_matched_witness:
  "\<exists>q. rfold (\<lambda>_. pop_off) [0..<3] ((push_off ^^ 3) \<lparr>noff = 0, intena = False, intr = True\<rparr>) = Ret q \<and>
     noff q = 0 \<and> intr q"
  using push_pop_matched [of "\<lparr>noff = 0, intena = False, intr = True\<rparr>" 3] by auto

end
