(* ===== verification/Grep.thy ===== *)
theory Grep
  imports Prelude
begin

text \<open>
  The programs that read files piecewise: \<^verbatim>\<open>user/grep.c\<close>, \<^verbatim>\<open>user/wc.c\<close> and
  \<^verbatim>\<open>user/cat.c\<close>.  A C string is the list of its characters before the terminating zero.

  A file is the rest of its contents together with the sizes of the pieces in which the kernel
  will deliver it; a read returns at most what was asked for, and nothing only at the end of the
  data or when nothing was asked for.  With \<open>fi_fail\<close> the read at the end of the data fails
  with -1 instead of returning 0.
\<close>

section \<open>Definitions\<close>

function matchhere :: "string \<Rightarrow> string \<Rightarrow> bool" and
  matchstar :: "char \<Rightarrow> string \<Rightarrow> string \<Rightarrow> bool" where
  "matchhere [] text = True"
| "matchhere (c # re) text =
     (if re \<noteq> [] \<and> hd re = CHR ''*'' then matchstar c (tl re) text
      else if c = CHR ''$'' \<and> re = [] then text = []
      else case text of [] \<Rightarrow> False | t # text \<Rightarrow> (c = CHR ''.'' \<or> c = t) \<and> matchhere re text)"
| "matchstar c re text =
     (matchhere re text \<or>
      (case text of [] \<Rightarrow> False | t # text \<Rightarrow> (t = c \<or> c = CHR ''.'') \<and> matchstar c re text))"
  by pat_completeness auto
termination
  by (relation "measure (\<lambda>x. case x of Inl (re, text) \<Rightarrow> 2 * (length re + length text)
        | Inr (c, re, text) \<Rightarrow> Suc (2 * (length re + length text)))") auto

declare matchhere.simps(2) [simp del] matchstar.simps [simp del]

primrec match_loop :: "string \<Rightarrow> string \<Rightarrow> bool" where
  "match_loop re [] = matchhere re []"
| "match_loop re (t # text) = (matchhere re (t # text) \<or> match_loop re text)"

definition grep_match :: "string \<Rightarrow> string \<Rightarrow> bool" where
  "grep_match re text =
     (if re \<noteq> [] \<and> hd re = CHR ''^'' then matchhere (tl re) text else match_loop re text)"

abbreviation (input) NUL :: char where "NUL \<equiv> CHR 0x00"
abbreviation (input) NL :: char where "NL \<equiv> CHR 0x0A"

text \<open>\<^verbatim>\<open>strchr\<close> of the user library, on the bytes from a position on.\<close>

definition strchr :: "string \<Rightarrow> char \<Rightarrow> nat option" where
  "strchr p c =
     (let s = takeWhile (\<lambda>x. x \<noteq> NUL) p; i = length (takeWhile (\<lambda>x. x \<noteq> c) s) in
      if i < length s then Some i else None)"

lemma strchr_less: "strchr p c = Some i \<Longrightarrow> i < length p"
  using length_takeWhile_le [of "\<lambda>x. x \<noteq> NUL" p] by (auto simp: strchr_def Let_def split: if_splits)

function grep_lines :: "string \<Rightarrow> string \<Rightarrow> string \<times> string" where
  "grep_lines pattern p =
     (case strchr p NL of
        None \<Rightarrow> ([], p)
      | Some q \<Rightarrow>
          let w = (if grep_match pattern (take q p) then take (q + 1) p else []);
              (out, r) = grep_lines pattern (drop (q + 1) p)
          in (w @ out, r))"
  by pat_completeness auto
termination
  by (relation "measure (\<lambda>(pattern, p). length p)") (auto dest: strchr_less)

declare grep_lines.simps [simp del]

record file_in =
  fi_data :: string
  fi_sizes :: "nat list"
  fi_fail :: bool

definition uread :: "file_in \<Rightarrow> nat \<Rightarrow> string \<times> file_in" where
  "uread f k =
     (let n = (case fi_sizes f of [] \<Rightarrow> k | z # zs \<Rightarrow> min k (max 1 z)) in
      (take n (fi_data f), f\<lparr>fi_data := drop n (fi_data f), fi_sizes := tl (fi_sizes f)\<rparr>))"

lemma uread_less: "uread f k = (b, f') \<Longrightarrow> b \<noteq> [] \<Longrightarrow> length (fi_data f') < length (fi_data f)"
  by (auto simp: uread_def Let_def split: list.splits)

function grep_loop :: "string \<Rightarrow> string \<Rightarrow> file_in \<Rightarrow> string" where
  "grep_loop pattern buf f =
     (let (b, f') = uread f (1024 - length buf - 1) in
      if b = [] then []
      else let (out, rest) = grep_lines pattern (buf @ b) in out @ grep_loop pattern rest f')"
  by pat_completeness auto
termination
  by (relation "measure (\<lambda>(pattern, buf, f). length (fi_data f))") (auto dest: uread_less [OF sym])

declare grep_loop.simps [simp del]

definition grep :: "string \<Rightarrow> file_in \<Rightarrow> string" where
  "grep pattern f = grep_loop pattern [] f"

text \<open>\<^verbatim>\<open>wc\<close>: lines, words, characters and whether the last character was in a word.  The counters
  are words of the width of a C \<^verbatim>\<open>int\<close>, and the result is what \<^verbatim>\<open>%d\<close> prints of them.\<close>

definition blank :: "char \<Rightarrow> bool" where
  "blank x \<longleftrightarrow> x \<in> set [CHR '' '', CHR 0x0D, CHR 0x09, CHR 0x0A, CHR 0x0B]"

definition wc_char :: "char \<Rightarrow> u32 \<times> u32 \<times> u32 \<times> bool \<Rightarrow> u32 \<times> u32 \<times> u32 \<times> bool" where
  "wc_char x = (\<lambda>(l, w, c, inword).
     let c = c + 1;
         l = (if x = NL then l + 1 else l)
     in
     if blank x then (l, w, c, False)
     else if \<not> inword then (l, w + 1, c, True)
     else (l, w, c, inword))"

function wc_loop :: "file_in \<Rightarrow> u32 \<times> u32 \<times> u32 \<times> bool \<Rightarrow> u32 \<times> u32 \<times> u32 \<times> bool" where
  "wc_loop f st =
     (let (b, f') = uread f 512 in
      if b = [] then st else wc_loop f' (fold wc_char b st))"
  by pat_completeness auto
termination
  by (relation "measure (\<lambda>(f, st). length (fi_data f))") (auto dest: uread_less [OF sym])

declare wc_loop.simps [simp del]

definition wc :: "file_in \<Rightarrow> string + int \<times> int \<times> int" where
  "wc f =
     (let (l, w, c, inword) = wc_loop f (0, 0, 0, False) in
      if fi_fail f then Inl ''wc: read error'' else Inr (sint l, sint w, sint c))"

text \<open>\<^verbatim>\<open>cat\<close> writes every piece that it reads; \<open>wr\<close> is what \<^verbatim>\<open>write\<close> returns for a piece.
  The result is the message with which it exits, if any, and what it has written.\<close>

function cat :: "(string \<Rightarrow> int) \<Rightarrow> file_in \<Rightarrow> string \<Rightarrow> string option \<times> string" where
  "cat wr f out =
     (let (b, f') = uread f 512 in
      if b = [] then (if fi_fail f then Some ''cat: read error'' else None, out)
      else if wr b \<noteq> int (length b) then (Some ''cat: write error'', out @ take (nat (wr b)) b)
      else cat wr f' (out @ b))"
  by pat_completeness auto
termination
  by (relation "measure (\<lambda>(wr, f, out). length (fi_data f))") (auto dest: uread_less [OF sym])

declare cat.simps [simp del]

section \<open>What a pattern means\<close>

text \<open>\<open>matches re s r\<close>: the pattern matches the text \<open>s\<close> when \<open>r\<close> follows it.\<close>

inductive matches :: "string \<Rightarrow> string \<Rightarrow> string \<Rightarrow> bool" where
  empty: "matches [] [] r"
| star: "(\<And>t. t \<in> set s \<Longrightarrow> c = CHR ''.'' \<or> t = c) \<Longrightarrow> matches re s' r \<Longrightarrow>
    matches (c # CHR ''*'' # re) (s @ s') r"
| eol: "matches ''$'' [] []"
| one: "c = CHR ''.'' \<or> c = t \<Longrightarrow> (re = [] \<longrightarrow> c \<noteq> CHR ''$'') \<Longrightarrow> (re \<noteq> [] \<longrightarrow> hd re \<noteq> CHR ''*'') \<Longrightarrow>
    matches re s r \<Longrightarrow> matches (c # re) (t # s) r"

inductive_cases matches_NilE: "matches [] s r"
inductive_cases matches_starE: "matches (c # CHR ''*'' # re) s r"
inductive_cases matches_ConsE: "matches (c # re) s r"

lemma matchstar_iff:
  "matchstar c re xs \<longleftrightarrow>
   (\<exists>u v. xs = u @ v \<and> (\<forall>t\<in>set u. c = CHR ''.'' \<or> t = c) \<and> matchhere re v)"
proof (induction xs)
  case Nil
  then show ?case by (subst matchstar.simps) simp
next
  case (Cons t xs)
  have "(\<exists>u v. t # xs = u @ v \<and> (\<forall>t\<in>set u. c = CHR ''.'' \<or> t = c) \<and> matchhere re v) \<longleftrightarrow>
      matchhere re (t # xs) \<or> ((t = c \<or> c = CHR ''.'') \<and>
        (\<exists>u v. xs = u @ v \<and> (\<forall>t\<in>set u. c = CHR ''.'' \<or> t = c) \<and> matchhere re v))"
    by (auto simp: Cons_eq_append_conv intro: exI [of _ "[]"]) (metis append_Cons list.set_intros set_ConsD)+
  then show ?case by (subst matchstar.simps) (simp add: Cons)
qed

text \<open>The two kinds of patterns that are not empty.\<close>

lemma matches_star_iff:
  "matches (c # CHR ''*'' # re) s r \<longleftrightarrow>
   (\<exists>u v. s = u @ v \<and> (\<forall>t\<in>set u. c = CHR ''.'' \<or> t = c) \<and> matches re v r)"
proof
  assume "matches (c # CHR ''*'' # re) s r"
  then show "\<exists>u v. s = u @ v \<and> (\<forall>t\<in>set u. c = CHR ''.'' \<or> t = c) \<and> matches re v r"
    by (rule matches_starE) auto
qed (blast intro: matches.star)

lemma matches_one_iff:
  assumes "re = [] \<or> hd re \<noteq> CHR ''*''"
  shows "matches (c # re) s r \<longleftrightarrow>
    (if c = CHR ''$'' \<and> re = [] then s = [] \<and> r = []
     else \<exists>t s'. s = t # s' \<and> (c = CHR ''.'' \<or> c = t) \<and> matches re s' r)"
proof
  assume "matches (c # re) s r"
  then show "if c = CHR ''$'' \<and> re = [] then s = [] \<and> r = []
     else \<exists>t s'. s = t # s' \<and> (c = CHR ''.'' \<or> c = t) \<and> matches re s' r"
    using assms by (cases rule: matches_ConsE) auto
next
  assume h: "if c = CHR ''$'' \<and> re = [] then s = [] \<and> r = []
     else \<exists>t s'. s = t # s' \<and> (c = CHR ''.'' \<or> c = t) \<and> matches re s' r"
  show "matches (c # re) s r"
  proof (cases "c = CHR ''$'' \<and> re = []")
    case True
    then show ?thesis using h matches.eol by simp
  next
    case False
    then obtain t s' where s: "s = t # s'" "c = CHR ''.'' \<or> c = t" "matches re s' r" using h by auto
    show ?thesis unfolding s(1)
      by (rule matches.one) (use s assms False in auto)
  qed
qed

lemma matchhere_one:
  assumes "re = [] \<or> hd re \<noteq> CHR ''*''"
  shows "matchhere (c # re) xs = (if c = CHR ''$'' \<and> re = [] then xs = []
    else case xs of [] \<Rightarrow> False | t # xs \<Rightarrow> (c = CHR ''.'' \<or> c = t) \<and> matchhere re xs)"
  using assms by (subst matchhere.simps) auto

lemma split_assoc:
  "(\<exists>u v. xs = u @ v \<and> A u \<and> (\<exists>s r. v = s @ r \<and> B s r)) \<longleftrightarrow>
   (\<exists>s r. xs = s @ r \<and> (\<exists>u v. s = u @ v \<and> A u \<and> B v r))"
proof
  assume "\<exists>u v. xs = u @ v \<and> A u \<and> (\<exists>s r. v = s @ r \<and> B s r)"
  then obtain u s r where "xs = (u @ s) @ r" "A u" "B s r" by auto
  then show "\<exists>s r. xs = s @ r \<and> (\<exists>u v. s = u @ v \<and> A u \<and> B v r)" by blast
next
  assume "\<exists>s r. xs = s @ r \<and> (\<exists>u v. s = u @ v \<and> A u \<and> B v r)"
  then obtain u v r where "xs = u @ (v @ r)" "A u" "B v r" by auto
  then show "\<exists>u v. xs = u @ v \<and> A u \<and> (\<exists>s r. v = s @ r \<and> B s r)" by blast
qed

lemma split_Cons:
  "(if Q then xs = [] else case xs of [] \<Rightarrow> False | t # ts \<Rightarrow> P t \<and> (\<exists>s r. ts = s @ r \<and> B s r)) \<longleftrightarrow>
   (\<exists>s r. xs = s @ r \<and> (if Q then s = [] \<and> r = [] else \<exists>t s'. s = t # s' \<and> P t \<and> B s' r))"
proof (cases Q)
  case False
  show ?thesis
  proof (cases xs)
    case (Cons t ts)
    have "(\<exists>s r. t # ts = s @ r \<and> (\<exists>t s'. s = t # s' \<and> P t \<and> B s' r)) \<longleftrightarrow>
        P t \<and> (\<exists>s r. ts = s @ r \<and> B s r)"
    proof
      assume "P t \<and> (\<exists>s r. ts = s @ r \<and> B s r)"
      then obtain s r where "t # ts = (t # s) @ r" "P t" "B s r" by auto
      then show "\<exists>s r. t # ts = s @ r \<and> (\<exists>t s'. s = t # s' \<and> P t \<and> B s' r)" by blast
    next
      assume "\<exists>s r. t # ts = s @ r \<and> (\<exists>t s'. s = t # s' \<and> P t \<and> B s' r)"
      then obtain r s' where "ts = s' @ r" "P t" "B s' r" by auto
      then show "P t \<and> (\<exists>s r. ts = s @ r \<and> B s r)" by blast
    qed
    then show ?thesis using False Cons by simp
  qed (simp add: False)
qed simp

lemma matchhere_iff: "matchhere re xs \<longleftrightarrow> (\<exists>s r. xs = s @ r \<and> matches re s r)"
proof (induction "length re" arbitrary: re xs rule: less_induct)
  case less
  show ?case
  proof (cases re)
    case Nil
    have "matches [] [] xs" by (rule matches.empty)
    then show ?thesis using Nil by force
  next
    case (Cons c re')
    show ?thesis
    proof (cases "re' = [] \<or> hd re' \<noteq> CHR ''*''")
      case True
      have IH: "matchhere re' v \<longleftrightarrow> (\<exists>s r. v = s @ r \<and> matches re' s r)" for v
        by (rule less.hyps) (simp add: Cons)
      show ?thesis
        unfolding Cons matchhere_one [OF True] matches_one_iff [OF True] IH
        by (rule split_Cons)
    next
      case False
      then obtain re'' where re: "re' = CHR ''*'' # re''" by (cases re') auto
      have IH: "matchhere re'' v \<longleftrightarrow> (\<exists>s r. v = s @ r \<and> matches re'' s r)" for v
        by (rule less.hyps) (simp add: Cons re)
      show ?thesis
        unfolding Cons re matches_star_iff split_assoc [symmetric]
        by (simp add: matchhere.simps matchstar_iff IH)
    qed
  qed
qed

lemma match_loop_iff: "match_loop re xs \<longleftrightarrow> (\<exists>u v. xs = u @ v \<and> matchhere re v)"
proof (induction xs)
  case (Cons t xs)
  have "(\<exists>u v. t # xs = u @ v \<and> matchhere re v) \<longleftrightarrow>
      matchhere re (t # xs) \<or> (\<exists>u v. xs = u @ v \<and> matchhere re v)"
    by (auto simp: Cons_eq_append_conv)
  then show ?case using Cons by simp
qed simp

section \<open>Lines\<close>

text \<open>The complete lines of a text, without their ends.\<close>

function lines_of :: "string \<Rightarrow> string list" where
  "lines_of xs =
     (if NL \<in> set xs
      then takeWhile (\<lambda>c. c \<noteq> NL) xs # lines_of (tl (dropWhile (\<lambda>c. c \<noteq> NL) xs))
      else [])"
  by pat_completeness auto
termination
proof (relation "measure length")
  fix xs :: string assume "NL \<in> set xs"
  then have "dropWhile (\<lambda>c. c \<noteq> NL) xs \<noteq> []" by (auto simp: dropWhile_eq_Nil_conv)
  then show "(tl (dropWhile (\<lambda>c. c \<noteq> NL) xs), xs) \<in> measure length"
    using length_dropWhile_le [of "\<lambda>c. c \<noteq> NL" xs] by (cases "dropWhile (\<lambda>c. c \<noteq> NL) xs") auto
qed simp

declare lines_of.simps [simp del]

lemma lines_of_Cons: "NL \<notin> set l \<Longrightarrow> lines_of (l @ NL # xs) = l # lines_of xs"
  by (subst lines_of.simps) (simp add: takeWhile_append dropWhile_append)

lemma lines_of_Nil: "NL \<notin> set xs \<Longrightarrow> lines_of xs = []"
  by (subst lines_of.simps) simp

definition grep_out :: "string \<Rightarrow> string \<Rightarrow> string" where
  "grep_out pattern xs = concat (map (\<lambda>l. l @ [NL]) (filter (grep_match pattern) (lines_of xs)))"

lemma strchr_NL:
  assumes "NUL \<notin> set p"
  shows "strchr p NL = (if NL \<in> set p then Some (length (takeWhile (\<lambda>c. c \<noteq> NL) p)) else None)"
proof -
  have nz: "takeWhile (\<lambda>x. x \<noteq> NUL) p = p" using assms by (auto simp: takeWhile_eq_all_conv)
  have "length (takeWhile (\<lambda>c. c \<noteq> NL) p) < length p \<longleftrightarrow> NL \<in> set p" by (induction p) auto
  then show ?thesis unfolding strchr_def Let_def nz by simp
qed

lemma split_NL: "NL \<in> set p \<Longrightarrow> \<exists>l q. p = l @ NL # q \<and> NL \<notin> set l"
  by (metis split_list_first)

lemma grep_lines_spec:
  assumes "NUL \<notin> set p" "grep_lines pattern p = (out, r)"
  shows "grep_out pattern (p @ ys) = out @ grep_out pattern (r @ ys) \<and> NL \<notin> set r \<and> NUL \<notin> set r \<and>
    (\<exists>l. p = l @ r \<and> (l = [] \<or> last l = NL))"
  using assms
proof (induction "length p" arbitrary: p out rule: less_induct)
  case less
  show ?case
  proof (cases "NL \<in> set p")
    case False
    then show ?thesis using less.prems by (simp add: grep_lines.simps [of pattern p] strchr_NL)
  next
    case True
    then obtain l q where p: "p = l @ NL # q" "NL \<notin> set l" using split_NL by blast
    have str: "strchr p NL = Some (length l)"
      using p less.prems(1) by (simp add: strchr_NL takeWhile_append)
    have tk: "take (length l) p = l" "take (Suc (length l)) p = l @ [NL]" "drop (Suc (length l)) p = q"
      using p by simp_all
    obtain o' r' where g: "grep_lines pattern q = (o', r')" by fastforce
    have "grep_lines pattern p = ((if grep_match pattern l then l @ [NL] else []) @ o', r')"
      by (subst grep_lines.simps) (simp add: str tk g)
    then have o: "out = (if grep_match pattern l then l @ [NL] else []) @ o'" "r = r'"
      using less.prems(2) by simp_all
    have "length q < length p" "NUL \<notin> set q" using p less.prems(1) by auto
    from less.hyps [OF this g [folded o(2)]] obtain l' where IH: "grep_out pattern (q @ ys) = o' @ grep_out pattern (r @ ys)"
      "NL \<notin> set r" "NUL \<notin> set r" "q = l' @ r" "l' = [] \<or> last l' = NL" by blast
    have "grep_out pattern (p @ ys) = (if grep_match pattern l then l @ [NL] else []) @ grep_out pattern (q @ ys)"
      using p by (simp add: grep_out_def lines_of_Cons)
    moreover have "p = (l @ NL # l') @ r" "last (l @ NL # l') = NL" using p IH by auto
    ultimately show ?thesis using IH o by auto
  qed
qed

lemma uread_spec:
  assumes "uread f k = (b, f')" "0 < k"
  shows "fi_data f = b @ fi_data f'" "length b \<le> k" "b = [] \<longleftrightarrow> fi_data f = []"
  using assms by (auto simp: uread_def Let_def split: list.splits)

text \<open>A line that is not complete is at the front of the buffer, and the buffer has room for more.\<close>

definition short_lines :: "string \<Rightarrow> bool" where
  "short_lines xs \<longleftrightarrow> (\<forall>u l v. xs = u @ l @ v \<longrightarrow> NL \<notin> set l \<longrightarrow> length l < 1023)"

lemma short_lines_suffix: "short_lines (l @ xs) \<Longrightarrow> short_lines xs"
  unfolding short_lines_def by (metis append.assoc)

lemma short_lines_prefix: "short_lines (buf @ xs) \<Longrightarrow> NL \<notin> set buf \<Longrightarrow> length buf < 1023"
  unfolding short_lines_def by (metis append_Nil)

lemma grep_loop_spec:
  assumes "NL \<notin> set buf" "NUL \<notin> set (buf @ fi_data f)" "short_lines (buf @ fi_data f)"
  shows "grep_loop pattern buf f = grep_out pattern (buf @ fi_data f)"
  using assms
proof (induction pattern buf f rule: grep_loop.induct)
  case (1 pattern buf f)
  define k where "k = 1024 - length buf - 1"
  have k: "0 < k" using short_lines_prefix [OF 1(4) 1(2)] by (simp add: k_def)
  obtain b f' where r: "uread f k = (b, f')" by fastforce
  note R = uread_spec [OF r k]
  have r': "uread f (1023 - length buf) = (b, f')" using r by (simp add: k_def)
  show ?case
  proof (cases "b = []")
    case True
    then have "fi_data f = []" using R(3) by simp
    then show ?thesis
      using 1(2) True by (simp add: grep_loop.simps [of pattern buf f] r' grep_out_def lines_of_Nil)
  next
    case False
    obtain out rest where g: "grep_lines pattern (buf @ b) = (out, rest)" by fastforce
    have "NUL \<notin> set (buf @ b)" using 1(3) R(1) by auto
    from grep_lines_spec [OF this g, of "fi_data f'"] obtain l where
      G: "grep_out pattern ((buf @ b) @ fi_data f') = out @ grep_out pattern (rest @ fi_data f')"
        "NL \<notin> set rest" "NUL \<notin> set rest" "buf @ b = l @ rest" by blast
    have n: "NUL \<notin> set (rest @ fi_data f')" using 1(3) R(1) G(3) by auto
    have "buf @ fi_data f = l @ rest @ fi_data f'" using R(1) G(4) by (metis append.assoc)
    then have s: "short_lines (rest @ fi_data f')" using 1(4) short_lines_suffix by metis
    have "grep_loop pattern rest f' = grep_out pattern (rest @ fi_data f')"
      using 1(1) [OF r [unfolded k_def, symmetric] refl False g [symmetric] refl G(2) n s] .
    then show ?thesis
      using G(1) R(1) False by (simp add: grep_loop.simps [of pattern buf f] r' g)
  qed
qed

text \<open>A line that fills the buffer.\<close>

lemma lines_of_append:
  "xs = [] \<or> last xs = NL \<Longrightarrow> NL \<notin> set l \<Longrightarrow> lines_of (xs @ l) = lines_of xs"
proof (induction xs rule: lines_of.induct)
  case (1 xs)
  show ?case
  proof (cases "xs = []")
    case True
    then show ?thesis using 1(3) by (simp add: lines_of_Nil)
  next
    case False
    then have "NL \<in> set xs" using 1(2) by (metis last_in_set)
    then obtain k q where x: "xs = k @ NL # q" "NL \<notin> set k" using split_NL by blast
    have "tl (dropWhile (\<lambda>c. c \<noteq> NL) xs) = q" using x by (simp add: dropWhile_append)
    then have "lines_of (q @ l) = lines_of q"
      using 1 x by (cases "q = []") (simp_all add: lines_of_Nil)
    then show ?thesis using x by (simp add: lines_of_Cons)
  qed
qed

text \<open>What \<^verbatim>\<open>grep_lines\<close> takes from the front of the text is made of complete lines.\<close>

lemma take_lines:
  assumes "l @ v = pre @ long" "l = [] \<or> last l = NL" "NL \<notin> set long"
  shows "\<exists>pre'. pre = l @ pre' \<and> v = pre' @ long"
proof -
  from assms(1) consider us where "l @ us = pre" "v = us @ long" | us where "l = pre @ us" "us @ v = long"
    unfolding append_eq_append_conv2 by blast
  then show ?thesis
  proof cases
    case 2
    then have "us = []" using assms(2,3) by (cases us rule: rev_cases) auto
    then show ?thesis using 2 by auto
  qed auto
qed

lemma prefix_split: "xs @ ys = us @ vs \<Longrightarrow> length xs \<le> length us \<Longrightarrow> \<exists>zs. xs @ zs = us \<and> ys = zs @ vs"
  by (auto simp: append_eq_append_conv2)

lemma short_pre_full:
  assumes "buf @ v = pre @ long @ rest" "pre = [] \<or> last pre = NL" "short_lines pre"
    and "NL \<notin> set buf" "1023 \<le> length buf"
  shows "pre = []"
proof (rule ccontr)
  assume "pre \<noteq> []"
  then have "NL \<in> set pre" using assms(2) by (metis last_in_set)
  then obtain l q where p: "pre = l @ NL # q" "NL \<notin> set l" using split_NL by blast
  have "length l < 1023" using assms(3) p unfolding short_lines_def by (metis append_Nil)
  then have "buf ! length l = NL"
    using arg_cong [OF assms(1), of "\<lambda>xs. xs ! length l"] p assms(5) by (simp add: nth_append)
  then show False using assms(4,5) \<open>length l < 1023\<close> nth_mem [of "length l" buf] by auto
qed

lemma grep_loop_long:
  assumes "NL \<notin> set buf" "length buf \<le> 1023" "buf @ fi_data f = pre @ long @ rest"
    and "pre = [] \<or> last pre = NL" "short_lines pre" "length long = 1023" "NL \<notin> set long"
    and "NUL \<notin> set (pre @ long)"
  shows "grep_loop pattern buf f = grep_out pattern pre"
  using assms
proof (induction pattern buf f arbitrary: pre rule: grep_loop.induct)
  case (1 pattern buf f)
  note A = 1(2-9)
  define k where "k = 1024 - length buf - 1"
  obtain b f' where r: "uread f k = (b, f')" by fastforce
  have r': "uread f (1023 - length buf) = (b, f')" using r by (simp add: k_def)
  show ?case
  proof (cases "length buf = 1023")
    case True
    then have "pre = []" using short_pre_full [OF A(3,4,5,1)] by simp
    moreover have "b = []" using r True by (auto simp: k_def uread_def Let_def split: list.splits)
    ultimately show ?thesis by (simp add: grep_loop.simps [of pattern buf f] r' grep_out_def lines_of_Nil)
  next
    case False
    then have "0 < k" using A(2) by (simp add: k_def)
    note R = uread_spec [OF r this]
    have ne: "b \<noteq> []"
    proof
      assume "b = []"
      then have "length buf = length (pre @ long @ rest)" using R(3) A(3) by simp
      then show False using A(2,6) False by simp
    qed
    have "length (buf @ b) \<le> length (pre @ long)" using R(2) A(2,6) by (simp add: k_def)
    moreover have "(buf @ b) @ fi_data f' = (pre @ long) @ rest" using A(3) R(1) by simp
    ultimately obtain zs where zs: "(buf @ b) @ zs = pre @ long" "fi_data f' = zs @ rest"
      using prefix_split by blast
    obtain out v where g: "grep_lines pattern (buf @ b) = (out, v)" by fastforce
    have "NUL \<notin> set (buf @ b)" using A(8) zs(1) by (metis Un_iff set_append)
    from grep_lines_spec [OF this g, of zs] obtain l where
      G: "grep_out pattern ((buf @ b) @ zs) = out @ grep_out pattern (v @ zs)"
        "NL \<notin> set v" "buf @ b = l @ v" "l = [] \<or> last l = NL" by blast
    have "l @ v @ zs = pre @ long" using G(3) zs(1) by (metis append.assoc)
    from take_lines [OF this G(4) A(7)] obtain pre' where p: "pre = l @ pre'" "v @ zs = pre' @ long" by blast
    have p': "pre' = [] \<or> last pre' = NL" "short_lines pre'" "NUL \<notin> set (pre' @ long)"
      using A(4,5,8) p(1) short_lines_suffix [of l pre'] by (auto simp: last_append split: if_splits)
    have "length v \<le> length (buf @ b)" unfolding G(3) by simp
    then have "length v \<le> 1023" using R(2) A(2) by (simp add: k_def)
    moreover have "v @ fi_data f' = pre' @ long @ rest" using p(2) zs(2) by (metis append.assoc)
    ultimately have "grep_loop pattern v f' = grep_out pattern pre'"
      using 1(1) [OF r [unfolded k_def, symmetric] refl ne g [symmetric] refl G(2)] p' A(6,7) by blast
    moreover have "grep_out pattern (p @ long) = grep_out pattern p" if "p = [] \<or> last p = NL" for p
      using lines_of_append [OF that A(7)] by (simp add: grep_out_def)
    ultimately have "grep_out pattern pre = out @ grep_loop pattern v f'"
      using G(1) zs(1) p(2) A(4) p'(1) by simp
    then show ?thesis using ne by (simp add: grep_loop.simps [of pattern buf f] r' g)
  qed
qed

lemma wc_loop_spec: "wc_loop f st = fold wc_char (fi_data f) st"
proof (induction f st rule: wc_loop.induct)
  case (1 f st)
  obtain b f' where r: "uread f 512 = (b, f')" by fastforce
  note R = uread_spec [OF r]
  show ?case
    using 1 [OF r [symmetric] refl] R by (cases "b = []") (simp_all add: wc_loop.simps [of f st] r)
qed

lemma cat_all:
  "\<forall>b. wr b = int (length b) \<Longrightarrow>
   cat wr f out = (if fi_fail f then Some ''cat: read error'' else None, out @ fi_data f)"
proof (induction wr f out rule: cat.induct)
  case (1 wr f out)
  obtain b f' where r: "uread f 512 = (b, f')" by fastforce
  note R = uread_spec [OF r]
  show ?case
  proof (cases "b = []")
    case False
    have "cat wr f' (out @ b) = (if fi_fail f' then Some ''cat: read error'' else None, (out @ b) @ fi_data f')"
      by (rule 1(1) [OF r [symmetric] refl False _ 1(2)]) (use 1(2) in simp)
    moreover have "cat wr f out = cat wr f' (out @ b)"
      using False 1(2) by (subst cat.simps) (simp add: r)
    moreover have "fi_fail f' = fi_fail f" using r by (auto simp: uread_def Let_def)
    ultimately show ?thesis using R(1) by simp
  next
    case True
    then have "fi_data f = []" using R(3) by simp
    then show ?thesis by (subst cat.simps) (simp add: r True)
  qed
qed

text \<open>The places where a word starts.\<close>

definition word_starts :: "string \<Rightarrow> nat set" where
  "word_starts xs = {i. i < length xs \<and> \<not> blank (xs ! i) \<and> (i = 0 \<or> blank (xs ! (i - 1)))}"

lemma word_starts_snoc:
  "word_starts (xs @ [x]) = word_starts xs \<union>
     (if \<not> blank x \<and> (xs = [] \<or> blank (last xs)) then {length xs} else {})"
  by (cases "xs = []") (auto simp: word_starts_def nth_append last_conv_nth less_Suc_eq)

lemma finite_word_starts [simp]: "finite (word_starts xs)" "length xs \<notin> word_starts xs"
  by (auto simp: word_starts_def)

lemma wc_step:
  "wc_char x (l, w, c, i) =
     (if x = NL then l + 1 else l, if \<not> blank x \<and> \<not> i then w + 1 else w, c + 1, \<not> blank x)"
  by (simp add: wc_char_def Let_def)

lemma wc_fold:
  "fold wc_char xs (0, 0, 0, False) =
     (of_nat (length (filter (\<lambda>c. c = NL) xs)), of_nat (card (word_starts xs)), of_nat (length xs),
      xs \<noteq> [] \<and> \<not> blank (last xs))"
proof (induction xs rule: rev_induct)
  case Nil
  then show ?case by (simp add: word_starts_def)
next
  case (snoc x xs)
  then show ?case by (simp add: wc_step word_starts_snoc)
qed

lemma card_word_starts: "card (word_starts xs) \<le> length xs"
  using card_mono [of "{..<length xs}" "word_starts xs"] by (auto simp: word_starts_def)

lemma sint_count: "n < 2 ^ 31 \<Longrightarrow> sint (of_nat n :: u32) = int n"
  by (simp add: sint_uint unsigned_of_nat signed_take_bit_int_eq_self take_bit_nat_eq_self)

section \<open>Properties\<close>

text \<open>C26: the matcher finds exactly the patterns it should.  \<^verbatim>\<open>match\<close> accepts a text if and only if
  some part of it matches the pattern, a part at the beginning if the pattern starts with
  \<^verbatim>\<open>^\<close>.  A character matches itself, \<^verbatim>\<open>.\<close> any character, \<^verbatim>\<open>c*\<close> any number of characters that
  match \<^verbatim>\<open>c\<close>, and a final \<^verbatim>\<open>$\<close> the end of the text.\<close>

theorem grep_match_correct:
  "grep_match re xs \<longleftrightarrow>
    (if re \<noteq> [] \<and> hd re = CHR ''^'' then \<exists>s r. xs = s @ r \<and> matches (tl re) s r
     else \<exists>u s r. xs = u @ s @ r \<and> matches re s r)"
  unfolding grep_match_def matchhere_iff match_loop_iff by (auto; blast)

text \<open>C27: \<^verbatim>\<open>grep\<close> prints exactly the lines that match, however the kernel cuts the file into
  pieces.  This holds for files without zero bytes whose lines are shorter than 1023
  characters; a last line without an end is not printed.\<close>

theorem grep_prints_matches:
  assumes "NUL \<notin> set (fi_data f)" "short_lines (fi_data f)"
  shows "grep pattern f = concat (map (\<lambda>l. l @ [NL]) (filter (grep_match pattern) (lines_of (fi_data f))))"
  using grep_loop_spec [of "[]" f pattern] assms by (simp add: grep_def grep_out_def)

theorem grep_prints_matches_witness:
  "grep ''a.*c'' \<lparr>fi_data = ''xabbc'' @ [NL] @ ''cab'' @ [NL] @ ''ac'' @ [NL], fi_sizes = [3, 1, 5], fi_fail = False\<rparr> =
     ''xabbc'' @ [NL] @ ''ac'' @ [NL]"
proof -
  have s: "short_lines xs" if "length xs < 1023" for xs
    using that by (auto simp: short_lines_def)
  show ?thesis
    by (subst grep_prints_matches)
      (simp_all add: s lines_of.simps grep_match_def matchhere.simps matchstar.simps)
qed

text \<open>C28: a line that does not fit stops \<^verbatim>\<open>grep\<close>.  If after some complete lines of fewer than 1023
  characters a file goes on with 1023 characters without an end of line, then \<^verbatim>\<open>grep\<close> prints the
  lines before that match and ends: the buffer is full, the next read asks for nothing, and the
  rest of the file is not searched, whatever it contains and however the kernel cuts the file into
  pieces.\<close>

theorem grep_stops_at_long_line:
  assumes "fi_data f = pre @ long @ rest" "pre = [] \<or> last pre = NL" "short_lines pre"
    and "length long = 1023" "NL \<notin> set long" "NUL \<notin> set (pre @ long)"
  shows "grep pattern f = concat (map (\<lambda>l. l @ [NL]) (filter (grep_match pattern) (lines_of pre)))"
  using grep_loop_long [of "[]" f pre long rest pattern] assms by (simp add: grep_def grep_out_def)

theorem grep_stops_at_long_line_witness:
  "grep ''a'' \<lparr>fi_data = (''xay'' @ [NL]) @ replicate 1023 (CHR ''b'') @ [NL] @ ''a'' @ [NL],
     fi_sizes = [2, 700, 5], fi_fail = False\<rparr> = ''xay'' @ [NL]"
proof -
  have s: "short_lines xs" if "length xs < 1023" for xs
    using that by (auto simp: short_lines_def)
  show ?thesis
    by (subst grep_stops_at_long_line [where pre = "''xay'' @ [NL]" and long = "replicate 1023 (CHR ''b'')"])
      (simp_all add: s lines_of.simps grep_match_def matchhere.simps matchstar.simps)
qed

text \<open>C29: \<^verbatim>\<open>wc\<close> counts the whole file, however it is cut into pieces: the lines are the ends of
  line, the characters all characters, and the words the places where a character that is not
  blank follows a blank or the beginning, so a word that continues in the next piece counts once.  If a
  read fails, \<^verbatim>\<open>wc\<close> reports that instead.  This holds for files of fewer than \<^verbatim>\<open>2^31\<close> characters,
  whose counts fit into an \<^verbatim>\<open>int\<close>.\<close>

theorem wc_counts:
  assumes "length (fi_data f) < 2 ^ 31"
  shows "wc f = (if fi_fail f then Inl ''wc: read error''
    else Inr (int (length (filter (\<lambda>c. c = NL) (fi_data f))), int (card (word_starts (fi_data f))),
      int (length (fi_data f))))"
proof -
  have "length (filter (\<lambda>c. c = NL) (fi_data f)) < 2 ^ 31" "card (word_starts (fi_data f)) < 2 ^ 31"
    by (rule le_less_trans [OF length_filter_le assms], rule le_less_trans [OF card_word_starts assms])
  then show ?thesis using assms by (simp add: wc_def wc_loop_spec wc_fold sint_count)
qed

theorem wc_counts_witness:
  "wc \<lparr>fi_data = ''ab c'' @ [NL] @ ''d'', fi_sizes = [1, 2], fi_fail = False\<rparr> = Inr (1, 3, 6)"
proof -
  have "word_starts (''ab c'' @ [NL] @ ''d'') = {0, 3, 5}"
    by (auto simp: word_starts_def blank_def nth_Cons' numeral_eq_Suc less_Suc_eq)
  then show ?thesis by (subst wc_counts) simp_all
qed

end
