(* ===== verification/Printf.thy ===== *)
theory Printf
  imports Console
begin

text \<open>
  Formatted output of the kernel (\<^verbatim>\<open>kernel/printf.c\<close>) and of user programs
  (\<^verbatim>\<open>user/printf.c\<close>).  These are two separate pieces of code: the kernel looks ahead in the
  format and passes integers to \<^verbatim>\<open>consputc\<close>, which takes 0x100 for a backspace; the user library
  runs a two-state machine and writes bytes.  Hexadecimal letters are lower case in the kernel and
  upper case in the library.

  The variable arguments are a list; a number is a 64-bit slot, of which \<^verbatim>\<open>int\<close> and
  \<^verbatim>\<open>uint32\<close> arguments take the low half, and a string is \<open>None\<close> for a null pointer.
  Arguments that are missing or of the wrong kind, for which C gives no meaning, count as 0 and
  as the null pointer.
\<close>

section \<open>Definitions\<close>

datatype varg = VNum u64 | VStr "string option"

primrec varg_num :: "varg \<Rightarrow> u64" where
  "varg_num (VNum x) = x"
| "varg_num (VStr x) = 0"

primrec varg_str :: "varg \<Rightarrow> string option" where
  "varg_str (VNum x) = None"
| "varg_str (VStr x) = x"

definition va_num :: "varg list \<Rightarrow> u64" where
  "va_num ap = (case ap of [] \<Rightarrow> 0 | a # _ \<Rightarrow> varg_num a)"

definition va_str :: "varg list \<Rightarrow> string option" where
  "va_str ap = (case ap of [] \<Rightarrow> None | a # _ \<Rightarrow> varg_str a)"

definition kdigits :: string where "kdigits = ''0123456789abcdef''"

text \<open>The digits in the order in which they go into the buffer, the last one first.  The bases
  in use are 10 and 16.\<close>

function digit_buf :: "string \<Rightarrow> nat \<Rightarrow> nat \<Rightarrow> string" where
  "digit_buf digits base x =
     digits ! (x mod base) #
     (if x div base = 0 \<or> base < 2 then [] else digit_buf digits base (x div base))"
  by pat_completeness auto
termination by (relation "measure (\<lambda>(digits, base, x). x)") (auto intro!: div_less_dividend gr0I)

declare digit_buf.simps [simp del]

definition int_buf :: "string \<Rightarrow> u64 \<Rightarrow> nat \<Rightarrow> bool \<Rightarrow> string" where
  "int_buf digits xx base sign =
     (let neg = (sign \<and> sint xx < 0);
          x = (if neg then - xx else xx)
      in digit_buf digits base (unat x) @ (if neg then ''-'' else []))"

definition printint :: "string \<Rightarrow> u64 \<Rightarrow> nat \<Rightarrow> bool \<Rightarrow> string" where
  "printint digits xx base sign = rev (int_buf digits xx base sign)"

primrec hex_out :: "string \<Rightarrow> nat \<Rightarrow> u64 \<Rightarrow> string" where
  "hex_out digits 0 x = []"
| "hex_out digits (Suc k) x = digits ! unat (drop_bit 60 x) # hex_out digits k (push_bit 4 x)"

definition printptr :: "string \<Rightarrow> u64 \<Rightarrow> string" where
  "printptr digits x = ''0x'' @ hex_out digits 16 x"

text \<open>The \<^verbatim>\<open>int\<close> and \<^verbatim>\<open>uint32\<close> readings of a slot.\<close>

definition as_int :: "u64 \<Rightarrow> u64" where
  "as_int x = scast (ucast x :: u32)"

definition as_u32 :: "u64 \<Rightarrow> u64" where
  "as_u32 x = ucast (ucast x :: u32)"

text \<open>A directive of the kernel's \<^verbatim>\<open>printf\<close>, by the three characters after the percent sign: how
  many characters after the first it takes, the arguments of its calls of \<^verbatim>\<open>consputc\<close>, and the
  variable arguments that are left.\<close>

definition codes :: "string \<Rightarrow> int list" where
  "codes cs = map (\<lambda>c. int (of_char c)) cs"

definition kdirective :: "char \<Rightarrow> char \<Rightarrow> char \<Rightarrow> varg list \<Rightarrow> nat \<times> int list \<times> varg list" where
  "kdirective c0 c1 c2 ap =
     (if c0 = CHR ''d'' then (0, codes (printint kdigits (as_int (va_num ap)) 10 True), tl ap)
      else if c0 = CHR ''l'' \<and> c1 = CHR ''d''
      then (1, codes (printint kdigits (va_num ap) 10 True), tl ap)
      else if c0 = CHR ''l'' \<and> c1 = CHR ''l'' \<and> c2 = CHR ''d''
      then (2, codes (printint kdigits (va_num ap) 10 True), tl ap)
      else if c0 = CHR ''u'' then (0, codes (printint kdigits (as_u32 (va_num ap)) 10 False), tl ap)
      else if c0 = CHR ''l'' \<and> c1 = CHR ''u''
      then (1, codes (printint kdigits (va_num ap) 10 False), tl ap)
      else if c0 = CHR ''l'' \<and> c1 = CHR ''l'' \<and> c2 = CHR ''u''
      then (2, codes (printint kdigits (va_num ap) 10 False), tl ap)
      else if c0 = CHR ''x'' then (0, codes (printint kdigits (as_u32 (va_num ap)) 16 False), tl ap)
      else if c0 = CHR ''l'' \<and> c1 = CHR ''x''
      then (1, codes (printint kdigits (va_num ap) 16 False), tl ap)
      else if c0 = CHR ''l'' \<and> c1 = CHR ''l'' \<and> c2 = CHR ''x''
      then (2, codes (printint kdigits (va_num ap) 16 False), tl ap)
      else if c0 = CHR ''p'' then (0, codes (printptr kdigits (va_num ap)), tl ap)
      else if c0 = CHR ''c'' then (0, [sint (ucast (va_num ap) :: u32)], tl ap)
      else if c0 = CHR ''s''
      then (0, codes (case va_str ap of None \<Rightarrow> ''(null)'' | Some x \<Rightarrow> x), tl ap)
      else if c0 = CHR ''%'' then (0, codes ''%'', ap)
      else (0, codes [CHR ''%'', c0], ap))"

text \<open>The character at the start of the rest of the format, the final NUL when it is empty.\<close>

definition ch_at :: "nat \<Rightarrow> string \<Rightarrow> char" where
  "ch_at i fmt = (if i < length fmt then fmt ! i else CHR 0x00)"

function printf_out :: "string \<Rightarrow> varg list \<Rightarrow> int list" where
  "printf_out [] ap = []"
| "printf_out (cx # fmt) ap =
     (if cx \<noteq> CHR ''%'' then int (of_char cx) # printf_out fmt ap
      else
        let c0 = ch_at 0 fmt;
            c1 = (if c0 \<noteq> CHR 0x00 then ch_at 1 fmt else CHR 0x00);
            c2 = (if c1 \<noteq> CHR 0x00 then ch_at 2 fmt else CHR 0x00)
        in
        if c0 = CHR 0x00 then []
        else
          let (k, out, ap) = kdirective c0 c1 c2 ap
          in out @ printf_out (drop (Suc k) fmt) ap)"
  by pat_completeness auto
termination by (relation "measure (\<lambda>(fmt, ap). length fmt)") auto

definition printf :: "string \<Rightarrow> varg list \<Rightarrow> 'a kernel_scheme \<Rightarrow> 'a kernel_scheme res" where
  "printf fmt ap s = rfold consputc (printf_out fmt ap) s"

text \<open>\<^verbatim>\<open>panic\<close> ends in a loop; the result is the state in which it spins.\<close>

definition panic :: "string \<Rightarrow> 'a kernel_scheme \<Rightarrow> 'a kernel_scheme res" where
  "panic msg s =
     (let s = s\<lparr>panicking := True\<rparr> in
      rbind (printf ''panic: '' [] s) (\<lambda>s.
      rbind (printf (''%s'' @ [CHR 0x0A]) [VStr (Some msg)] s) (\<lambda>s.
      Ret (s\<lparr>panicked := True\<rparr>))))"

section \<open>The user library\<close>







section \<open>Numbers\<close>

text \<open>Reading a number back: the value of a digit, of a buffer of digits, and of the output.\<close>

definition digit_val :: "string \<Rightarrow> char \<Rightarrow> nat" where
  "digit_val digits c = length (takeWhile (\<lambda>d. d \<noteq> c) digits)"

primrec buf_val :: "string \<Rightarrow> nat \<Rightarrow> string \<Rightarrow> nat" where
  "buf_val digits base [] = 0"
| "buf_val digits base (c # cs) = digit_val digits c + base * buf_val digits base cs"

definition read_int :: "string \<Rightarrow> nat \<Rightarrow> string \<Rightarrow> int" where
  "read_int digits base out =
     (if out \<noteq> [] \<and> hd out = CHR ''-'' then - int (buf_val digits base (rev (tl out)))
      else int (buf_val digits base (rev out)))"

text \<open>A table of at least \<open>base\<close> distinct digits, none of them the minus sign.\<close>

definition digit_table :: "string \<Rightarrow> nat \<Rightarrow> bool" where
  "digit_table digits base \<longleftrightarrow>
     2 \<le> base \<and> base \<le> length digits \<and> distinct digits \<and> CHR ''-'' \<notin> set digits"

lemma digit_val_nth: "distinct digits \<Longrightarrow> i < length digits \<Longrightarrow> digit_val digits (digits ! i) = i"
proof (induction digits arbitrary: i)
  case (Cons d ds)
  then show ?case
  proof (cases i)
    case (Suc j)
    then have "d \<noteq> ds ! j" using Cons.prems nth_mem by fastforce
    then show ?thesis using Cons Suc by (simp add: digit_val_def)
  qed (simp add: digit_val_def)
qed simp

lemma buf_val_digit_buf:
  assumes "digit_table digits base"
  shows "buf_val digits base (digit_buf digits base x) = x"
proof (induction x rule: less_induct)
  case (less x)
  have b: "2 \<le> base" "base \<le> length digits" "distinct digits"
    using assms by (auto simp: digit_table_def)
  have d: "digit_val digits (digits ! (x mod base)) = x mod base"
    using b by (intro digit_val_nth) (auto intro: less_le_trans [OF mod_less_divisor])
  show ?case
  proof (cases "x div base = 0")
    case True
    then have "x mod base = x" using mult_div_mod_eq [of base x] by simp
    then show ?thesis using True d by (simp add: digit_buf.simps [of digits base x])
  next
    case False
    then have "0 < x" by (cases x) auto
    then have "x div base < x" using b by (simp add: div_less_dividend)
    then show ?thesis
      using less False b d by (simp add: digit_buf.simps [of digits base x])
  qed
qed

lemma set_digit_buf:
  assumes "digit_table digits base"
  shows "set (digit_buf digits base x) \<subseteq> set digits"
proof (induction x rule: less_induct)
  case (less x)
  have b: "2 \<le> base" "base \<le> length digits" using assms by (auto simp: digit_table_def)
  have d: "digits ! (x mod base) \<in> set digits"
    using b by (intro nth_mem) (auto intro: less_le_trans [OF mod_less_divisor])
  show ?case
  proof (cases "x div base = 0")
    case False
    then have "0 < x" by (cases x) auto
    then have "x div base < x" using b by (simp add: div_less_dividend)
    then show ?thesis
      using less False b d by (auto simp: digit_buf.simps [of digits base x])
  qed (use d b in \<open>simp add: digit_buf.simps [of digits base x]\<close>)
qed

lemma length_digit_buf: "2 \<le> base \<Longrightarrow> x < base ^ Suc n \<Longrightarrow> length (digit_buf digits base x) \<le> Suc n"
proof (induction n arbitrary: x)
  case 0
  then show ?case by (simp add: digit_buf.simps [of digits base x])
next
  case (Suc n)
  have "x div base < base ^ Suc n"
    using Suc.prems by (intro less_mult_imp_div_less) (simp add: mult.commute)
  then show ?case using Suc by (simp add: digit_buf.simps [of digits base x])
qed

lemma rev_digit_buf_hd:
  assumes "digit_table digits base"
  shows "rev (digit_buf digits base x) \<noteq> [] \<and> hd (rev (digit_buf digits base x)) \<noteq> CHR ''-''"
proof -
  have ne: "digit_buf digits base x \<noteq> []" by (simp add: digit_buf.simps [of digits base x])
  then have "hd (rev (digit_buf digits base x)) \<in> set digits"
    using set_digit_buf [OF assms, of x] by (metis hd_in_set rev_is_Nil_conv set_rev subsetD)
  then show ?thesis using ne assms by (auto simp: digit_table_def)
qed

lemma sint_cases: "sint (x :: u64) = uint x - (if bit x 63 then 2 ^ 64 else 0)"
proof -
  have "take_bit 64 (uint x) = uint x" using uint_lt2p [of x] by (simp add: take_bit_int_eq_self_iff)
  then show ?thesis
    by (simp add: sint_uint signed_take_bit_eq_take_bit_minus bit_uint_iff)
qed

lemma neg_value: "sint x < 0 \<Longrightarrow> int (unat (- x)) = - sint (x :: u64)"
proof -
  assume n: "sint x < 0"
  then have "x \<noteq> 0" by auto
  then have "uint x \<noteq> 0" by (simp add: uint_0_iff)
  then have "uint (- x) = 2 ^ 64 - uint x"
    using uint_lt2p [of x] by (simp add: uint_word_ariths zmod_zminus1_eq_if)
  moreover have "sint x = uint x - 2 ^ 64"
    using n uint_ge_0 [of x] by (simp add: sint_cases split: if_splits)
  ultimately show ?thesis by simp
qed

lemma nonneg_value: "0 \<le> sint x \<Longrightarrow> int (unat x) = sint (x :: u64)"
  using uint_lt2p [of x] by (simp add: sint_cases split: if_splits)

section \<open>The two versions of \<^verbatim>\<open>printf\<close>\<close>













section \<open>Properties\<close>

text \<open>C22: what \<^verbatim>\<open>printint\<close> prints, read back in the same base, is the number it was given,
  for every 64-bit number, signed or unsigned, and every digit table; the smallest negative
  number, whose negation overflows, is included.\<close>

theorem printint_value:
  assumes "digit_table digits base"
  shows "read_int digits base (printint digits xx base sign) =
    (if sign then sint xx else int (unat xx))"
proof (cases "sign \<and> sint xx < 0")
  case True
  then show ?thesis
    using neg_value [of xx] buf_val_digit_buf [OF assms]
    by (simp add: printint_def int_buf_def read_int_def)
next
  case False
  then have p: "printint digits xx base sign = rev (digit_buf digits base (unat xx))"
    by (auto simp: printint_def int_buf_def Let_def)
  show ?thesis
    unfolding p read_int_def
    using rev_digit_buf_hd [OF assms] buf_val_digit_buf [OF assms] False nonneg_value [of xx]
    by auto
qed

theorem printint_value_witness:
  "read_int kdigits 10 (printint kdigits (- 42) 10 True) = - 42"
proof -
  have "digit_table kdigits 10" by (simp add: digit_table_def kdigits_def)
  then show ?thesis using printint_value [of kdigits 10 "- 42" True] by simp
qed

text \<open>C23: the buffer of 20 characters that \<^verbatim>\<open>printint\<close> fills is large enough for every
  64-bit number in the bases that \<^verbatim>\<open>printf\<close> uses, the sign included.\<close>

theorem printint_fits:
  "base \<in> {10, 16} \<Longrightarrow> length (int_buf digits xx base sign) \<le> 20"
proof -
  assume b: "base \<in> {10, 16}"
  have u: "unat x < base ^ Suc 19" for x :: u64
    using unsigned_less [where ?'b = 64 and ?'a = nat and w = x] b by auto
  show ?thesis
  proof (cases "sign \<and> sint xx < 0")
    case True
    have "int (unat (- xx)) \<le> int (2 ^ 63)"
      using neg_value [of xx] True sint_ge [of xx] by simp
    then have "unat (- xx) \<le> 2 ^ 63" by (simp only: of_nat_le_iff)
    then have "unat (- xx) < base ^ Suc 18" using b by auto
    then have "length (digit_buf digits base (unat (- xx))) \<le> Suc 18"
      using b by (intro length_digit_buf) auto
    then show ?thesis using True by (simp add: int_buf_def)
  next
    case False
    have "length (digit_buf digits base (unat xx)) \<le> Suc 19"
      using u b by (intro length_digit_buf) auto
    then show ?thesis using False by (auto simp: int_buf_def Let_def)
  qed
qed

theorem printint_fits_witness: "length (int_buf kdigits (- 9223372036854775808) 10 True) \<le> 20"
  by (rule printint_fits) simp




end
