(* ===== verification/Ulib.thy ===== *)
theory Ulib
  imports Cstring Grep Printf
begin

text \<open>
  The user library (\<^verbatim>\<open>user/ulib.c\<close>).  Its string and memory routines are written differently
  from those of the kernel (\<open>Cstring\<close>); the properties say that they do the same.  A string is an
  array of bytes that is read as if zeroes followed it.  \<^verbatim>\<open>strchr\<close> is in \<open>Grep\<close>.
\<close>

section \<open>Definitions\<close>

function strcpy_loop :: "byte list \<Rightarrow> byte list \<Rightarrow> nat \<Rightarrow> byte list" where
  "strcpy_loop s t i =
     (if cptr t i \<noteq> 0 then strcpy_loop (s[i := cptr t i]) t (Suc i) else s[i := cptr t i])"
  by pat_completeness auto
termination
  by (relation "measure (\<lambda>(s, t, i). length t - i)") (auto simp: cptr_def split: if_splits)

definition strcpy :: "byte list \<Rightarrow> byte list \<Rightarrow> byte list" where
  "strcpy s t = strcpy_loop s t 0"

function strcmp_loop :: "byte list \<Rightarrow> byte list \<Rightarrow> nat \<Rightarrow> int" where
  "strcmp_loop p q i =
     (if cptr p i \<noteq> 0 \<and> cptr p i = cptr q i then strcmp_loop p q (Suc i)
      else uint (cptr p i) - uint (cptr q i))"
  by pat_completeness auto
termination
  by (relation "measure (\<lambda>(p, q, i). length p - i)") (auto simp: cptr_def split: if_splits)

definition strcmp :: "byte list \<Rightarrow> byte list \<Rightarrow> int" where
  "strcmp p q = strcmp_loop p q 0"

function ustrlen_loop :: "byte list \<Rightarrow> nat \<Rightarrow> nat" where
  "ustrlen_loop s n = (if cptr s n \<noteq> 0 then ustrlen_loop s (Suc n) else n)"
  by pat_completeness auto
termination
  by (relation "measure (\<lambda>(s, n). length s - n)") (auto simp: cptr_def split: if_splits)

definition ustrlen :: "byte list \<Rightarrow> nat" where
  "ustrlen s = ustrlen_loop s 0"

declare strcpy_loop.simps [simp del] strcmp_loop.simps [simp del] ustrlen_loop.simps [simp del]

definition umemset :: "memory \<Rightarrow> addr \<Rightarrow> u32 \<Rightarrow> u32 \<Rightarrow> memory" where
  "umemset m dst c n = memset_loop m dst (ucast c) 0 (unat n)"

text \<open>\<^verbatim>\<open>gets\<close> reads one character at a time; \<open>k\<close> characters fit before the terminating zero.\<close>

primrec gets_loop :: "nat \<Rightarrow> string \<Rightarrow> file_in \<Rightarrow> string \<times> file_in" where
  "gets_loop 0 line f = (line, f)"
| "gets_loop (Suc k) line f =
     (let (b, f') = uread f 1 in
      if b = [] then (line, f')
      else if hd b = CHR 0x0A \<or> hd b = CHR 0x0D then (line @ [hd b], f')
      else gets_loop k (line @ [hd b]) f')"

definition gets :: "int \<Rightarrow> file_in \<Rightarrow> string \<times> file_in" where
  "gets mx f = gets_loop (nat (mx - 1)) [] f"

definition is_digit :: "char \<Rightarrow> bool" where
  "is_digit c \<longleftrightarrow> 48 \<le> (of_char c :: nat) \<and> (of_char c :: nat) \<le> 57"

primrec atoi_loop :: "string \<Rightarrow> u32 \<Rightarrow> u32" where
  "atoi_loop [] n = n"
| "atoi_loop (c # s) n =
     (if is_digit c then atoi_loop s (n * 10 + of_nat (of_char c) - 48) else n)"

definition atoi :: "string \<Rightarrow> int" where
  "atoi s = sint (atoi_loop s 0)"

definition umemmove :: "memory \<Rightarrow> addr \<Rightarrow> addr \<Rightarrow> int \<Rightarrow> memory" where
  "umemmove m vdst vsrc n =
     (if vsrc > vdst then memmove_up (nat n) m vdst vsrc
      else memmove_down (nat n) m (vdst + of_int n) (vsrc + of_int n))"

definition umemcmp :: "memory \<Rightarrow> addr \<Rightarrow> addr \<Rightarrow> u32 \<Rightarrow> int" where
  "umemcmp m s1 s2 n = memcmp_loop m s1 s2 (unat n)"

definition umemcpy :: "memory \<Rightarrow> addr \<Rightarrow> addr \<Rightarrow> u32 \<Rightarrow> memory" where
  "umemcpy m dst src n = umemmove m dst src (sint n)"

section \<open>Lemmas\<close>

lemma ustrlen_strlen: "ustrlen s = strlen s"
proof -
  have "ustrlen_loop s n = strlen_loop s n" if "n \<le> length s" for n
    using that
  proof (induction s n rule: ustrlen_loop.induct)
    case (1 s n)
    then show ?case
      by (simp add: ustrlen_loop.simps [of s n] strlen_loop.simps [of s n] cptr_def)
  qed
  then show ?thesis by (simp add: ustrlen_def strlen_def)
qed

lemma strcmp_loop_zero: "strcmp_loop p q i = 0 \<longleftrightarrow> cstr (drop i p) = cstr (drop i q)"
proof (induction p q i rule: strcmp_loop.induct)
  case (1 p q i)
  have d: "cstr (drop i x) = (if cptr x i = 0 then [] else cptr x i # cstr (drop (Suc i) x))" for x
    by (cases "i < length x") (simp_all add: Cons_nth_drop_Suc [symmetric] cstr_def cptr_def)
  show ?case
  proof (cases "cptr p i \<noteq> 0 \<and> cptr p i = cptr q i")
    case True
    then show ?thesis using 1 d [of p] d [of q] by (simp add: strcmp_loop.simps [of p q i])
  next
    case False
    then show ?thesis using d [of p] d [of q]
      by (auto simp: strcmp_loop.simps [of p q i] word_uint_eq_iff)
  qed
qed

lemma umemmove_spec:
  assumes "0 \<le> n" "unat src + nat n \<le> 2 ^ 64" "unat dst + nat n \<le> 2 ^ 64" "nat n < 2 ^ 64"
  shows "umemmove m dst src n = write_bytes m dst (read_bytes m src (nat n))"
proof (cases "dst < src")
  case True
  then have lt: "unat dst < unat src" by (simp add: word_less_nat_alt)
  then have "unat (dst - src) = unat dst + 18446744073709551616 - unat src" by (simp add: unat_sub_if')
  then have "nat n \<le> unat (dst - src)" using assms(2) lt by simp
  then show ?thesis using True assms(4) by (simp add: umemmove_def memmove_up_spec)
next
  case False
  then have le: "unat src \<le> unat dst" by (simp add: word_less_nat_alt)
  have "dst = src \<or> nat n \<le> unat (src - dst)"
  proof (cases "unat src = unat dst")
    case False
    then have lt: "unat src < unat dst" using le by simp
    then have "unat (src - dst) = unat src + 18446744073709551616 - unat dst" by (simp add: unat_sub_if')
    then have "nat n \<le> unat (src - dst)" using assms(3) lt by simp
    then show ?thesis ..
  qed (simp add: word_unat_eq_iff)
  then have "memmove_down (nat n) m (dst + of_nat (nat n)) (src + of_nat (nat n)) =
      write_bytes m dst (read_bytes m src (nat n))"
    using assms(4) by (intro memmove_down_spec) auto
  moreover have "(of_int n :: addr) = of_nat (nat n)" using assms(1) by simp
  ultimately show ?thesis using False by (simp add: umemmove_def)
qed

lemma atoi_loop_append:
  "(\<And>c. c \<in> set xs \<Longrightarrow> is_digit c) \<Longrightarrow> atoi_loop (xs @ ys) n = atoi_loop ys (atoi_loop xs n)"
  by (induction xs arbitrary: n) auto

lemma digit_code: "i < 10 \<Longrightarrow> of_char (kdigits ! i) = (48 + i :: nat)"
  unfolding kdigits_def by (auto simp: numeral_eq_Suc less_Suc_eq)

lemma digits_decimal:
  "c \<in> set (digit_buf kdigits 10 x) \<Longrightarrow> is_digit c \<and> digit_val kdigits c = of_char c - 48"
proof (induction kdigits "10 :: nat" x rule: digit_buf.induct)
  case (1 x)
  have v: "digit_val kdigits (kdigits ! (x mod 10)) = x mod 10"
    by (rule digit_val_nth) (simp_all add: kdigits_def less_le_trans [OF mod_less_divisor])
  show ?case
    using 1 v digit_code [of "x mod 10"] by (auto simp: digit_buf.simps [of _ _ x] is_digit_def split: if_splits)
qed

lemma atoi_digits:
  assumes "\<And>c. c \<in> set ds \<Longrightarrow> is_digit c \<and> digit_val kdigits c = of_char c - 48"
  shows "atoi_loop (rev ds) 0 = of_nat (buf_val kdigits 10 ds)"
  using assms
proof (induction ds)
  case (Cons d ds)
  have d: "is_digit d" "digit_val kdigits d = of_char d - 48" using Cons.prems by auto
  have "atoi_loop (rev ds @ [d]) 0 = atoi_loop [d] (atoi_loop (rev ds) 0)"
    using Cons.prems by (intro atoi_loop_append) auto
  also have "atoi_loop (rev ds) 0 = of_nat (buf_val kdigits 10 ds)" using Cons by simp
  finally have e: "atoi_loop (rev ds @ [d]) 0 = of_nat (buf_val kdigits 10 ds) * 10 + of_nat (of_char d) - 48"
    using d(1) by simp
  have "of_nat (of_char d - 48) = (of_nat (of_char d) - 48 :: u32)"
    using d(1) by (simp add: is_digit_def of_nat_diff)
  then show ?case using d(2) by (simp add: e)
qed simp

lemma sint32_nonneg:
  assumes "0 \<le> sint (n :: u32)"
  shows "nat (sint n) = unat n"
proof -
  have "take_bit 32 (uint n) = uint n" using uint_lt2p [of n] by (simp add: take_bit_int_eq_self_iff)
  then have "sint n = uint n - (if bit n 31 then 2 ^ 32 else 0)"
    by (simp add: sint_uint signed_take_bit_eq_take_bit_minus bit_uint_iff)
  then have "sint n = uint n" using assms uint_lt2p [of n] by (simp split: if_splits)
  then show ?thesis by simp
qed

section \<open>Properties\<close>

text \<open>C33: the user's \<^verbatim>\<open>memmove\<close>, which chooses the direction by comparing the addresses, and the
  kernel's, which copies backwards only when the regions overlap, do the same.\<close>

theorem umemmove_memmove:
  assumes "unat src + unat n \<le> 2 ^ 64" "unat dst + unat n \<le> 2 ^ 64" "0 \<le> sint n"
  shows "umemmove m dst src (sint n) = memmove m dst src n"
proof -
  have "nat (sint n) = unat n" by (rule sint32_nonneg [OF assms(3)])
  then show ?thesis
    using umemmove_spec [of "sint n" src dst m] memmove_spec [OF assms(1,2)] assms
      unsigned_less [where ?'b = 32 and ?'a = nat and w = n] by simp
qed

theorem umemmove_memmove_witness:
  "umemmove (\<lambda>a. ucast a) 0x1002 0x1000 8 = memmove (\<lambda>a. ucast a) 0x1002 0x1000 8"
  using umemmove_memmove [of "0x1000" 8 "0x1002" "\<lambda>a. ucast a"] by simp

text \<open>C34: \<^verbatim>\<open>strcmp\<close> returns 0 exactly for equal strings, whatever follows their ends.\<close>

theorem strcmp_equal: "strcmp p q = 0 \<longleftrightarrow> cstr p = cstr q"
  using strcmp_loop_zero [of p q 0] by (simp add: strcmp_def)

text \<open>C35: \<^verbatim>\<open>atoi\<close> reads back what \<^verbatim>\<open>printf\<close> prints for a number that is not negative.\<close>

theorem atoi_printint:
  assumes "0 \<le> sint (x :: u32)"
  shows "atoi (printint kdigits (ucast x) 10 True) = sint x"
proof -
  have u: "unat (ucast x :: u64) = unat x"
    using unsigned_less [where ?'b = 32 and ?'a = nat and w = x] by (simp add: unsigned_ucast_eq take_bit_nat_eq_self)
  have "\<not> bit (ucast x :: u64) 63" by (auto simp: bit_simps dest: bit_imp_le_length)
  then have "0 \<le> sint (ucast x :: u64)" by (simp add: sint_cases)
  then have "printint kdigits (ucast x) 10 True = rev (digit_buf kdigits 10 (unat x))"
    by (simp add: printint_def int_buf_def u)
  moreover have "atoi_loop (rev (digit_buf kdigits 10 (unat x))) 0 = of_nat (unat x)"
    using atoi_digits [of "digit_buf kdigits 10 (unat x)"] digits_decimal
      buf_val_digit_buf [of kdigits 10 "unat x"] by (simp add: digit_table_def kdigits_def)
  ultimately show ?thesis by (simp add: atoi_def)
qed

theorem atoi_printint_witness: "atoi (printint kdigits (ucast (1234 :: u32)) 10 True) = 1234"
  using atoi_printint [of 1234] by simp

end
