(* ===== verification/Shell.thy ===== *)
theory Shell
  imports Prelude
begin

text \<open>
  The parser of the shell (\<^verbatim>\<open>user/sh.c\<close>).  A pointer into the command line is the rest of the line
  from there on; \<^verbatim>\<open>es\<close>, the end of the line, is the empty rest.  A word of a command is a pair
  of pointers, to its first character and past its last.

  The parser calls itself in a cycle.  The definitions carry a bound on the depth of the calls;
  \<open>Blocked\<close> says that it was exceeded, and \<open>parsecmd_ends\<close> shows that the bound \<^verbatim>\<open>parsecmd\<close>
  starts with is always enough.
\<close>

section \<open>Definitions\<close>

abbreviation (input) NUL :: char where "NUL \<equiv> CHR 0x00"

abbreviation (input) MAXARGS :: nat where "MAXARGS \<equiv> 10"

type_synonym word = "string \<times> string"

text \<open>Commands, with words of type \<open>'w\<close>: pairs of pointers for the parser, strings for the user.\<close>

datatype 'w cmd =
    EXEC "'w list"
  | REDIR "'w cmd" 'w nat nat
  | PIPE "'w cmd" "'w cmd"
  | LIST "'w cmd" "'w cmd"
  | BACK "'w cmd"

definition whitespace :: "char \<Rightarrow> bool" where
  "whitespace c \<longleftrightarrow> c \<in> set [CHR '' '', CHR 0x09, CHR 0x0D, CHR 0x0A, CHR 0x0B]"

definition symbol :: "char \<Rightarrow> bool" where
  "symbol c \<longleftrightarrow> c \<in> set ''<|>&;()''"

definition skip :: "string \<Rightarrow> string" where
  "skip s = dropWhile whitespace s"

definition wordchar :: "char \<Rightarrow> bool" where
  "wordchar c \<longleftrightarrow> \<not> whitespace c \<and> \<not> symbol c"

text \<open>The token, where it starts, where it ends, and where the next one is looked for.\<close>

definition gettoken :: "string \<Rightarrow> char \<times> string \<times> string \<times> string" where
  "gettoken s =
     (let s = skip s; q = s;
          (ret, s) =
            (case s of
               [] \<Rightarrow> (NUL, s)
             | c # s' \<Rightarrow>
                 if c \<in> set ''|();&<'' then (c, s')
                 else if c = CHR ''>''
                 then if s' \<noteq> [] \<and> hd s' = CHR ''>'' then (CHR ''+'', tl s') else (CHR ''>'', s')
                 else (CHR ''a'', dropWhile wordchar s))
      in (ret, q, s, skip s))"

definition peek :: "string \<Rightarrow> string \<Rightarrow> bool \<times> string" where
  "peek s toks = (let s = skip s in (s \<noteq> [] \<and> hd s \<in> set toks, s))"

abbreviation (input) O_RDONLY :: nat where "O_RDONLY \<equiv> 0x000"
abbreviation (input) O_WRONLY :: nat where "O_WRONLY \<equiv> 0x001"
abbreviation (input) O_CREATE :: nat where "O_CREATE \<equiv> 0x200"
abbreviation (input) O_TRUNC :: nat where "O_TRUNC \<equiv> 0x400"

text \<open>A redirection: the file, the mode and the descriptor.  The code wraps the command in each
  redirection as it reads it and goes on to fill in the arguments of the command inside; here
  the redirections are collected first.\<close>

type_synonym redir = "word \<times> nat \<times> nat"

definition redircmd :: "word cmd \<Rightarrow> redir \<Rightarrow> word cmd" where
  "redircmd c r = (case r of (f, mode, fd) \<Rightarrow> REDIR c f mode fd)"

definition redir_of :: "char \<Rightarrow> word \<Rightarrow> redir" where
  "redir_of tok f =
     (if tok = CHR ''<'' then (f, O_RDONLY, 0)
      else if tok = CHR ''>'' then (f, O_WRONLY + O_CREATE + O_TRUNC, 1)
      else (f, O_WRONLY + O_CREATE, 1))"

lemma length_skip: "length (skip s) \<le> length s"
  by (simp add: skip_def length_dropWhile_le)

lemma skip_cases:
  obtains "skip s = []" | c s' where "skip s = c # s'" "\<not> whitespace c"
proof (cases "skip s")
  case (Cons c s')
  then have "\<not> whitespace c" using hd_dropWhile [of whitespace s] by (simp add: skip_def)
  then show ?thesis using that Cons by blast
qed (use that in blast)

lemma gettoken_Nil: "skip s = [] \<Longrightarrow> gettoken s = (NUL, [], [], [])"
  by (simp add: gettoken_def) (simp add: skip_def)

lemma gettoken_sym: "skip s = c # s' \<Longrightarrow> c \<in> set ''|();&<'' \<Longrightarrow> gettoken s = (c, c # s', s', skip s')"
  by (simp add: gettoken_def)

lemma gettoken_gt:
  "skip s = CHR ''>'' # s' \<Longrightarrow> gettoken s =
    (if s' \<noteq> [] \<and> hd s' = CHR ''>'' then (CHR ''+'', CHR ''>'' # s', tl s', skip (tl s'))
     else (CHR ''>'', CHR ''>'' # s', s', skip s'))"
  by (simp add: gettoken_def)

lemma gettoken_word:
  "skip s = c # s' \<Longrightarrow> wordchar c \<Longrightarrow>
   gettoken s = (CHR ''a'', c # s', dropWhile wordchar s', skip (dropWhile wordchar s'))"
  by (auto simp: gettoken_def wordchar_def symbol_def)

lemma gettoken_length:
  assumes "gettoken s = (t, q, eq, s')"
  shows "length s' \<le> length s" "skip s \<noteq> [] \<Longrightarrow> length s' < length s"
proof -
  have "length s' \<le> length (skip s) \<and> (skip s \<noteq> [] \<longrightarrow> length s' < length (skip s))"
  proof (rule skip_cases [of s])
    assume "skip s = []"
    then show ?thesis using assms gettoken_Nil [of s] by simp
  next
    fix c u assume c: "skip s = c # u" "\<not> whitespace c"
    have l: "length (skip v) \<le> length u" if "length v \<le> length u" for v using that length_skip [of v] by simp
    have d: "length (dropWhile wordchar u) \<le> length u" by (rule length_dropWhile_le)
    consider "c \<in> set ''|();&<''" | "c = CHR ''>''" | "wordchar c"
      using c(2) by (auto simp: wordchar_def symbol_def)
    then show ?thesis
    proof cases
      case 1
      then show ?thesis using assms gettoken_sym [OF c(1)] l [of u] c(1) by auto
    next
      case 2
      then show ?thesis using assms gettoken_gt [of s u] l [of u] l [of "tl u"] c(1) by (auto split: if_splits)
    next
      case 3
      then have "s' = skip (dropWhile wordchar u)" using assms gettoken_word [OF c(1)] by auto
      then show ?thesis using l [OF d] by (simp add: c(1))
    qed
  qed
  then show "length s' \<le> length s" "skip s \<noteq> [] \<Longrightarrow> length s' < length s"
    using length_skip [of s] by auto
qed

lemma peek_True: "peek s toks = (True, s') \<Longrightarrow> s' = skip s \<and> skip s \<noteq> [] \<and> hd (skip s) \<in> set toks"
  by (auto simp: peek_def Let_def)

lemma peek_snd: "peek s toks = (b, s') \<Longrightarrow> s' = skip s"
  by (auto simp: peek_def Let_def)

lemma skip_skip [simp]: "skip (skip s) = skip s"
  by (simp add: skip_def)

lemma peek_gettoken_less:
  assumes "peek s toks = (True, s')" "gettoken s' = (t, q, eq, u)"
  shows "length u < length s"
  using gettoken_length(2) [OF assms(2)] peek_True [OF assms(1)] length_skip [of s] by auto

lemma two_tokens_less:
  assumes "(True, u) = peek s toks" "(t1, q1, e1, v) = gettoken u" "(t2, q2, e2, r) = gettoken v"
  shows "length r < length s"
  using peek_gettoken_less [OF assms(1,2) [symmetric]] gettoken_length(1) [OF assms(3) [symmetric]] by simp

function parseredirs :: "string \<Rightarrow> redir list \<Rightarrow> (redir list \<times> string) res" where
  "parseredirs s rs =
     (case peek s ''<>'' of
        (False, s) \<Rightarrow> Ret (rs, s)
      | (True, s) \<Rightarrow>
          (case gettoken s of (tok, _, _, s) \<Rightarrow>
             (case gettoken s of (t, q, eq, s) \<Rightarrow>
                if t \<noteq> CHR ''a'' then Panic ''missing file for redirection''
                else parseredirs s (rs @ [redir_of tok (q, eq)]))))"
  by pat_completeness auto
termination
  by (relation "measure (\<lambda>(s, rs). length s)") (auto intro: two_tokens_less)

declare parseredirs.simps [simp del]

lemma parseredirs_length: "parseredirs s rs = Ret (rs', s') \<Longrightarrow> length s' \<le> length s"
proof (induction s rs rule: parseredirs.induct)
  case (1 s rs)
  show ?case
  proof (cases "fst (peek s ''<>'')")
    case False
    then show ?thesis using 1(2) length_skip [of s]
      by (auto simp: parseredirs.simps [of s rs] peek_def Let_def split: prod.splits bool.splits)
  next
    case True
    then have p: "peek s ''<>'' = (True, skip s)" by (auto simp: peek_def Let_def)
    obtain t1 q1 eq1 v where g: "gettoken (skip s) = (t1, q1, eq1, v)" by (cases "gettoken (skip s)") auto
    obtain t2 q2 eq2 r where h: "gettoken v = (t2, q2, eq2, r)" by (cases "gettoken v") auto
    have a: "t2 = CHR ''a''" using 1(2) p g h by (auto simp: parseredirs.simps [of s rs] split: if_splits)
    then have "length s' \<le> length r" using 1 p g h by (auto simp: parseredirs.simps [of s rs])
    then show ?thesis using gettoken_length(1) [OF g] gettoken_length(1) [OF h] length_skip [of s] by simp
  qed
qed

lemma parseargs_less:
  assumes "(False, u) = peek s toks" "(tok, q, eq, v) = gettoken u" "tok \<noteq> NUL" "parseredirs v rs = Ret (rs', r)"
  shows "length r < length s"
proof -
  have u: "u = skip s" using peek_snd [OF assms(1) [symmetric]] .
  then have "skip u \<noteq> []" using assms(2,3) gettoken_Nil [of u] by auto
  from gettoken_length(2) [OF assms(2) [symmetric] this] parseredirs_length [OF assms(4)] length_skip [of s]
  show ?thesis by (simp add: u)
qed

function parseargs :: "string \<Rightarrow> word list \<Rightarrow> redir list \<Rightarrow> (word list \<times> redir list \<times> string) res" where
  "parseargs s args rs =
     (case peek s ''|)&;'' of
        (True, s) \<Rightarrow> Ret (args, rs, s)
      | (False, s) \<Rightarrow>
          (case gettoken s of (tok, q, eq, s') \<Rightarrow>
             if tok = NUL then Ret (args, rs, s')
             else if tok \<noteq> CHR ''a'' then Panic ''syntax''
             else if length (args @ [(q, eq)]) \<ge> MAXARGS then Panic ''too many args''
             else rbind (parseredirs s' rs) (\<lambda>(rs, s). parseargs s (args @ [(q, eq)]) rs)))"
  by pat_completeness auto
termination
  by (relation "measure (\<lambda>(s, args, rs). length s)") (auto intro: parseargs_less)

declare parseargs.simps [simp del]

function backs :: "word cmd \<Rightarrow> string \<Rightarrow> word cmd \<times> string" where
  "backs c s =
     (case peek s ''&'' of
        (True, s) \<Rightarrow> (case gettoken s of (_, _, _, s) \<Rightarrow> backs (BACK c) s)
      | (False, s) \<Rightarrow> (c, s))"
  by pat_completeness auto
termination
  by (relation "measure (\<lambda>(c, s). length s)") (auto intro: peek_gettoken_less [OF sym sym])

declare backs.simps [simp del]

text \<open>The four procedures of the grammar; \<open>self\<close> stands for their calls of each other.\<close>

datatype nt = Line | Pipe | Exec | Block

type_synonym parser = "string \<Rightarrow> (word cmd \<times> string) res"

definition parseline :: "(nt \<Rightarrow> parser) \<Rightarrow> parser" where
  "parseline self s =
     rbind (self Pipe s) (\<lambda>(c, s).
       let (c, s) = backs c s in
       case peek s '';'' of
         (True, s) \<Rightarrow>
           (case gettoken s of (_, _, _, s) \<Rightarrow> rbind (self Line s) (\<lambda>(d, s). Ret (LIST c d, s)))
       | (False, s) \<Rightarrow> Ret (c, s))"

definition parsepipe :: "(nt \<Rightarrow> parser) \<Rightarrow> parser" where
  "parsepipe self s =
     rbind (self Exec s) (\<lambda>(c, s).
       case peek s ''|'' of
         (True, s) \<Rightarrow>
           (case gettoken s of (_, _, _, s) \<Rightarrow> rbind (self Pipe s) (\<lambda>(d, s). Ret (PIPE c d, s)))
       | (False, s) \<Rightarrow> Ret (c, s))"

definition parseblock :: "(nt \<Rightarrow> parser) \<Rightarrow> parser" where
  "parseblock self s =
     (case peek s ''('' of
        (False, s) \<Rightarrow> Panic ''parseblock''
      | (True, s) \<Rightarrow>
          (case gettoken s of (_, _, _, s) \<Rightarrow>
             rbind (self Line s) (\<lambda>(c, s).
               case peek s '')'' of
                 (False, s) \<Rightarrow> Panic ''syntax - missing )''
               | (True, s) \<Rightarrow>
                   (case gettoken s of (_, _, _, s) \<Rightarrow>
                      rbind (parseredirs s []) (\<lambda>(rs, s). Ret (foldl redircmd c rs, s))))))"

definition parseexec :: "(nt \<Rightarrow> parser) \<Rightarrow> parser" where
  "parseexec self s =
     (case peek s ''('' of
        (True, s) \<Rightarrow> self Block s
      | (False, s) \<Rightarrow>
          rbind (parseredirs s []) (\<lambda>(rs, s).
          rbind (parseargs s [] rs) (\<lambda>(args, rs, s).
            Ret (foldl redircmd (EXEC args) rs, s))))"

primrec parse :: "nat \<Rightarrow> nt \<Rightarrow> parser" where
  "parse 0 x s = Blocked ''depth''"
| "parse (Suc n) x s =
     (case x of
        Line \<Rightarrow> parseline (parse n) s
      | Pipe \<Rightarrow> parsepipe (parse n) s
      | Exec \<Rightarrow> parseexec (parse n) s
      | Block \<Rightarrow> parseblock (parse n) s)"

text \<open>The line in memory has \<open>n\<close> characters; \<open>b\<close> are its bytes with the zero at the end.  The end
  of each word is overwritten with a zero.\<close>

definition end_word :: "nat \<Rightarrow> string \<Rightarrow> word \<Rightarrow> string" where
  "end_word n b w = (case w of (q, eq) \<Rightarrow> b[n - length eq := NUL])"

primrec nulterminate :: "nat \<Rightarrow> string \<Rightarrow> word cmd \<Rightarrow> string" where
  "nulterminate n b (EXEC ws) = foldl (end_word n) b ws"
| "nulterminate n b (REDIR c f mode fd) = end_word n (nulterminate n b c) f"
| "nulterminate n b (PIPE c d) = nulterminate n (nulterminate n b c) d"
| "nulterminate n b (LIST c d) = nulterminate n (nulterminate n b c) d"
| "nulterminate n b (BACK c) = nulterminate n b c"

definition parsecmd :: "string \<Rightarrow> (word cmd \<times> string) res" where
  "parsecmd s =
     rbind (parse (4 * length s + 4) Line s) (\<lambda>(c, r).
       if snd (peek r []) \<noteq> [] then Panic ''syntax''
       else Ret (c, nulterminate (length s) (s @ [NUL]) c))"

section \<open>The parser ends\<close>

lemma parseargs_length: "parseargs s args rs = Ret (args', rs', s') \<Longrightarrow> length s' \<le> length s"
proof (induction s args rs rule: parseargs.induct)
  case (1 s args rs)
  obtain b u where p: "peek s ''|)&;'' = (b, u)" by fastforce
  then have u: "u = skip s" by (rule peek_snd)
  obtain tok q eq v where g: "gettoken u = (tok, q, eq, v)" by (cases "gettoken u") auto
  note lv = gettoken_length(1) [OF g]
  show ?case
  proof (cases "b \<or> tok = NUL")
    case True
    then show ?thesis using 1(2) p g u lv length_skip [of s]
      by (auto simp: parseargs.simps [of s args rs] split: bool.splits)
  next
    case False
    then obtain rs2 r where r: "parseredirs v rs = Ret (rs2, r)" "parseargs r (args @ [(q, eq)]) rs2 = Ret (args', rs', s')"
      "tok = CHR ''a''" "\<not> length (args @ [(q, eq)]) \<ge> MAXARGS"
      using 1(2) p g by (auto simp: parseargs.simps [of s args rs] split: bool.splits if_splits)
    have "length s' \<le> length r"
      by (rule 1(1)) (use p g r False in auto)
    then show ?thesis using parseredirs_length [OF r(1)] lv u length_skip [of s] by simp
  qed
qed

lemma backs_length: "backs c s = (c', s') \<Longrightarrow> length s' \<le> length s"
proof (induction c s rule: backs.induct)
  case (1 c s)
  obtain b u where p: "peek s ''&'' = (b, u)" by fastforce
  then have u: "u = skip s" by (rule peek_snd)
  obtain tok q eq v where g: "gettoken u = (tok, q, eq, v)" by (cases "gettoken u") auto
  show ?case
  proof (cases b)
    case True
    then have b: "b = True" by simp
    then have "backs (BACK c) v = (c', s')" using 1(2) p g by (simp add: backs.simps [of c s])
    from 1(1) [OF p [symmetric] b g [symmetric] refl refl this] have "length s' \<le> length v" .
    then show ?thesis using gettoken_length(1) [OF g] u length_skip [of s] by simp
  next
    case False
    then show ?thesis using 1(2) p u length_skip [of s] by (simp add: backs.simps [of c s])
  qed
qed

definition ends :: "(word cmd \<times> string) res \<Rightarrow> nat \<Rightarrow> bool" where
  "ends r n \<longleftrightarrow> (\<forall>m. r \<noteq> Blocked m) \<and> (\<forall>c s'. r = Ret (c, s') \<longrightarrow> length s' \<le> n)"

lemma ends_mono: "ends r m \<Longrightarrow> m \<le> n \<Longrightarrow> ends r n"
  by (auto simp: ends_def)

lemma ends_bind:
  assumes "\<And>m. r \<noteq> Blocked m" "\<And>x. r = Ret x \<Longrightarrow> ends (f x) n"
  shows "ends (rbind r f) n"
  using assms by (cases r) (auto simp: ends_def)

lemma ends_simps [simp]: "ends (Ret (c, s)) n \<longleftrightarrow> length s \<le> n" "ends (Panic m) n"
  by (auto simp: ends_def)

lemma parseredirs_not_blocked: "parseredirs s rs \<noteq> Blocked m"
proof (induction s rs rule: parseredirs.induct)
  case (1 s rs)
  obtain b u where p: "peek s ''<>'' = (b, u)" by fastforce
  obtain t1 q1 e1 v where g: "gettoken u = (t1, q1, e1, v)" by (cases "gettoken u") auto
  obtain t2 q2 e2 r where h: "gettoken v = (t2, q2, e2, r)" by (cases "gettoken v") auto
  have "parseredirs r (rs @ [redir_of t1 (q2, e2)]) \<noteq> Blocked m" if "b = True" "t2 = CHR ''a''"
    by (rule 1 [OF p [symmetric] that(1) g [symmetric] refl refl h [symmetric] refl refl]) (use that in simp)
  then show ?case by (cases b) (simp_all add: parseredirs.simps [of s rs] p g h)
qed

lemma parseargs_not_blocked: "parseargs s args rs \<noteq> Blocked m"
proof (induction s args rs rule: parseargs.induct)
  case (1 s args rs)
  obtain b u where p: "peek s ''|)&;'' = (b, u)" by fastforce
  obtain tok q eq v where g: "gettoken u = (tok, q, eq, v)" by (cases "gettoken u") auto
  have "rbind (parseredirs v rs) (\<lambda>(rs, s). parseargs s (args @ [(q, eq)]) rs) \<noteq> Blocked m"
    if "\<not> b" "tok = CHR ''a''" "\<not> length (args @ [(q, eq)]) \<ge> MAXARGS"
  proof (cases "parseredirs v rs")
    case (Ret x)
    obtain rs' r where x: "x = (rs', r)" by fastforce
    have "parseargs r (args @ [(q, eq)]) rs' \<noteq> Blocked m"
      by (rule 1 [OF p [symmetric] _ g [symmetric] refl refl _ _ that(3) Ret x [symmetric]]) (use that in simp_all)
    then show ?thesis using Ret x by simp
  qed (use parseredirs_not_blocked in auto)
  then show ?case by (cases b) (auto simp: parseargs.simps [of s args rs] p g)
qed

lemma parseline_ends:
  assumes p: "ends (self Pipe s) (length s)" and l: "\<And>u. length u < length s \<Longrightarrow> ends (self Line u) (length u)"
  shows "ends (parseline self s) (length s)"
  unfolding parseline_def
proof (rule ends_bind, goal_cases)
  case (1 m)
  then show ?case using p by (auto simp: ends_def)
next
  case (2 x)
  obtain c u where x: "x = (c, u)" by fastforce
  then have u: "length u \<le> length s" using p 2 by (auto simp: ends_def)
  obtain c2 v where b: "backs c u = (c2, v)" by fastforce
  note v = backs_length [OF b]
  obtain y w where k: "peek v '';'' = (y, w)" by fastforce
  obtain t q e r where g: "gettoken w = (t, q, e, r)" by (cases "gettoken w") auto
  show ?case
  proof (cases y)
    case True
    then have "length r < length v" using peek_gettoken_less [of v _ w] k g by auto
    then have r: "length r < length s" using u v by simp
    have "ends (rbind (self Line r) (\<lambda>(d, s). Ret (LIST c2 d, s))) (length s)"
      using l [OF r] r by (intro ends_bind) (auto simp: ends_def)
    then show ?thesis using True by (simp add: x b k g)
  next
    case False
    then show ?thesis using u v peek_snd [OF k] length_skip [of v] by (simp add: x b k)
  qed
qed

lemma parsepipe_ends:
  assumes p: "ends (self Exec s) (length s)" and l: "\<And>u. length u < length s \<Longrightarrow> ends (self Pipe u) (length u)"
  shows "ends (parsepipe self s) (length s)"
  unfolding parsepipe_def
proof (rule ends_bind, goal_cases)
  case (1 m)
  then show ?case using p by (auto simp: ends_def)
next
  case (2 x)
  obtain c v where x: "x = (c, v)" by fastforce
  then have v: "length v \<le> length s" using p 2 by (auto simp: ends_def)
  obtain y w where k: "peek v ''|'' = (y, w)" by fastforce
  obtain t q e r where g: "gettoken w = (t, q, e, r)" by (cases "gettoken w") auto
  show ?case
  proof (cases y)
    case True
    then have "length r < length v" using peek_gettoken_less [of v _ w] k g by auto
    then have r: "length r < length s" using v by simp
    have "ends (rbind (self Pipe r) (\<lambda>(d, s). Ret (PIPE c d, s))) (length s)"
      using l [OF r] r by (intro ends_bind) (auto simp: ends_def)
    then show ?thesis using True by (simp add: x k g)
  next
    case False
    then show ?thesis using v peek_snd [OF k] length_skip [of v] by (simp add: x k)
  qed
qed

lemma parseblock_ends:
  assumes l: "\<And>u. length u < length s \<Longrightarrow> ends (self Line u) (length u)"
  shows "ends (parseblock self s) (length s)"
proof (cases "peek s ''(''")
  case (Pair y w)
  obtain t q e r where g: "gettoken w = (t, q, e, r)" by (cases "gettoken w") auto
  show ?thesis
  proof (cases y)
    case True
    then have r: "length r < length s" using peek_gettoken_less [of s _ w] Pair g by auto
    have "ends (rbind (self Line r) (\<lambda>(c, s). case peek s '')'' of (False, s) \<Rightarrow> Panic ''syntax - missing )''
        | (True, s) \<Rightarrow> (case gettoken s of (_, _, _, s) \<Rightarrow>
            rbind (parseredirs s []) (\<lambda>(rs, s). Ret (foldl redircmd c rs, s))))) (length s)"
    proof (rule ends_bind, goal_cases)
      case (1 m)
      then show ?case using l [OF r] by (auto simp: ends_def)
    next
      case (2 x)
      obtain c v where x: "x = (c, v)" by fastforce
      then have v: "length v \<le> length r" using l [OF r] 2 by (auto simp: ends_def)
      obtain y' w' where k: "peek v '')'' = (y', w')" by fastforce
      obtain t' q' e' r' where g': "gettoken w' = (t', q', e', r')" by (cases "gettoken w'") auto
      have r': "length r' < length v" if y' using that peek_gettoken_less [of v _ w'] k g' by auto
      have "ends (rbind (parseredirs r' []) (\<lambda>(rs, s). Ret (foldl redircmd c rs, s))) (length s)" if y'
        using r' [OF that] v r parseredirs_length [of r' "[]"] parseredirs_not_blocked
        by (intro ends_bind) force+
      then show ?case by (simp add: x k g' split: bool.splits)
    qed
    then show ?thesis using True Pair g by (simp add: parseblock_def)
  next
    case False
    then show ?thesis using Pair by (simp add: parseblock_def)
  qed
qed

lemma parseexec_ends:
  assumes b: "ends (self Block (skip s)) (length s)"
  shows "ends (parseexec self s) (length s)"
proof -
  obtain y w where k: "peek s ''('' = (y, w)" by fastforce
  have w: "w = skip s" by (rule peek_snd [OF k])
  have "ends (rbind (parseredirs w []) (\<lambda>(rs, s). rbind (parseargs s [] rs) (\<lambda>(args, rs, s).
      Ret (foldl redircmd (EXEC args) rs, s)))) (length s)"
  proof (rule ends_bind, goal_cases)
    case (1 m)
    then show ?case using parseredirs_not_blocked by simp
  next
    case (2 x)
    obtain rs u where x: "x = (rs, u)" by fastforce
    have u: "length u \<le> length s" using parseredirs_length [of w "[]" rs u] 2 x w length_skip [of s] by simp
    show ?case unfolding x using u parseargs_length [of u "[]" rs] parseargs_not_blocked by (auto intro!: ends_bind)
  qed
  then show ?thesis using b k w by (cases y) (simp_all add: parseexec_def)
qed

primrec rank :: "nt \<Rightarrow> nat" where
  "rank Line = 4" | "rank Pipe = 3" | "rank Exec = 2" | "rank Block = 1"

lemma parse_ends: "4 * length s + rank x \<le> n \<Longrightarrow> ends (parse n x s) (length s)"
proof (induction n arbitrary: x s)
  case 0
  then show ?case by (cases x) auto
next
  case (Suc n)
  have IH: "ends (parse n y u) (length u)" if "4 * length u + rank y \<le> n" for y u by (rule Suc.IH [OF that])
  show ?case
  proof (cases x)
    case Line
    show ?thesis using Suc.prems Line by (simp, intro parseline_ends) (auto intro!: IH)
  next
    case Pipe
    show ?thesis using Suc.prems Pipe by (simp, intro parsepipe_ends) (auto intro!: IH)
  next
    case Exec
    have "ends (parse n Block (skip s)) (length (skip s))"
      using Suc.prems Exec length_skip [of s] by (intro IH) simp
    then show ?thesis using Exec length_skip [of s] by (simp, intro parseexec_ends) (rule ends_mono)
  next
    case Block
    show ?thesis using Suc.prems Block by (simp, intro parseblock_ends) (auto intro!: IH)
  qed
qed

section \<open>The words of a command\<close>

definition sfx :: "string \<Rightarrow> string \<Rightarrow> bool" where
  "sfx line s \<longleftrightarrow> (\<exists>u. line = u @ s)"

definition word_ok :: "string \<Rightarrow> word \<Rightarrow> bool" where
  "word_ok line w \<longleftrightarrow> (case w of (q, eq) \<Rightarrow>
     sfx line q \<and> q \<noteq> [] \<and> wordchar (hd q) \<and> eq = dropWhile wordchar q)"

lemma sfx_tl: "sfx line (c # s) \<Longrightarrow> sfx line s"
  unfolding sfx_def by (metis append.assoc append_Cons append_Nil)

lemma sfx_dropWhile: "sfx line s \<Longrightarrow> sfx line (dropWhile P s)"
  unfolding sfx_def by (metis append.assoc takeWhile_dropWhile_id)

lemma sfx_skip: "sfx line s \<Longrightarrow> sfx line (skip s)"
  by (simp add: skip_def sfx_dropWhile)

lemma sfx_peek: "sfx line s \<Longrightarrow> peek s toks = (b, u) \<Longrightarrow> sfx line u"
  using sfx_skip peek_snd by metis

lemma gettoken_ok:
  assumes s: "sfx line s" and g: "gettoken s = (t, q, e, s')"
  shows "sfx line s'" "t = CHR ''a'' \<Longrightarrow> word_ok line (q, e)"
proof -
  have "sfx line s' \<and> (t = CHR ''a'' \<longrightarrow> word_ok line (q, e))"
  proof (rule skip_cases [of s])
    assume "skip s = []"
    then show ?thesis using g gettoken_Nil [of s] sfx_skip [OF s] by auto
  next
    fix c u assume c: "skip s = c # u" "\<not> whitespace c"
    then have cu: "sfx line (c # u)" using sfx_skip [OF s] by simp
    note u = sfx_tl [OF cu]
    consider "c \<in> set ''|();&<''" | "c = CHR ''>''" | "wordchar c"
      using c(2) by (auto simp: wordchar_def symbol_def)
    then show ?thesis
    proof cases
      case 1
      then show ?thesis using g gettoken_sym [OF c(1)] sfx_skip [OF u] by auto
    next
      case 2
      have "sfx line (tl u)" if "u \<noteq> []" using that u sfx_tl by (cases u) auto
      then show ?thesis using 2 g gettoken_gt [of s u] c(1) sfx_skip [OF u] sfx_skip [of line "tl u"]
        by (auto split: if_splits)
    next
      case 3
      then show ?thesis using g gettoken_word [OF c(1)] cu sfx_skip [OF sfx_dropWhile [OF u]]
        by (auto simp: word_ok_def)
    qed
  qed
  then show "sfx line s'" "t = CHR ''a'' \<Longrightarrow> word_ok line (q, e)" by auto
qed

lemma parseredirs_ok:
  "parseredirs s rs = Ret (rs', s') \<Longrightarrow> sfx line s \<Longrightarrow> \<forall>r\<in>set rs. word_ok line (fst r) \<Longrightarrow>
   sfx line s' \<and> (\<forall>r\<in>set rs'. word_ok line (fst r))"
proof (induction s rs rule: parseredirs.induct)
  case (1 s rs)
  obtain b u where p: "peek s ''<>'' = (b, u)" by fastforce
  obtain t1 q1 e1 v where g: "gettoken u = (t1, q1, e1, v)" by (cases "gettoken u") auto
  obtain t2 q2 e2 r where h: "gettoken v = (t2, q2, e2, r)" by (cases "gettoken v") auto
  note u = sfx_peek [OF 1(3) p]
  note v = gettoken_ok(1) [OF u g]
  show ?case
  proof (cases b)
    case True
    then have b: "b = True" by simp
    have t2: "t2 = CHR ''a''" and r: "parseredirs r (rs @ [redir_of t1 (q2, e2)]) = Ret (rs', s')"
      using 1(2) b p g h by (simp_all add: parseredirs.simps [of s rs] split: if_splits)
    have "word_ok line (q2, e2)" by (rule gettoken_ok(2) [OF v h t2])
    then have rs: "\<forall>r\<in>set (rs @ [redir_of t1 (q2, e2)]). word_ok line (fst r)"
      using 1(4) by (auto simp: redir_of_def)
    have "\<not> t2 \<noteq> CHR ''a''" using t2 by simp
    from 1(1) [OF p [symmetric] b g [symmetric] refl refl h [symmetric] refl refl this r
        gettoken_ok(1) [OF v h] rs] show ?thesis .
  next
    case False
    then show ?thesis using 1(2,4) p u by (simp add: parseredirs.simps [of s rs])
  qed
qed

lemma parseargs_ok:
  "parseargs s args rs = Ret (args', rs', s') \<Longrightarrow> sfx line s \<Longrightarrow> \<forall>w\<in>set args. word_ok line w \<Longrightarrow>
   \<forall>r\<in>set rs. word_ok line (fst r) \<Longrightarrow>
   sfx line s' \<and> (\<forall>w\<in>set args'. word_ok line w) \<and> (\<forall>r\<in>set rs'. word_ok line (fst r))"
proof (induction s args rs rule: parseargs.induct)
  case (1 s args rs)
  obtain b u where p: "peek s ''|)&;'' = (b, u)" by fastforce
  obtain tok q eq v where g: "gettoken u = (tok, q, eq, v)" by (cases "gettoken u") auto
  note u = sfx_peek [OF 1(3) p]
  note v = gettoken_ok(1) [OF u g]
  show ?case
  proof (cases "b \<or> tok = NUL")
    case True
    then show ?thesis using 1(2,4,5) p g u v by (auto simp: parseargs.simps [of s args rs] split: bool.splits)
  next
    case False
    then obtain rs2 r where r: "parseredirs v rs = Ret (rs2, r)" "parseargs r (args @ [(q, eq)]) rs2 = Ret (args', rs', s')"
      and t: "tok = CHR ''a''" "\<not> length (args @ [(q, eq)]) \<ge> MAXARGS"
      using 1(2) p g by (auto simp: parseargs.simps [of s args rs] split: bool.splits if_splits)
    have w: "\<forall>w\<in>set (args @ [(q, eq)]). word_ok line w" using gettoken_ok(2) [OF u g t(1)] 1(4) by auto
    have b: "b = False" "\<not> tok \<noteq> CHR ''a''" "tok \<noteq> NUL" using False t by simp_all
    note rr = parseredirs_ok [OF r(1) v 1(5)]
    from 1(1) [OF p [symmetric] b(1) g [symmetric] refl refl b(3,2) t(2) r(1) refl r(2)] rr w show ?thesis by blast
  qed
qed

lemma backs_ok: "backs c s = (c', s') \<Longrightarrow> sfx line s \<Longrightarrow> sfx line s' \<and> set_cmd c' = set_cmd c"
proof (induction c s rule: backs.induct)
  case (1 c s)
  obtain b u where p: "peek s ''&'' = (b, u)" by fastforce
  obtain tok q eq v where g: "gettoken u = (tok, q, eq, v)" by (cases "gettoken u") auto
  note u = sfx_peek [OF 1(3) p]
  note v = gettoken_ok(1) [OF u g]
  show ?case
  proof (cases b)
    case True
    then have b: "b = True" by simp
    then have r: "backs (BACK c) v = (c', s')" using 1(2) p g by (simp add: backs.simps [of c s])
    from 1(1) [OF p [symmetric] b g [symmetric] refl refl r v] show ?thesis by simp
  next
    case False
    then show ?thesis using 1(2) p u by (auto simp: backs.simps [of c s])
  qed
qed

lemma set_redirs: "set_cmd (foldl redircmd c rs) = set_cmd c \<union> fst ` set rs"
  by (induction rs arbitrary: c) (auto simp: redircmd_def split: prod.splits)

definition words_ok :: "string \<Rightarrow> (word cmd \<times> string) res \<Rightarrow> bool" where
  "words_ok line r \<longleftrightarrow> (\<forall>c s. r = Ret (c, s) \<longrightarrow> sfx line s \<and> (\<forall>w\<in>set_cmd c. word_ok line w))"

lemma words_ok_simps [simp]:
  "words_ok line (Ret (c, s)) \<longleftrightarrow> sfx line s \<and> (\<forall>w\<in>set_cmd c. word_ok line w)" "words_ok line (Panic m)"
  "words_ok line (Blocked m)"
  by (auto simp: words_ok_def)

lemma words_ok_bind:
  assumes "words_ok line r" "\<And>c s. r = Ret (c, s) \<Longrightarrow> sfx line s \<Longrightarrow> \<forall>w\<in>set_cmd c. word_ok line w \<Longrightarrow> words_ok line (f (c, s))"
  shows "words_ok line (rbind r f)"
proof (cases r)
  case (Ret x)
  then show ?thesis using assms by (cases x) (auto simp: words_ok_def)
qed simp_all

lemma words_ok_two:
  assumes "words_ok line r" "\<forall>w\<in>set_cmd c. word_ok line w"
    "\<And>d. set_cmd (K d) = set_cmd c \<union> set_cmd d"
  shows "words_ok line (rbind r (\<lambda>(d, s). Ret (K d, s)))"
  by (rule words_ok_bind [OF assms(1)]) (use assms(2,3) in auto)

lemma parseline_ok:
  assumes W: "\<And>x u. sfx line u \<Longrightarrow> words_ok line (self x u)" and s: "sfx line s"
  shows "words_ok line (parseline self s)"
  unfolding parseline_def
proof (rule words_ok_bind [OF W [OF s]])
  fix c u assume u: "sfx line u" and c: "\<forall>w\<in>set_cmd c. word_ok line w"
  obtain c2 v where b: "backs c u = (c2, v)" by fastforce
  note v = backs_ok [OF b u]
  obtain y w where k: "peek v '';'' = (y, w)" by fastforce
  have w: "sfx line w" by (rule sfx_peek [OF _ k]) (use v in simp)
  obtain t q e r where g: "gettoken w = (t, q, e, r)" by (cases "gettoken w") auto
  have "words_ok line (rbind (self Line r) (\<lambda>(d, s). Ret (LIST c2 d, s)))"
    by (rule words_ok_two [OF W [OF gettoken_ok(1) [OF w g]]]) (use c v in auto)
  then show "words_ok line (case (c, u) of (c, s) \<Rightarrow> let (c, s) = backs c s in case peek s '';'' of
      (True, s) \<Rightarrow> (case gettoken s of (_, _, _, s) \<Rightarrow> rbind (self Line s) (\<lambda>(d, s). Ret (LIST c d, s)))
    | (False, s) \<Rightarrow> Ret (c, s))"
    using w c v by (cases y) (simp_all add: b k g)
qed

lemma parsepipe_ok:
  assumes W: "\<And>x u. sfx line u \<Longrightarrow> words_ok line (self x u)" and s: "sfx line s"
  shows "words_ok line (parsepipe self s)"
  unfolding parsepipe_def
proof (rule words_ok_bind [OF W [OF s]])
  fix c v assume v: "sfx line v" and c: "\<forall>w\<in>set_cmd c. word_ok line w"
  obtain y w where k: "peek v ''|'' = (y, w)" by fastforce
  note w = sfx_peek [OF v k]
  obtain t q e r where g: "gettoken w = (t, q, e, r)" by (cases "gettoken w") auto
  have "words_ok line (rbind (self Pipe r) (\<lambda>(d, s). Ret (PIPE c d, s)))"
    by (rule words_ok_two [OF W [OF gettoken_ok(1) [OF w g]]]) (use c in auto)
  then show "words_ok line (case (c, v) of (c, s) \<Rightarrow> case peek s ''|'' of
      (True, s) \<Rightarrow> (case gettoken s of (_, _, _, s) \<Rightarrow> rbind (self Pipe s) (\<lambda>(d, s). Ret (PIPE c d, s)))
    | (False, s) \<Rightarrow> Ret (c, s))"
    using w c by (cases y) (simp_all add: k g)
qed

lemma parseblock_ok:
  assumes W: "\<And>x u. sfx line u \<Longrightarrow> words_ok line (self x u)" and s: "sfx line s"
  shows "words_ok line (parseblock self s)"
proof -
  obtain y w where k: "peek s ''('' = (y, w)" by fastforce
  note w = sfx_peek [OF s k]
  obtain t q e r where g: "gettoken w = (t, q, e, r)" by (cases "gettoken w") auto
  have "words_ok line (rbind (self Line r) (\<lambda>(c, s). case peek s '')'' of (False, s) \<Rightarrow> Panic ''syntax - missing )''
      | (True, s) \<Rightarrow> (case gettoken s of (_, _, _, s) \<Rightarrow>
          rbind (parseredirs s []) (\<lambda>(rs, s). Ret (foldl redircmd c rs, s)))))"
  proof (rule words_ok_bind [OF W [OF gettoken_ok(1) [OF w g]]])
    fix c v assume v: "sfx line v" and c: "\<forall>w\<in>set_cmd c. word_ok line w"
    obtain y' w' where k': "peek v '')'' = (y', w')" by fastforce
    obtain t' q' e' r' where g': "gettoken w' = (t', q', e', r')" by (cases "gettoken w'") auto
    note r' = gettoken_ok(1) [OF sfx_peek [OF v k'] g']
    have "words_ok line (rbind (parseredirs r' []) (\<lambda>(rs, s). Ret (foldl redircmd c rs, s)))"
      using parseredirs_ok [of r' "[]" _ _ line] r' c
      by (cases "parseredirs r' []") (force simp: set_redirs)+
    then show "words_ok line (case (c, v) of (c, s) \<Rightarrow> case peek s '')'' of (False, s) \<Rightarrow> Panic ''syntax - missing )''
      | (True, s) \<Rightarrow> (case gettoken s of (_, _, _, s) \<Rightarrow>
          rbind (parseredirs s []) (\<lambda>(rs, s). Ret (foldl redircmd c rs, s))))"
      by (cases y') (simp_all add: k' g')
  qed
  then show ?thesis by (cases y) (simp_all add: parseblock_def k g)
qed

lemma parseexec_ok:
  assumes W: "\<And>x u. sfx line u \<Longrightarrow> words_ok line (self x u)" and s: "sfx line s"
  shows "words_ok line (parseexec self s)"
proof -
  obtain y w where k: "peek s ''('' = (y, w)" by fastforce
  note w = sfx_peek [OF s k]
  have "words_ok line (rbind (parseredirs w []) (\<lambda>(rs, s). rbind (parseargs s [] rs) (\<lambda>(args, rs, s).
      Ret (foldl redircmd (EXEC args) rs, s))))"
  proof (cases "parseredirs w []")
    case (Ret x)
    obtain rs u where x: "x = (rs, u)" by fastforce
    have u: "sfx line u" "\<forall>r\<in>set rs. word_ok line (fst r)"
      using parseredirs_ok [of w "[]" rs u line] Ret x w by auto
    show ?thesis
      using parseargs_ok [of u "[]" rs _ _ _ line] u
      by (cases "parseargs u [] rs") (force simp: Ret x set_redirs)+
  qed simp_all
  then show ?thesis using W [OF w] by (cases y) (simp_all add: parseexec_def k)
qed

lemma parse_ok: "sfx line s \<Longrightarrow> words_ok line (parse n x s)"
proof (induction n arbitrary: x s)
  case (Suc n)
  have W: "sfx line u \<Longrightarrow> words_ok line (parse n y u)" for y u by (rule Suc.IH)
  show ?case
    using parseline_ok [of line "parse n" s] parsepipe_ok [of line "parse n" s] parseblock_ok [of line "parse n" s]
      parseexec_ok [of line "parse n" s] W Suc.prems
    by (cases x) simp_all
qed simp

lemma length_end_words [simp]: "length (foldl (end_word n) b ws) = length b"
  by (induction ws arbitrary: b) (auto simp: end_word_def split: prod.splits)

lemma length_nulterminate [simp]: "length (nulterminate n b c) = length b"
  by (induction c arbitrary: b) (auto simp: end_word_def split: prod.splits)

lemma nth_end_word: "i < length b \<Longrightarrow> end_word n b w ! i = (if i = n - length (snd w) then NUL else b ! i)"
  by (cases w) (simp add: end_word_def nth_list_update)

lemma length_end_word [simp]: "length (end_word n b w) = length b"
  by (cases w) (simp add: end_word_def)

lemma nth_end_words:
  "i < length b \<Longrightarrow> foldl (end_word n) b ws ! i =
     (if i \<in> (\<lambda>w. n - length (snd w)) ` set ws then NUL else b ! i)"
  by (induction ws arbitrary: b) (simp_all add: nth_end_word)

lemma nth_nulterminate:
  "i < length b \<Longrightarrow> nulterminate n b c ! i =
     (if i \<in> (\<lambda>w. n - length (snd w)) ` set_cmd c then NUL else b ! i)"
  by (induction c arbitrary: b) (auto simp: nth_end_words nth_end_word)

text \<open>What a word means: its characters.\<close>

definition word_text :: "word \<Rightarrow> string" where
  "word_text w = (case w of (q, eq) \<Rightarrow> take (length q - length eq) q)"

lemma word_okD:
  assumes "word_ok line (q, eq)"
  shows "\<exists>u w. line = u @ w @ eq \<and> q = w @ eq \<and> w \<noteq> [] \<and> (\<forall>c\<in>set w. wordchar c) \<and> word_text (q, eq) = w \<and>
    (eq \<noteq> [] \<longrightarrow> \<not> wordchar (hd eq))"
proof -
  obtain u where u: "line = u @ q" and q: "q \<noteq> []" "wordchar (hd q)" "eq = dropWhile wordchar q"
    using assms by (auto simp: word_ok_def sfx_def)
  define w where "w = takeWhile wordchar q"
  have s: "q = w @ eq" using q by (simp add: w_def)
  have 1: "w \<noteq> []" using q by (cases q) (auto simp: w_def)
  have 2: "\<forall>c\<in>set w. wordchar c" by (auto simp: w_def dest: set_takeWhileD)
  have 3: "word_text (q, eq) = w" unfolding word_text_def s by simp
  have 4: "eq \<noteq> [] \<longrightarrow> \<not> wordchar (hd eq)" using q(3) hd_dropWhile [of wordchar q] by simp
  show ?thesis by (intro exI [of _ u] exI [of _ w] conjI) (use u s 1 2 3 4 in simp_all)
qed

text \<open>The end of a word is never inside another one.\<close>

lemma end_outside:
  assumes "word_ok line (q, eq)" "word_ok line (q', eq')" "line = u @ w @ eq" "q = w @ eq"
    "i < length w"
  shows "length line - length eq' \<noteq> length u + i"
proof
  assume e: "length line - length eq' = length u + i"
  obtain u0 w0 where 0: "line = u0 @ w0 @ eq" "q = w0 @ eq" "\<forall>c\<in>set w0. wordchar c" using word_okD [OF assms(1)] by blast
  have w: "\<forall>c\<in>set w. wordchar c" using 0 assms(4) by simp
  obtain u' w' where 1: "line = u' @ w' @ eq'" "eq' \<noteq> [] \<longrightarrow> \<not> wordchar (hd eq')" using word_okD [OF assms(2)] by blast
  have pos: "length u' + length w' = length u + i" using e 1 by simp
  have lt: "length u + i < length line" using assms(3,5) by simp
  then have ne: "eq' \<noteq> []" using 1 pos by (cases eq') auto
  have "line ! (length u + i) = hd eq'"
    using 1(1) pos ne by (metis append.assoc hd_conv_nth length_append nth_append_length_plus add.right_neutral)
  moreover have "line ! (length u + i) = w ! i"
    using assms(3,5) by (simp add: nth_append)
  ultimately show False using 1(2) ne w assms(5) by (metis nth_mem)
qed

lemma takeWhile_nul:
  assumes "\<And>i. i < length w \<Longrightarrow> b ! (k + i) = w ! i" "b ! (k + length w) = NUL" "k + length w < length b" "NUL \<notin> set w"
  shows "takeWhile (\<lambda>x. x \<noteq> NUL) (drop k b) = w"
proof -
  have "drop k b = w @ NUL # drop (Suc (k + length w)) b"
  proof (rule nth_equalityI)
    show "length (drop k b) = length (w @ NUL # drop (Suc (k + length w)) b)" using assms(3) by simp
  next
    fix i assume i: "i < length (drop k b)"
    consider "i < length w" | "i = length w" | "length w < i" by linarith
    then show "drop k b ! i = (w @ NUL # drop (Suc (k + length w)) b) ! i"
    proof cases
      case 3
      then obtain j where "i = Suc (length w + j)" using less_iff_Suc_add by auto
      then show ?thesis using i by (simp add: nth_append add.assoc)
    qed (use i assms in \<open>simp_all add: nth_append\<close>)
  qed
  then show ?thesis using assms(4) by (simp add: takeWhile_append)
qed

section \<open>Printing commands\<close>

text \<open>A command written so that the parser reads it: every part of a compound command in parentheses.\<close>

definition redir_op :: "nat \<Rightarrow> nat \<Rightarrow> string" where
  "redir_op mode fd = (if fd = 0 then ''<'' else if mode = O_WRONLY + O_CREATE then ''>>'' else ''>'')"

primrec show_cmd :: "string cmd \<Rightarrow> string" where
  "show_cmd (EXEC ws) = concat (map (\<lambda>w. w @ '' '') ws)"
| "show_cmd (REDIR c f mode fd) = ''('' @ show_cmd c @ '')'' @ redir_op mode fd @ f @ '' ''"
| "show_cmd (PIPE c d) = ''('' @ show_cmd c @ '')|('' @ show_cmd d @ '')''"
| "show_cmd (LIST c d) = ''('' @ show_cmd c @ '');('' @ show_cmd d @ '')''"
| "show_cmd (BACK c) = ''('' @ show_cmd c @ '')&''"

definition good_word :: "string \<Rightarrow> bool" where
  "good_word w \<longleftrightarrow> w \<noteq> [] \<and> (\<forall>c\<in>set w. wordchar c)"

primrec good :: "string cmd \<Rightarrow> bool" where
  "good (EXEC ws) \<longleftrightarrow> length ws < MAXARGS \<and> (\<forall>w\<in>set ws. good_word w)"
| "good (REDIR c f mode fd) \<longleftrightarrow> good c \<and> good_word f \<and>
     (mode, fd) \<in> {(O_RDONLY, 0), (O_WRONLY + O_CREATE + O_TRUNC, 1), (O_WRONLY + O_CREATE, 1)}"
| "good (PIPE c d) \<longleftrightarrow> good c \<and> good d"
| "good (LIST c d) \<longleftrightarrow> good c \<and> good d"
| "good (BACK c) \<longleftrightarrow> good c"

text \<open>What can follow a command: the end of the line or a closing parenthesis.\<close>

definition closed :: "string \<Rightarrow> bool" where
  "closed r \<longleftrightarrow> r = [] \<or> hd r = CHR '')''"

lemma skip_Cons: "\<not> whitespace c \<Longrightarrow> skip (c # s) = c # s"
  by (simp add: skip_def)

lemma sym_facts [simp]:
  "\<not> whitespace (CHR ''('')" "\<not> whitespace (CHR '')'')" "\<not> whitespace (CHR ''|'')" "\<not> whitespace (CHR '';'')"
  "\<not> whitespace (CHR ''&'')" "\<not> whitespace (CHR ''<'')" "\<not> whitespace (CHR ''>'')" "whitespace (CHR '' '')"
  "\<not> wordchar (CHR ''('')" "\<not> wordchar (CHR '')'')" "\<not> wordchar (CHR ''|'')" "\<not> wordchar (CHR '';'')"
  "\<not> wordchar (CHR ''&'')" "\<not> wordchar (CHR ''<'')" "\<not> wordchar (CHR ''>'')" "\<not> wordchar (CHR '' '')"
  by (simp_all add: whitespace_def wordchar_def symbol_def)

lemma wordchar_not_sym:
  "wordchar c \<Longrightarrow> \<not> whitespace c \<and> c \<notin> set ''<|>&;()''"
  by (simp add: wordchar_def symbol_def)

lemma peek_Cons: "\<not> whitespace c \<Longrightarrow> peek (c # s) toks = (c \<in> set toks, c # s)"
  by (simp add: peek_def skip_Cons)

lemma peek_Nil: "peek [] toks = (False, [])"
  by (simp add: peek_def skip_def)

lemma peek_closed: "closed r \<Longrightarrow> CHR '')'' \<notin> set toks \<Longrightarrow> peek r toks = (False, r)"
  by (cases r) (auto simp: closed_def peek_Nil peek_Cons)

lemma gettoken_sym_Cons: "c \<in> set ''|();&<'' \<Longrightarrow> gettoken (c # s) = (c, c # s, s, skip s)"
  by (rule gettoken_sym) (auto simp: skip_Cons)

text \<open>A word that is followed by a blank.\<close>

lemma gettoken_good:
  assumes "good_word w"
  shows "gettoken (w @ CHR '' '' # s) = (CHR ''a'', w @ CHR '' '' # s, CHR '' '' # s, skip s)"
    "peek (w @ CHR '' '' # s) toks = (hd w \<in> set toks, w @ CHR '' '' # s)"
    "word_text (w @ CHR '' '' # s, CHR '' '' # s) = w"
proof -
  obtain c v where w: "w = c # v" "wordchar c" "\<forall>x\<in>set v. wordchar x" using assms by (cases w) (auto simp: good_word_def)
  have nw: "\<not> whitespace c" using w(2) wordchar_not_sym by blast
  have "dropWhile wordchar (v @ CHR '' '' # s) = CHR '' '' # s" using w(3) by (simp add: dropWhile_append)
  then show "gettoken (w @ CHR '' '' # s) = (CHR ''a'', w @ CHR '' '' # s, CHR '' '' # s, skip s)"
    using gettoken_word [of "w @ CHR '' '' # s" c "v @ CHR '' '' # s"] w(1,2) nw by (simp add: skip_Cons) (simp add: skip_def)
  show "peek (w @ CHR '' '' # s) toks = (hd w \<in> set toks, w @ CHR '' '' # s)" using w(1) nw by (simp add: peek_Cons)
  show "word_text (w @ CHR '' '' # s, CHR '' '' # s) = w" by (simp add: word_text_def)
qed

lemma parseredirs_none: "\<not> fst (peek s ''<>'') \<Longrightarrow> parseredirs s rs = Ret (rs, skip s)"
  by (subst parseredirs.simps) (auto simp: peek_def Let_def split: prod.splits bool.splits)

lemma parseargs_words:
  assumes "\<forall>w\<in>set ws. good_word w" "length args + length ws < MAXARGS" "closed r"
  shows "\<exists>args'. parseargs (concat (map (\<lambda>w. w @ '' '') ws) @ r) args rs = Ret (args', rs, r) \<and>
    map word_text args' = map word_text args @ ws"
  using assms
proof (induction ws arbitrary: args)
  case Nil
  have "parseargs r args rs = Ret (args, rs, r)"
  proof (cases r)
    case Nil
    then show ?thesis by (subst parseargs.simps) (simp add: peek_Nil gettoken_Nil skip_def)
  next
    case (Cons c r')
    then show ?thesis using Nil(3) by (subst parseargs.simps) (auto simp: closed_def peek_Cons)
  qed
  then show ?case by simp
next
  case (Cons w ws)
  let ?s = "concat (map (\<lambda>w. w @ '' '') ws) @ r"
  have w: "good_word w" using Cons.prems by simp
  then have hw: "hd w \<notin> set ''|)&;''" "hd w \<notin> set ''<>''"
    using wordchar_not_sym [of "hd w"] by (auto simp: good_word_def)
  have sk: "skip ?s = ?s \<and> \<not> fst (peek ?s ''<>'')"
  proof (cases ws)
    case Nil
    then show ?thesis using Cons.prems(3) by (cases r) (auto simp: closed_def skip_Cons peek_Cons skip_def peek_def)
  next
    case (Cons v vs)
    then have v: "good_word v" using Cons.prems by simp
    then obtain c v' where "v = c # v'" "wordchar c" by (cases v) (auto simp: good_word_def)
    then show ?thesis using Cons wordchar_not_sym [of c] by (simp add: skip_Cons peek_Cons)
  qed
  let ?a = "args @ [(w @ CHR '' '' # ?s, CHR '' '' # ?s)]"
  have "parseargs (w @ CHR '' '' # ?s) args rs = parseargs ?s ?a rs"
    using Cons.prems(2) hw parseredirs_none [of ?s rs] sk
    by (subst parseargs.simps) (simp add: gettoken_good [OF w])
  moreover obtain args' where "parseargs ?s ?a rs = Ret (args', rs, r)" "map word_text args' = map word_text ?a @ ws"
    using Cons.IH [of ?a] Cons.prems by auto
  ultimately show ?case using gettoken_good(3) [OF w] by simp
qed

abbreviation paren :: "string cmd \<Rightarrow> string \<Rightarrow> string" where
  "paren c s \<equiv> CHR ''('' # show_cmd c @ CHR '')'' # s"

lemma skip_show: "good c \<Longrightarrow> closed r \<Longrightarrow> skip (show_cmd c @ r) = show_cmd c @ r"
proof (cases c)
  case (EXEC ws)
  assume "good c" "closed r"
  then show ?thesis
  proof (cases ws)
    case Nil
    then show ?thesis using EXEC \<open>closed r\<close> by (cases r) (auto simp: closed_def skip_Cons skip_def)
  next
    case (Cons w vs)
    then have "good_word w" using EXEC \<open>good c\<close> by simp
    then obtain x v where "w = x # v" "wordchar x" by (cases w) (auto simp: good_word_def)
    then show ?thesis using EXEC Cons wordchar_not_sym [of x] by (simp add: skip_Cons)
  qed
qed (simp_all add: skip_Cons)

text \<open>The parser reads back the command \<open>c\<close>.\<close>

definition reads :: "string cmd \<Rightarrow> bool" where
  "reads c \<longleftrightarrow> (\<forall>r n. closed r \<longrightarrow> 4 * length (show_cmd c @ r) + 4 \<le> n \<longrightarrow>
     (\<exists>c'. parse n Line (show_cmd c @ r) = Ret (c', r) \<and> map_cmd word_text c' = c))"

lemma exec_paren:
  assumes c: "reads c" "good c" and n: "4 * length (paren c s) + 2 \<le> n"
    and r: "parseredirs (skip s) [] = Ret (rs, s')"
  shows "\<exists>c'. parse n Exec (paren c s) = Ret (foldl redircmd c' rs, s') \<and> map_cmd word_text c' = c"
proof -
  obtain m where m: "n = Suc (Suc m)" "4 * length (show_cmd c @ CHR '')'' # s) + 4 \<le> m"
    using n by (cases n; cases "n - 1") auto
  have cl: "closed (CHR '')'' # s)" by (simp add: closed_def)
  obtain c' where c': "parse m Line (show_cmd c @ CHR '')'' # s) = Ret (c', CHR '')'' # s)" "map_cmd word_text c' = c"
    using c(1) cl m(2) unfolding reads_def by blast
  have "parseblock (parse m) (paren c s) = Ret (foldl redircmd c' rs, s')"
    using c' r by (simp add: parseblock_def peek_Cons gettoken_sym_Cons skip_show [OF c(2) cl])
  then have "parse n Exec (paren c s) = Ret (foldl redircmd c' rs, s')"
    by (simp add: m(1) parseexec_def peek_Cons)
  then show ?thesis using c'(2) by blast
qed

lemma pipe_of_exec:
  assumes "parse n Exec s = Ret (c, r)" "peek r ''|'' = (False, r)"
  shows "parse (Suc n) Pipe s = Ret (c, r)"
  using assms by (simp add: parsepipe_def)

lemma line_of_pipe:
  assumes "parse n Pipe s = Ret (c, r)" "peek r ''&'' = (False, r)" "peek r '';'' = (False, r)"
  shows "parse (Suc n) Line s = Ret (c, r)"
  using assms by (simp add: parseline_def backs.simps)

lemma pipe_paren:
  assumes c: "reads c" "good c" and n: "4 * length (paren c s) + 3 \<le> n"
    and s: "s = [] \<or> hd s \<in> set '')&;''"
  shows "\<exists>c'. parse n Pipe (paren c s) = Ret (c', s) \<and> map_cmd word_text c' = c"
proof -
  have p: "\<not> fst (peek s ''<>'')" "skip s = s" "peek s ''|'' = (False, s)"
    using s by (cases s; auto simp: peek_Cons peek_Nil skip_Cons skip_def)+
  obtain m where m: "n = Suc m" "4 * length (paren c s) + 2 \<le> m" using n by (cases n) auto
  have "parseredirs (skip s) [] = Ret ([], s)" using parseredirs_none [of s "[]"] p by simp
  from exec_paren [OF c m(2) this] pipe_of_exec [of m "paren c s" _ s] p(3) m(1) show ?thesis by auto
qed

lemma line_paren:
  assumes c: "reads c" "good c" and n: "4 * length (paren c r) + 4 \<le> n" and r: "closed r"
  shows "\<exists>c'. parse n Line (paren c r) = Ret (c', r) \<and> map_cmd word_text c' = c"
proof -
  obtain m where m: "n = Suc m" "4 * length (paren c r) + 3 \<le> m" using n by (cases n) auto
  have "r = [] \<or> hd r \<in> set '')&;''" using r by (auto simp: closed_def)
  from pipe_paren [OF c m(2) this] obtain c' where "parse m Pipe (paren c r) = Ret (c', r)" "map_cmd word_text c' = c" by blast
  then show ?thesis using line_of_pipe [of m "paren c r" c' r] peek_closed [OF r] m(1) by auto
qed

lemma reads_EXEC:
  assumes g: "good (EXEC ws)"
  shows "reads (EXEC ws)"
  unfolding reads_def
proof (intro allI impI)
  fix r n assume r: "closed r" and n: "4 * length (show_cmd (EXEC ws) @ r) + 4 \<le> n"
  let ?s = "show_cmd (EXEC ws) @ r"
  obtain m where m: "n = Suc (Suc (Suc m))" using n by (cases n; cases "n - 1"; cases "n - 2") auto
  have sk: "skip ?s = ?s" by (rule skip_show [OF g r])
  have h: "?s = [] \<or> wordchar (hd ?s) \<or> hd ?s = CHR '')''"
    using g r by (cases ws) (auto simp: closed_def good_word_def hd_append neq_Nil_conv)
  then have "?s = [] \<or> hd ?s \<notin> set ''('' \<and> hd ?s \<notin> set ''<>''" using wordchar_not_sym [of "hd ?s"] by auto
  then have p: "peek ?s ''('' = (False, ?s)" "\<not> fst (peek ?s ''<>'')" using sk by (auto simp: peek_def Let_def)
  obtain args where a: "parseargs ?s [] [] = Ret (args, [], r)" "map word_text args = ws"
    using parseargs_words [of ws "[]" r "[]"] g r by auto
  have "parse (Suc m) Exec ?s = Ret (EXEC args, r)"
    using p a(1) sk parseredirs_none [OF p(2), of "[]"] by (simp add: parseexec_def del: show_cmd.simps)
  from line_of_pipe [OF pipe_of_exec [OF this]] peek_closed [OF r] a(2) m
  show "\<exists>c'. parse n Line ?s = Ret (c', r) \<and> map_cmd word_text c' = EXEC ws" by auto
qed

lemma parseredirs_one:
  assumes f: "good_word f" and r: "closed r" and m: "(mode, fd) \<in> {(O_RDONLY, 0), (O_WRONLY + O_CREATE + O_TRUNC, 1), (O_WRONLY + O_CREATE, 1)}"
    and s: "s = redir_op mode fd @ f @ '' '' @ r"
  shows "parseredirs (skip s) [] = Ret ([((f @ CHR '' '' # r, CHR '' '' # r), mode, fd)], r)"
proof -
  obtain x v where x: "f = x # v" "wordchar x" using f by (cases f) (auto simp: good_word_def)
  note nx = wordchar_not_sym [OF x(2)]
  have sk: "skip (f @ CHR '' '' # r) = f @ CHR '' '' # r" using x nx by (simp add: skip_Cons)
  have sr: "skip r = r" "\<not> fst (peek r ''<>'')"
    using r by (cases r; auto simp: closed_def skip_Cons skip_def peek_Nil peek_Cons)+
  define tok where "tok = (if fd = 0 then CHR ''<'' else if mode = O_WRONLY + O_CREATE then CHR ''+'' else CHR ''>'')"
  have g: "skip s = s" "peek s ''<>'' = (True, s)" "\<exists>q e. gettoken s = (tok, q, e, f @ CHR '' '' # r)"
    "redir_of tok (f @ CHR '' '' # r, CHR '' '' # r) = ((f @ CHR '' '' # r, CHR '' '' # r), mode, fd)"
    using m sk nx x(1) unfolding s tok_def
    by (auto simp: redir_op_def redir_of_def skip_Cons peek_Cons gettoken_sym_Cons gettoken_gt)
  then obtain q e where q: "gettoken s = (tok, q, e, f @ CHR '' '' # r)" by blast
  have "parseredirs s [] = parseredirs r [((f @ CHR '' '' # r, CHR '' '' # r), mode, fd)]"
    using g q sr by (subst parseredirs.simps) (simp add: gettoken_good(1) [OF f])
  then show ?thesis using g(1) parseredirs_none [OF sr(2)] sr(1) by simp
qed

lemma reads_REDIR:
  assumes c: "reads c" and g: "good (REDIR c f mode fd)"
  shows "reads (REDIR c f mode fd)"
  unfolding reads_def
proof (intro allI impI)
  fix r n assume r: "closed r" and n: "4 * length (show_cmd (REDIR c f mode fd) @ r) + 4 \<le> n"
  define s where "s = redir_op mode fd @ f @ '' '' @ r"
  have eq: "show_cmd (REDIR c f mode fd) @ r = paren c s" by (simp add: s_def)
  have "4 * length (paren c s) + 4 \<le> n" using n eq by metis
  then obtain m where m: "n = Suc (Suc m)" "4 * length (paren c s) + 2 \<le> m"
    by (cases n; cases "n - 1") auto
  have "good c" "good_word f" using g by simp_all
  from exec_paren [OF c this(1) m(2) parseredirs_one [OF this(2) r _ s_def]] g obtain c' where
    c': "parse m Exec (paren c s) = Ret (REDIR c' (f @ CHR '' '' # r, CHR '' '' # r) mode fd, r)" "map_cmd word_text c' = c"
    by (auto simp: redircmd_def)
  from line_of_pipe [OF pipe_of_exec [OF c'(1)]] peek_closed [OF r] c'(2) m(1)
  show "\<exists>c'. parse n Line (show_cmd (REDIR c f mode fd) @ r) = Ret (c', r) \<and> map_cmd word_text c' = REDIR c f mode fd"
    unfolding eq by (auto simp: word_text_def)
qed

lemma reads_PIPE:
  assumes c: "reads c" "good c" and d: "reads d" "good d"
  shows "reads (PIPE c d)"
  unfolding reads_def
proof (intro allI impI)
  fix r n assume r: "closed r" and n: "4 * length (show_cmd (PIPE c d) @ r) + 4 \<le> n"
  define s where "s = CHR ''|'' # paren d r"
  have eq: "show_cmd (PIPE c d) @ r = paren c s" by (simp add: s_def)
  have "4 * length (paren c s) + 4 \<le> n" using n eq by metis
  then obtain m where m: "n = Suc (Suc m)" "4 * length (paren c s) + 2 \<le> m" "4 * length (paren d r) + 3 \<le> m"
    by (cases n; cases "n - 1") (auto simp: s_def)
  have "parseredirs (skip s) [] = Ret ([], s)"
    using parseredirs_none [of s "[]"] by (simp add: s_def peek_Cons skip_Cons)
  from exec_paren [OF c m(2) this] obtain c' where c': "parse m Exec (paren c s) = Ret (c', s)" "map_cmd word_text c' = c"
    by auto
  have "r = [] \<or> hd r \<in> set '')&;''" using r by (auto simp: closed_def)
  from pipe_paren [OF d m(3) this] obtain d' where d': "parse m Pipe (paren d r) = Ret (d', r)" "map_cmd word_text d' = d"
    by blast
  have "parse (Suc m) Pipe (paren c s) = Ret (PIPE c' d', r)"
    using c'(1) d'(1) by (simp add: parsepipe_def s_def peek_Cons gettoken_sym_Cons skip_Cons)
  from line_of_pipe [OF this] peek_closed [OF r] c'(2) d'(2) m(1)
  show "\<exists>c'. parse n Line (show_cmd (PIPE c d) @ r) = Ret (c', r) \<and> map_cmd word_text c' = PIPE c d"
    unfolding eq by auto
qed

lemma reads_LIST:
  assumes c: "reads c" "good c" and d: "reads d" "good d"
  shows "reads (LIST c d)"
  unfolding reads_def
proof (intro allI impI)
  fix r n assume r: "closed r" and n: "4 * length (show_cmd (LIST c d) @ r) + 4 \<le> n"
  define s where "s = CHR '';'' # paren d r"
  have eq: "show_cmd (LIST c d) @ r = paren c s" by (simp add: s_def)
  have "4 * length (paren c s) + 4 \<le> n" using n eq by metis
  then obtain m where m: "n = Suc m" "4 * length (paren c s) + 3 \<le> m" "4 * length (paren d r) + 4 \<le> m"
    by (cases n) (auto simp: s_def)
  from pipe_paren [OF c m(2)] obtain c' where c': "parse m Pipe (paren c s) = Ret (c', s)" "map_cmd word_text c' = c"
    by (auto simp: s_def)
  from line_paren [OF d m(3) r] obtain d' where d': "parse m Line (paren d r) = Ret (d', r)" "map_cmd word_text d' = d"
    by blast
  have "parse n Line (paren c s) = Ret (LIST c' d', r)"
    using c'(1) d'(1) by (simp add: m(1) parseline_def backs.simps s_def peek_Cons gettoken_sym_Cons skip_Cons)
  then show "\<exists>c'. parse n Line (show_cmd (LIST c d) @ r) = Ret (c', r) \<and> map_cmd word_text c' = LIST c d"
    unfolding eq using c'(2) d'(2) by auto
qed

lemma reads_BACK:
  assumes c: "reads c" "good c"
  shows "reads (BACK c)"
  unfolding reads_def
proof (intro allI impI)
  fix r n assume r: "closed r" and n: "4 * length (show_cmd (BACK c) @ r) + 4 \<le> n"
  define s where "s = CHR ''&'' # r"
  have eq: "show_cmd (BACK c) @ r = paren c s" by (simp add: s_def)
  have "4 * length (paren c s) + 4 \<le> n" using n eq by metis
  then obtain m where m: "n = Suc m" "4 * length (paren c s) + 3 \<le> m" by (cases n) auto
  from pipe_paren [OF c m(2)] obtain c' where c': "parse m Pipe (paren c s) = Ret (c', s)" "map_cmd word_text c' = c"
    by (auto simp: s_def)
  have sr: "skip r = r" using r by (cases r) (auto simp: closed_def skip_Cons skip_def)
  have "backs (BACK c') r = (BACK c', r)" by (subst backs.simps) (simp add: peek_closed [OF r])
  then have b: "backs c' s = (BACK c', r)"
    unfolding s_def by (subst backs.simps) (simp add: peek_Cons gettoken_sym_Cons sr)
  have "parse n Line (paren c s) = Ret (BACK c', r)"
    using c'(1) b peek_closed [OF r] by (simp add: m(1) parseline_def)
  then show "\<exists>c'. parse n Line (show_cmd (BACK c) @ r) = Ret (c', r) \<and> map_cmd word_text c' = BACK c"
    unfolding eq using c'(2) by auto
qed

lemma reads_all: "good c \<Longrightarrow> reads c"
proof (induction c)
  case (EXEC ws)
  then show ?case by (rule reads_EXEC)
next
  case (REDIR c f mode fd)
  then show ?case by (intro reads_REDIR) simp_all
qed (auto intro: reads_PIPE reads_LIST reads_BACK)

section \<open>Properties\<close>

text \<open>C32: the parser ends on every command line: it returns a command or reports an error, and never
  exceeds the depth of calls it is given.\<close>

theorem parsecmd_ends: "parsecmd s \<noteq> Blocked m"
proof -
  have "ends (parse (4 * length s + 4) Line s) (length s)" by (rule parse_ends) simp
  then show ?thesis by (auto simp: parsecmd_def ends_def split: rbind_split if_splits)
qed

text \<open>C31: \<^verbatim>\<open>nulterminate\<close> ends exactly the words.  After a line has been parsed, the string that
  starts at a word of the command is that word: the zeroes that end the words, written over the
  line itself, damage none of them.\<close>

theorem words_terminated:
  assumes "NUL \<notin> set line" "parsecmd line = Ret (c, b)" "(q, eq) \<in> set_cmd c"
  shows "drop (length line - length q) line = q \<and> word_text (q, eq) \<noteq> [] \<and>
    takeWhile (\<lambda>x. x \<noteq> NUL) (drop (length line - length q) b) = word_text (q, eq)"
proof -
  obtain r where r: "parse (4 * length line + 4) Line line = Ret (c, r)"
    and b: "b = nulterminate (length line) (line @ [NUL]) c"
    using assms(2) by (auto simp: parsecmd_def split: if_splits)
  have "sfx line line" by (simp add: sfx_def)
  then have ok: "\<forall>w\<in>set_cmd c. word_ok line w"
    using parse_ok [of line line "4 * length line + 4" Line] r by (simp add: words_ok_def)
  then have w0: "word_ok line (q, eq)" using assms(3) by blast
  obtain u w where u: "line = u @ w @ eq" "q = w @ eq" "w \<noteq> []" "word_text (q, eq) = w"
    using word_okD [OF w0] by blast
  have k: "length line - length q = length u" using u by simp
  have out: "length u + i \<notin> (\<lambda>w. length line - length (snd w)) ` set_cmd c" if "i < length w" for i
    using end_outside [OF w0 _ u(1,2) that] ok by force
  have "takeWhile (\<lambda>x. x \<noteq> NUL) (drop (length u) b) = w"
  proof (rule takeWhile_nul)
    show "b ! (length u + i) = w ! i" if "i < length w" for i
      using out [OF that] that u(1) by (simp add: b nth_nulterminate nth_append)
    have "length u + length w = length line - length (snd (q, eq))" using u by simp
    then have "length u + length w \<in> (\<lambda>w. length line - length (snd w)) ` set_cmd c" using assms(3) by blast
    then show "b ! (length u + length w) = NUL" using u(1) by (simp add: b nth_nulterminate)
    show "length u + length w < length b" using u(1) by (simp add: b)
    show "NUL \<notin> set w" using assms(1) u(1) by simp
  qed
  moreover have "drop (length u) line = q" using u by simp
  ultimately show ?thesis using u(3,4) k by simp
qed

text \<open>C30: printing and parsing are inverse.  Every command with at most nine arguments per program, whose
  words contain no blanks and no symbols, is read back from its printed form.\<close>

theorem parse_show:
  assumes "good c"
  shows "\<exists>c' b. parsecmd (show_cmd c) = Ret (c', b) \<and> map_cmd word_text c' = c"
proof -
  have "closed []" by (simp add: closed_def)
  moreover have "4 * length (show_cmd c @ []) + 4 \<le> 4 * length (show_cmd c) + 4" by simp
  ultimately obtain c' where "parse (4 * length (show_cmd c) + 4) Line (show_cmd c @ []) = Ret (c', [])"
    "map_cmd word_text c' = c"
    using reads_all [OF assms] unfolding reads_def by blast
  then show ?thesis by (simp add: parsecmd_def peek_Nil)
qed

definition demo_cmd :: "string cmd" where
  "demo_cmd = LIST (PIPE (EXEC [''cat'', ''README'']) (REDIR (EXEC [''grep'', ''xv6'']) ''out'' 0x601 1)) (BACK (EXEC [''ls'']))"

lemma demo_good: "good demo_cmd"
  by (simp add: demo_cmd_def good_word_def wordchar_def whitespace_def symbol_def)

theorem parse_show_witness:
  "\<exists>c' b. parsecmd (show_cmd demo_cmd) = Ret (c', b) \<and> map_cmd word_text c' = demo_cmd"
  by (rule parse_show [OF demo_good])

text \<open>The line \<^verbatim>\<open>echo a>b\<close>, in which a redirection follows a word without a blank.\<close>

lemma demo_parse:
  "parsecmd ''echo a>b'' = Ret (REDIR (EXEC [(''echo a>b'', '' a>b''), (''a>b'', ''>b'')]) (''b'', []) 0x601 1,
     [CHR ''e'', CHR ''c'', CHR ''h'', CHR ''o'', NUL, CHR ''a'', NUL, CHR ''b'', NUL])"
  by code_simp

theorem words_terminated_witness:
  "\<exists>c b. parsecmd ''echo a>b'' = Ret (c, b) \<and> takeWhile (\<lambda>x. x \<noteq> NUL) (drop 5 b) = ''a''"
  using words_terminated [OF _ demo_parse, of "''a>b''" "''>b''"] demo_parse by (simp add: word_text_def)

end
