(* ===== verification/Spec2Isabelle.thy ===== *)
theory Spec2Isabelle
  imports Fault Crash Trap Spinlock Ulib Shell
begin

text \<open>
  A verification development of the xv6 kernel with demand paging (\<^verbatim>\<open>src/xv6\<close>).

  \<^bold>\<open>The program.\<close>  xv6 is a small Unix for RISC-V.  This version loads the segments of an
  executable lazily, keeps at most eight pages of a process resident, chooses victims by FIFO or
  second chance, writes dirty victims to a swap file of the process and reports the state of
  paging through the system call \<^verbatim>\<open>memstat\<close>.  The kernel consists of a page allocator, page
  tables, the paging code, processes, a file system with a write-ahead log over a buffer cache,
  files, pipes and a console, system calls, traps and a disk driver.

  \<^bold>\<open>State and results.\<close>  The theory \<open>State\<close> declares the kernel's data as a chain of record
  extensions: \<open>kmem\<close> (byte-addressed memory and the free list), \<open>mach\<close> (processes), \<open>blk\<close>
  (disk, buffer cache, log), \<open>fsys\<close> (inodes) and \<open>kernel\<close> (files, pipes, console, devices).  An
  operation of one layer is polymorphic in the layers above.  A call returns a \<open>res\<close>
  (theory \<open>Prelude\<close>): \<open>Ret\<close> with the result and the new state, \<open>Panic\<close> where the C code calls
  \<^verbatim>\<open>panic\<close> or would dereference a null pointer, \<open>Blocked\<close> where it would sleep.  Code that can
  be continued after sleeping (console, pipes) returns an \<open>outcome\<close> that says where it stopped.
  Pointers into static tables are indices, \<open>None\<close> for the null pointer; pages, page tables, the
  free list and trap frames live in byte memory.  Unsigned integers are words of their width, so
  they wrap as in C.  Every call of \<^verbatim>\<open>printf\<close> is recorded in the field \<open>klog\<close>, every block
  written to the disk in \<open>dwrites\<close>.

  \<^bold>\<open>Theories, in the order of the code they model.\<close>

    \<^item> \<open>Riscv\<close>: page and page-table arithmetic (\<^verbatim>\<open>riscv.h\<close>, \<^verbatim>\<open>memlayout.h\<close>);
      \<open>Cstring\<close>: \<^verbatim>\<open>string.c\<close>; \<open>Printf\<close>: \<^verbatim>\<open>kernel/printf.c\<close> and \<^verbatim>\<open>user/printf.c\<close>.
    \<^item> \<open>Kalloc\<close>: \<^verbatim>\<open>kalloc.c\<close>, with the interface \<open>page_allocator\<close> of an allocator.
    \<^item> \<open>Vm\<close>, \<open>Uvm\<close>: the page tables of \<^verbatim>\<open>vm.c\<close>, as trees in memory.
    \<^item> \<open>Paging\<close>: \<^verbatim>\<open>vmfault\<close>, resident set, replacement, swap slots and swap file;
      \<open>Resident\<close>: the resident set as a queue and the two policies as instances of
      \<open>victim_policy\<close>; \<open>Aspace\<close>, \<open>Evict\<close>, \<open>Fault\<close>: the address-space invariant and that
      eviction and faults keep it; \<open>Usermem\<close>: \<^verbatim>\<open>copyin\<close>, \<^verbatim>\<open>copyout\<close>, \<^verbatim>\<open>copyinstr\<close>.
    \<^item> \<open>Sleeplock\<close>: \<^verbatim>\<open>sleeplock.c\<close>, \<^verbatim>\<open>wakeup\<close>, \<^verbatim>\<open>kkill\<close>; \<open>Bio\<close>: \<^verbatim>\<open>bio.c\<close>;
      \<open>Blockdata\<close>: fields of a block; \<open>Log\<close>: \<^verbatim>\<open>log.c\<close>; \<open>Fs\<close>, \<open>Dir\<close>: \<^verbatim>\<open>fs.c\<close> and
      \<^verbatim>\<open>create\<close>; \<open>Frame\<close>: what the file system leaves alone.
    \<^item> \<open>Console\<close>: \<^verbatim>\<open>console.c\<close>, \<^verbatim>\<open>uart.c\<close>; \<open>File\<close>: \<^verbatim>\<open>file.c\<close>, \<^verbatim>\<open>pipe.c\<close>;
      \<open>Virtio\<close>: \<^verbatim>\<open>virtio_disk.c\<close>.
    \<^item> \<open>Proc\<close>: \<^verbatim>\<open>proc.c\<close>; \<open>Exec\<close>: \<^verbatim>\<open>exec.c\<close>; \<open>Sysfile\<close>: \<^verbatim>\<open>sysfile.c\<close>;
      \<open>Sysproc\<close>: \<^verbatim>\<open>sysproc.c\<close>, \<^verbatim>\<open>syscall.c\<close>; \<open>Trap\<close>: \<^verbatim>\<open>trap.c\<close>.
    \<^item> \<open>Bcache\<close>: the buffer cache as a map from blocks to contents; \<open>Logblock\<close>, \<open>Crash\<close>: the
      steps and loops of the log over it, with the blocks they write.
    \<^item> \<open>Spinlock\<close>: \<^verbatim>\<open>spinlock.c\<close> on several processors; \<open>Grep\<close>: \<^verbatim>\<open>grep.c\<close>, \<^verbatim>\<open>wc.c\<close>,
      \<^verbatim>\<open>cat.c\<close>; \<open>Ulib\<close>: \<^verbatim>\<open>ulib.c\<close>; \<open>Shell\<close>: the parser of \<^verbatim>\<open>sh.c\<close>.

  \<^bold>\<open>What the theorems show.\<close>

    \<^item> The allocator hands out distinct pages and its free list is exactly what was released;
      \<^verbatim>\<open>walk\<close>, \<^verbatim>\<open>mappages\<close> and \<^verbatim>\<open>uvmunmap\<close> change exactly the entries they should.
    \<^item> \<open>Fault\<close>: a page fault keeps the pages of the process, its page table and the free list
      disjoint and complete, whatever case it takes, whenever it returns; a fault reported as
      handled has mapped its page; a stack fault is answered when memory is free.
    \<^item> \<open>Resident\<close>: FIFO picks the oldest page; second chance ends within two rounds and picks
      the first page without a reference bit.
    \<^item> \<open>Cstring\<close>, \<open>Printf\<close>: overlapping moves, names in fixed-size fields, printed numbers
      read back, the two implementations of \<^verbatim>\<open>printf\<close> agree up to the case of hexadecimal
      letters.
    \<^item> \<open>Crash\<close>: the cache refines the map; a commit installs exactly its transaction; a crash at
      any write of a commit is repaired by recovery to the disk before or after it.
    \<^item> \<open>Spinlock\<close>: mutual exclusion for all interleavings of the atomic steps, the nesting of
      interrupt disabling, and that no panic is reached.
    \<^item> \<open>Grep\<close>, \<open>Ulib\<close>: the matcher agrees with the meaning of patterns; output does not depend on
      how a file is cut into pieces; the user library agrees with the kernel's routines.
    \<^item> \<open>Shell\<close>: the parser ends, reads back printed commands, and its words end where they should.

  \<^bold>\<open>Bounds and termination.\<close>  Loops over tables and buffers are recursions on the number of
  iterations that are left; loops over addresses (\<^verbatim>\<open>mappages\<close>, \<^verbatim>\<open>uvmunmap\<close>,
  \<^verbatim>\<open>freerange\<close>) have termination proofs by the distance to their end.  The clock sweep runs
  \<open>2 * nresident\<close> steps as in the code, and \<open>second_chance_victim\<close> shows that these are
  enough.  Walking the free list of disk descriptors is bounded by their number.

  \<^bold>\<open>Not modelled.\<close>  Assembly (\<^verbatim>\<open>entry.S\<close>, \<^verbatim>\<open>swtch.S\<close>, \<^verbatim>\<open>trampoline.S\<close>,
  \<^verbatim>\<open>kernelvec.S\<close>), the set-up of control registers in \<^verbatim>\<open>start.c\<close>, \<^verbatim>\<open>main.c\<close> and the
  interrupt controller \<^verbatim>\<open>plic.c\<close>: they are sequences of writes to registers whose meaning is
  not in the sources.  Outside \<open>Spinlock\<close> a region that a spin lock protects is one step.  \<^verbatim>\<open>scheduler\<close> and
  \<^verbatim>\<open>sched\<close> of \<^verbatim>\<open>proc.c\<close> are loops and checks around the context switch.  The remaining user programs, the
  test programs and the image builder \<^verbatim>\<open>mkfs.c\<close> are clients of what is modelled.  The device side
  of the disk is a definition of its own (\<open>device_serve\<close>); the serial port is the list of the
  register writes it receives.
\<close>

end
